(* ===== verification/Prelude.thy ===== *)
theory Prelude
  imports Main "HOL-Library.AList" "HOL-Library.Char_ord" "HOL-Library.List_Lexorder" "HOL-Library.Multiset"
    "HOL-Library.Code_Target_Nat" "HOL-Library.Code_Target_Int"
begin

text \<open>
  Shared vocabulary of the development.

  Go strings and byte slices are Isabelle strings: a \<^typ>\<open>char\<close> is one byte, so
  \<^const>\<open>length\<close> counts bytes as \<^verbatim>\<open>len\<close> does. A nilable value
  (\<^verbatim>\<open>json.RawMessage\<close>, a slice or map whose nil-ness the code tests, a pointer)
  is an \<open>option\<close>. Go maps are association lists with distinct keys, so that
  iteration order is explicit and can be quantified over. Go's \<^verbatim>\<open>int\<close> and
  \<^verbatim>\<open>int64\<close> values are \<^typ>\<open>int\<close>, kept in range where the code reads them
  from text.
\<close>

type_synonym bytes = string
type_synonym raw_message = "bytes option"
type_synonym 'v go_map = "(string \<times> 'v) list"

named_theorems go_defs \<open>definitions of the Go library model, unfolded on demand\<close>
named_theorems svc_defs \<open>definitions of the agent's own operations, unfolded on demand\<close>

subsection \<open>Results\<close>

text \<open>A result of which the error is only known to be one.\<close>

primrec to_option :: "'e + 'a \<Rightarrow> 'a option" where
  "to_option (Inl e) = None"
| "to_option (Inr a) = Some a"

subsection \<open>Bytes\<close>

abbreviation byte :: "char \<Rightarrow> nat" where
  "byte c \<equiv> of_char c"

definition is_digit :: "char \<Rightarrow> bool" where
  [go_defs]: "is_digit c \<longleftrightarrow> 48 \<le> byte c \<and> byte c \<le> 57"

definition is_lower :: "char \<Rightarrow> bool" where
  [go_defs]: "is_lower c \<longleftrightarrow> 97 \<le> byte c \<and> byte c \<le> 122"

definition is_upper :: "char \<Rightarrow> bool" where
  [go_defs]: "is_upper c \<longleftrightarrow> 65 \<le> byte c \<and> byte c \<le> 90"

definition is_alnum :: "char \<Rightarrow> bool" where
  [go_defs]: "is_alnum c \<longleftrightarrow> is_digit c \<or> is_lower c \<or> is_upper c"

definition to_upper_ascii :: "char \<Rightarrow> char" where
  [go_defs]: "to_upper_ascii c = (if is_lower c then char_of (byte c - 32) else c)"

lemma byte_less_256 [simp]: "byte c < 256"
  using nat_of_char_less_256 by blast

lemma byte_eq_iff [simp]: "byte c = byte d \<longleftrightarrow> c = d"
  by (rule of_char_eq_iff)

lemma char_eq_byte: "c = d \<longleftrightarrow> byte c = byte d"
  by simp

subsection \<open>Lists and options\<close>

lemma take_append_drop_length:
  "s = p @ r \<Longrightarrow> take (length s - length r) s = p"
  by simp

lemma list_all_set: "list_all P xs \<longleftrightarrow> (\<forall>x \<in> set xs. P x)"
  by (rule list_all_iff)

text \<open>Looking a key up in a Go map yields the zero value when the key is absent.\<close>

definition map_index :: "string go_map \<Rightarrow> string \<Rightarrow> string" where
  [go_defs]: "map_index m k = (case map_of m k of None \<Rightarrow> [] | Some v \<Rightarrow> v)"

lemma map_index_update [simp]:
  "map_index (AList.update k v m) k' = (if k' = k then v else map_index m k')"
  by (simp add: map_index_def update_conv')

lemma map_index_perm:
  assumes "mset m = mset m'" and "distinct (map fst m)"
  shows "map_index m k = map_index m' k"
proof -
  have "set m = set m'" using assms(1) by (rule mset_eq_setD)
  moreover have "distinct (map fst m')"
    using assms by (metis mset_eq_imp_distinct_iff mset_map)
  ultimately have "map_of m = map_of m'"
    using assms(2) map_of_eqI
    by (metis map_of_inject_set)
  then show ?thesis by (simp add: map_index_def)
qed

text \<open>
  Early returns: a chain of checks yields no error exactly when every check passes.
\<close>

lemma no_error_iffs:
  "(if b then Some x else y) = None \<longleftrightarrow> \<not> b \<and> y = None"
  "(if b then None else y) = None \<longleftrightarrow> b \<or> y = None"
  "(case z of None \<Rightarrow> y | Some e \<Rightarrow> Some (f e)) = None \<longleftrightarrow> z = None \<and> y = None"
  by (auto split: option.split)

end
