(* ===== verification/Go_Strings.thy ===== *)
theory Go_Strings
  imports Prelude
begin

text \<open>
  The functions of Go's \<^verbatim>\<open>strings\<close>, \<^verbatim>\<open>strconv\<close> and \<^verbatim>\<open>fmt\<close> packages that
  the agent calls, on byte strings: prefix and substring tests, splitting, trimming of
  Unicode white space, decimal printing (\<^verbatim>\<open>%d\<close>) and \<^verbatim>\<open>ParseInt(s, 10, 64)\<close>,
  with the lemmas the components share (round trip of decimal integers, what splitting and
  trimming preserve).
\<close>

subsection \<open>Prefixes and substrings\<close>

definition has_prefix :: "string \<Rightarrow> string \<Rightarrow> bool" where
  [go_defs]: "has_prefix s p \<longleftrightarrow> take (length p) s = p"

fun contains_str :: "string \<Rightarrow> string \<Rightarrow> bool" where
  "contains_str [] sub = (sub = [])"
| "contains_str (c # cs) sub = (has_prefix (c # cs) sub \<or> contains_str cs sub)"

lemma has_prefix_iff: "has_prefix s p \<longleftrightarrow> (\<exists>r. s = p @ r)"
  by (metis append_eq_conv_conj append_take_drop_id has_prefix_def)

lemma has_prefix_append [simp]: "has_prefix (p @ r) p"
  by (simp add: has_prefix_def)

lemma contains_str_iff: "contains_str s sub \<longleftrightarrow> (\<exists>l r. s = l @ sub @ r)"
proof (induction s)
  case Nil
  then show ?case by auto
next
  case (Cons c cs)
  show ?case
  proof
    assume "contains_str (c # cs) sub"
    then consider "has_prefix (c # cs) sub" | "contains_str cs sub" by auto
    then show "\<exists>l r. c # cs = l @ sub @ r"
    proof cases
      case 1
      then show ?thesis by (metis append_Nil has_prefix_iff)
    next
      case 2
      then show ?thesis using Cons by (metis append_Cons)
    qed
  next
    assume "\<exists>l r. c # cs = l @ sub @ r"
    then obtain l r where lr: "c # cs = l @ sub @ r" by blast
    show "contains_str (c # cs) sub"
    proof (cases l)
      case Nil
      with lr have "has_prefix (c # cs) sub" by (metis append_Nil has_prefix_append)
      then show ?thesis by simp
    next
      case (Cons a l')
      with lr have "cs = l' @ sub @ r" by simp
      then show ?thesis using Cons.IH by auto
    qed
  qed
qed

lemma contains_single [simp]: "contains_str s [c] \<longleftrightarrow> c \<in> set s"
  by (auto simp: contains_str_iff in_set_conv_decomp)

subsection \<open>Splitting\<close>

fun split_char :: "char \<Rightarrow> string \<Rightarrow> string list" where
  "split_char c [] = [[]]"
| "split_char c (x # xs) =
     (if x = c then [] # split_char c xs
      else case split_char c xs of [] \<Rightarrow> [[x]] | p # ps \<Rightarrow> (x # p) # ps)"

text \<open>
  \<^verbatim>\<open>strings.Cut(s, sep)\<close> for a one-byte separator: \<open>None\<close> when the separator does not
  occur. \<^verbatim>\<open>strings.SplitN(s, sep, 2)\<close> has two parts exactly when it does.
\<close>

fun cut_char :: "char \<Rightarrow> string \<Rightarrow> (string \<times> string) option" where
  "cut_char c [] = None"
| "cut_char c (x # xs) =
     (if x = c then Some ([], xs)
      else map_option (\<lambda>(a, b). (x # a, b)) (cut_char c xs))"

definition splitn2 :: "char \<Rightarrow> string \<Rightarrow> string list" where
  "splitn2 c s = (case cut_char c s of None \<Rightarrow> [s] | Some (a, b) \<Rightarrow> [a, b])"

definition after_last :: "char \<Rightarrow> string \<Rightarrow> string" where
  \<comment> \<open>\<^verbatim>\<open>if i := strings.LastIndexByte(s, c); i >= 0 { s = s[i+1:] }\<close>\<close>
  "after_last c s = rev (takeWhile (\<lambda>x. x \<noteq> c) (rev s))"

lemma split_char_nonempty [simp]: "split_char c s \<noteq> []"
  by (cases s) (auto split: list.splits)

lemma split_char_no_sep: "p \<in> set (split_char c s) \<Longrightarrow> c \<notin> set p"
proof (induction s arbitrary: p)
  case Nil
  then show ?case by simp
next
  case (Cons x xs)
  then show ?case by (fastforce split: if_splits list.splits)
qed

lemma concat_split_char: "concat (split_char c s) = filter (\<lambda>x. x \<noteq> c) s"
  by (induction s) (auto split: list.splits)

lemma split_char_cut:
  "split_char c s = (case cut_char c s of None \<Rightarrow> [s] | Some (a, b) \<Rightarrow> a # split_char c b)"
  by (induction s) (auto split: option.splits)

lemma cut_char_Some:
  "cut_char c s = Some (a, b) \<Longrightarrow> s = a @ c # b \<and> c \<notin> set a"
  by (induction s arbitrary: a b) (auto split: if_splits)

lemma cut_char_None: "cut_char c s = None \<longleftrightarrow> c \<notin> set s"
  by (induction s) auto

lemma cut_char_append [simp]: "c \<notin> set a \<Longrightarrow> cut_char c (a @ c # b) = Some (a, b)"
  by (induction a) auto

lemma split_char_one: "split_char c s = [x] \<longleftrightarrow> s = x \<and> c \<notin> set x"
proof (cases "cut_char c s")
  case None
  then have "c \<notin> set s" by (simp add: cut_char_None)
  with None show ?thesis by (subst split_char_cut) auto
next
  case (Some ab)
  then have "c \<in> set s" using cut_char_None[of c s] by auto
  with Some show ?thesis by (subst split_char_cut) (auto split: prod.split)
qed

lemma split_char_more:
  "split_char c s = x # y # r \<longleftrightarrow> (\<exists>t. s = x @ c # t \<and> c \<notin> set x \<and> split_char c t = y # r)"
proof (cases "cut_char c s")
  case None
  then have "c \<notin> set s" by (simp add: cut_char_None)
  then show ?thesis by (subst split_char_cut) (auto simp: None)
next
  case (Some ab)
  obtain a b where ab: "ab = (a, b)" by (cases ab)
  then have s: "s = a @ c # b" "c \<notin> set a" using cut_char_Some Some by fastforce+
  have "split_char c s = a # split_char c b" by (subst split_char_cut) (simp add: Some ab)
  moreover have "s = x @ c # t \<and> c \<notin> set x \<longleftrightarrow> x = a \<and> t = b" for t
    using s by (auto simp: append_eq_append_conv2 Cons_eq_append_conv append_eq_Cons_conv)
  ultimately show ?thesis by auto
qed

lemma after_last_no_sep: "c \<notin> set (after_last c s)"
  by (auto simp: after_last_def dest: set_takeWhileD)

lemma takeWhile_neq_Cons: "c \<notin> set xs \<Longrightarrow> takeWhile (\<lambda>x. x \<noteq> c) (xs @ c # ys) = xs"
  by (induction xs) auto

lemma takeWhile_neq_id: "c \<notin> set xs \<Longrightarrow> takeWhile (\<lambda>x. x \<noteq> c) xs = xs"
  by (induction xs) auto

lemma after_last_append: "c \<notin> set b \<Longrightarrow> after_last c (a @ c # b) = b"
proof -
  assume "c \<notin> set b"
  then have "takeWhile (\<lambda>x. x \<noteq> c) (rev b @ c # rev a) = rev b"
    by (intro takeWhile_neq_Cons) simp
  then show ?thesis by (simp add: after_last_def)
qed

lemma after_last_id: "c \<notin> set b \<Longrightarrow> after_last c b = b"
proof -
  assume "c \<notin> set b"
  then have "takeWhile (\<lambda>x. x \<noteq> c) (rev b) = rev b" by (auto simp: takeWhile_eq_all_conv)
  then show ?thesis by (simp only: after_last_def rev_rev_ident)
qed

lemma set_after_last: "set (after_last c s) \<subseteq> set s"
  by (auto simp: after_last_def dest: set_takeWhileD)

subsection \<open>Joining\<close>

fun join_with :: "string \<Rightarrow> string list \<Rightarrow> string" where
  "join_with sep [] = []"
| "join_with sep [x] = x"
| "join_with sep (x # y # ys) = x @ sep @ join_with sep (y # ys)"

lemma split_join:
  assumes "ps \<noteq> []" and "\<And>p. p \<in> set ps \<Longrightarrow> c \<notin> set p"
  shows "split_char c (join_with [c] ps) = ps"
  using assms
proof (induction ps rule: induct_list012)
  case (3 x y ys)
  have IH: "split_char c (join_with [c] (y # ys)) = y # ys" by (rule "3.IH"(2)) (use "3.prems" in auto)
  then show ?case
    using "3.prems"(2)[of x] by (simp add: split_char_more)
qed (simp_all add: split_char_one)

subsection \<open>TrimSpace\<close>

text \<open>
  \<^verbatim>\<open>strings.TrimSpace\<close> removes the runes of \<^verbatim>\<open>unicode.IsSpace\<close> (property White\_Space)
  from both ends. \<open>space_encodings\<close> lists their UTF-8 encodings: the six ASCII ones, then
  U+0085, U+00A0, U+1680, U+2000 to U+200A, U+2028, U+2029, U+202F, U+205F and U+3000.
\<close>

definition space_encodings :: "string list" where
  [go_defs]: "space_encodings =
     map (map char_of)
       ([[9], [10], [11], [12], [13], [32],
         [194, 133], [194, 160], [225, 154, 128],
         [226, 128, 168], [226, 128, 169], [226, 128, 175], [226, 129, 159], [227, 128, 128]]
        @ map (\<lambda>n. [226, 128, n]) [128, 129, 130, 131, 132, 133, 134, 135, 136, 137, 138 :: nat])"

definition strip_one :: "string list \<Rightarrow> string \<Rightarrow> string" where
  [go_defs]: "strip_one ps s =
     (case find (has_prefix s) ps of None \<Rightarrow> s | Some p \<Rightarrow> drop (length p) s)"

fun strip_all :: "string list \<Rightarrow> nat \<Rightarrow> string \<Rightarrow> string" where
  "strip_all ps 0 s = s"
| "strip_all ps (Suc n) s =
     (let s' = strip_one ps s in if length s' < length s then strip_all ps n s' else s)"

definition trim_left :: "string \<Rightarrow> string" where
  [go_defs]: "trim_left s = strip_all space_encodings (length s) s"

definition trim_right :: "string \<Rightarrow> string" where
  [go_defs]: "trim_right s = rev (strip_all (map rev space_encodings) (length s) (rev s))"

definition trim_space :: "string \<Rightarrow> string" where
  [go_defs]: "trim_space s = trim_right (trim_left s)"

lemma strip_one_suffix: "\<exists>p. s = p @ strip_one ps s"
  by (cases "find (has_prefix s) ps") (auto simp: strip_one_def intro: append_take_drop_id[symmetric])

lemma strip_all_suffix: "\<exists>p. s = p @ strip_all ps n s"
proof (induction n arbitrary: s)
  case 0
  then show ?case by simp
next
  case (Suc n)
  obtain p where p: "s = p @ strip_one ps s" using strip_one_suffix by blast
  obtain q where q: "strip_one ps s = q @ strip_all ps n (strip_one ps s)" using Suc by blast
  from p q have "s = (p @ q) @ strip_all ps n (strip_one ps s)" by simp
  then have "\<exists>p. s = p @ strip_all ps n (strip_one ps s)" by (rule exI)
  then show ?case by (simp add: Let_def del: append_assoc)
qed

lemma trim_space_infix: "\<exists>a b. s = a @ trim_space s @ b"
proof -
  obtain a where a: "s = a @ trim_left s"
    unfolding trim_left_def using strip_all_suffix by blast
  obtain b where b: "rev (trim_left s) = b @ rev (trim_right (trim_left s))"
    unfolding trim_right_def rev_rev_ident using strip_all_suffix by blast
  then have "trim_left s = trim_right (trim_left s) @ rev b"
    by (metis rev_append rev_rev_ident)
  with a show ?thesis by (metis append.assoc trim_space_def)
qed

lemma set_trim_space: "set (trim_space s) \<subseteq> set s"
  by (metis set_append subsetI trim_space_infix Un_iff)

lemma length_trim_space: "length (trim_space s) \<le> length s"
  by (metis length_append le_add1 le_add2 order_trans trim_space_infix)

text \<open>A text of graphic ASCII characters has nothing to trim.\<close>

definition is_graphic :: "char \<Rightarrow> bool" where
  "is_graphic c \<longleftrightarrow> 32 < byte c \<and> byte c < 128"

lemma strip_all_id:
  assumes "\<And>p. p \<in> set ps \<Longrightarrow> p \<noteq> [] \<and> \<not> is_graphic (hd p)" and "list_all is_graphic s"
  shows "strip_all ps n s = s"
proof (cases n)
  case (Suc m)
  have "\<not> has_prefix s p" if "p \<in> set ps" for p
    using assms(1)[OF that] assms(2) by (cases p; cases s) (auto simp: has_prefix_def)
  then have "find (has_prefix s) ps = None" by (simp add: find_None_iff)
  then show ?thesis by (simp add: Suc strip_one_def)
qed simp

lemma space_ends:
  "p \<in> set space_encodings \<Longrightarrow> p \<noteq> [] \<and> \<not> is_graphic (hd p)"
  "p \<in> set (map rev space_encodings) \<Longrightarrow> p \<noteq> [] \<and> \<not> is_graphic (hd p)"
  by (auto simp: space_encodings_def is_graphic_def)

lemma trim_space_id: "list_all is_graphic s \<Longrightarrow> trim_space s = s"
proof -
  assume g: "list_all is_graphic s"
  have l: "trim_left s = s" unfolding trim_left_def by (rule strip_all_id[OF space_ends(1) g])
  have g': "list_all is_graphic (rev s)" using g by (simp add: list_all_iff)
  have "strip_all (map rev space_encodings) (length s) (rev s) = rev s"
    using strip_all_id[OF _ g', of "map rev space_encodings"] space_ends(2) by blast
  with l show ?thesis by (simp add: trim_space_def trim_right_def)
qed

subsection \<open>Decimal integers\<close>

definition digit_char :: "nat \<Rightarrow> char" where
  [go_defs]: "digit_char d = char_of (48 + d)"

fun nat_digits :: "nat \<Rightarrow> string" where
  "nat_digits n =
     (if n < 10 then [digit_char n] else nat_digits (n div 10) @ [digit_char (n mod 10)])"

declare nat_digits.simps [simp del]

text \<open>\<^verbatim>\<open>fmt.Sprintf("%d", n)\<close>.\<close>

definition itoa :: "int \<Rightarrow> string" where
  [go_defs]: "itoa n = (if n < 0 then CHR ''-'' # nat_digits (nat (- n)) else nat_digits (nat n))"

definition digit_val :: "char \<Rightarrow> nat" where
  [go_defs]: "digit_val c = byte c - 48"

definition digits_val :: "string \<Rightarrow> nat" where
  [go_defs]: "digits_val = foldl (\<lambda>n c. 10 * n + digit_val c) 0"

text \<open>
  \<^verbatim>\<open>strconv.ParseInt(s, 10, 64)\<close>, which is also \<^verbatim>\<open>strconv.Atoi\<close> on a 64-bit
  platform: an optional sign, one or more digits, and a range check. \<open>None\<close> stands for
  both \<^verbatim>\<open>ErrSyntax\<close> and \<^verbatim>\<open>ErrRange\<close>.
\<close>

definition parse_int64 :: "string \<Rightarrow> int option" where
  [go_defs]: "parse_int64 s =
     (let (neg, ds) =
        (case s of [] \<Rightarrow> (False, [])
         | c # r \<Rightarrow> if c = CHR ''-'' then (True, r)
                     else if c = CHR ''+'' then (False, r) else (False, s))
      in if ds = [] \<or> \<not> list_all is_digit ds then None
         else let n = digits_val ds
              in if neg then (if n \<le> 2 ^ 63 then Some (- int n) else None)
                 else (if n < 2 ^ 63 then Some (int n) else None))"

lemma nat_digits_small [simp]: "n < 10 \<Longrightarrow> nat_digits n = [digit_char n]"
  by (simp add: nat_digits.simps)

lemma nat_digits_big [simp]:
  "10 \<le> n \<Longrightarrow> nat_digits n = nat_digits (n div 10) @ [digit_char (n mod 10)]"
  by (subst nat_digits.simps) simp

lemma nat_digits_nonempty [simp]: "nat_digits n \<noteq> []"
  by (subst nat_digits.simps) simp

lemma byte_digit_char [simp]: "d < 10 \<Longrightarrow> byte (digit_char d) = 48 + d"
  by (simp add: digit_char_def)

lemma nat_digits_digits: "list_all is_digit (nat_digits n)"
proof (induction n rule: nat_digits.induct)
  case (1 n)
  show ?case
  proof (cases "n < 10")
    case True
    then show ?thesis by (simp add: is_digit_def)
  next
    case False
    then have "is_digit (digit_char (n mod 10))" by (simp add: is_digit_def)
    with 1 False show ?thesis by simp
  qed
qed

lemma digits_val_snoc [simp]: "digits_val (ds @ [c]) = 10 * digits_val ds + digit_val c"
  by (simp add: digits_val_def)

lemma digits_val_nat_digits [simp]: "digits_val (nat_digits n) = n"
proof (induction n rule: nat_digits.induct)
  case (1 n)
  show ?case
  proof (cases "n < 10")
    case True
    then show ?thesis by (simp add: digits_val_def digit_val_def)
  next
    case False
    then have "digit_val (digit_char (n mod 10)) = n mod 10" by (simp add: digit_val_def)
    with 1 False show ?thesis by simp
  qed
qed

lemma nat_digits_hd: "\<exists>c r. nat_digits n = c # r \<and> is_digit c"
  using nat_digits_digits[of n] nat_digits_nonempty[of n] by (cases "nat_digits n") auto

lemma parse_int64_itoa:
  assumes "- (2 ^ 63) \<le> n" and "n < 2 ^ 63"
  shows "parse_int64 (itoa n) = Some n"
proof (cases "n < 0")
  case True
  have "nat (- n) \<le> 2 ^ 63" using assms(1) by simp
  with True show ?thesis
    by (simp add: itoa_def parse_int64_def nat_digits_digits)
next
  case False
  obtain c r where cr: "nat_digits (nat n) = c # r" and c: "is_digit c"
    using nat_digits_hd by blast
  have ne: "c \<noteq> CHR ''-''" "c \<noteq> CHR ''+''" using c by (auto simp: is_digit_def)
  have "nat n < 2 ^ 63" using assms(2) False by simp
  moreover have "digits_val (c # r) = nat n" "list_all is_digit (c # r)"
    using cr digits_val_nat_digits[of "nat n"] nat_digits_digits[of "nat n"] by simp_all
  ultimately show ?thesis
    using False ne by (simp add: itoa_def parse_int64_def cr)
qed

lemma parse_int64_range: "parse_int64 s = Some n \<Longrightarrow> - (2 ^ 63) \<le> n \<and> n < 2 ^ 63"
  by (auto simp: parse_int64_def Let_def split: list.splits if_splits)

lemma itoa_chars: "c \<in> set (itoa n) \<Longrightarrow> is_digit c \<or> c = CHR ''-''"
  using nat_digits_digits by (auto simp: itoa_def list_all_iff split: if_splits)

lemma trim_space_itoa: "trim_space (itoa n) = itoa n"
  using itoa_chars by (intro trim_space_id) (fastforce simp: list_all_iff is_graphic_def is_digit_def)

end
