(* ===== verification/Go_Json.thy ===== *)
theory Go_Json
  imports Go_Strings
begin

text \<open>
  The syntax half of \<^verbatim>\<open>encoding/json\<close>: UTF-8, quoted strings, number literals and the
  recursive reader of values with its nesting limit. A value read from text keeps, for every
  member and element, the exact slice of the input it came from, because
  \<^verbatim>\<open>json.RawMessage\<close> fields receive that slice. A syntax error (or the end of the
  input) is \<open>None\<close>: the agent never looks at the position of an error.

  The reader is fuelled; \<open>read_value_fuel\<close> shows that the fuel \<open>read_first\<close> gives it is
  never exhausted, so \<open>None\<close> always means malformed input.
\<close>

subsection \<open>UTF-8\<close>

definition is_cont :: "char \<Rightarrow> bool" where
  [go_defs]: "is_cont c \<longleftrightarrow> 128 \<le> byte c \<and> byte c \<le> 191"

text \<open>
  The size of the rune at the head of a string as \<^verbatim>\<open>utf8.DecodeRune\<close> reports it, with
  \<open>0\<close> where it reports \<^verbatim>\<open>(RuneError, 1)\<close> for an invalid encoding.
\<close>

definition rune_len2 :: "char \<Rightarrow> string \<Rightarrow> nat" where
  [go_defs]: "rune_len2 a s = (case s of b # _ \<Rightarrow> if is_cont b then 2 else 0 | _ \<Rightarrow> 0)"

definition rune_len3 :: "char \<Rightarrow> string \<Rightarrow> nat" where
  [go_defs]: "rune_len3 a s =
     (case s of b # c # _ \<Rightarrow>
        if (if byte a = 224 then 160 else 128) \<le> byte b
           \<and> byte b \<le> (if byte a = 237 then 159 else 191) \<and> is_cont c then 3 else 0
      | _ \<Rightarrow> 0)"

definition rune_len4 :: "char \<Rightarrow> string \<Rightarrow> nat" where
  [go_defs]: "rune_len4 a s =
     (case s of b # c # d # _ \<Rightarrow>
        if (if byte a = 240 then 144 else 128) \<le> byte b
           \<and> byte b \<le> (if byte a = 244 then 143 else 191) \<and> is_cont c \<and> is_cont d then 4 else 0
      | _ \<Rightarrow> 0)"

definition rune_len :: "char \<Rightarrow> string \<Rightarrow> nat" where
  [go_defs]: "rune_len a s =
     (if byte a < 128 then 1
      else if byte a < 194 then 0
      else if byte a < 224 then rune_len2 a s
      else if byte a < 240 then rune_len3 a s
      else if byte a < 245 then rune_len4 a s
      else 0)"

lemmas rune_len_defs = rune_len_def rune_len2_def rune_len3_def rune_len4_def

definition replacement_char :: string where
  [go_defs]: "replacement_char = map char_of [239, 191, 189 :: nat]"

definition encode_rune :: "nat \<Rightarrow> string" where
  [go_defs]: "encode_rune u =
     (if u < 128 then [char_of u]
      else if u < 2048 then map char_of [192 + u div 64, 128 + u mod 64]
      else if 55296 \<le> u \<and> u < 57344 \<or> 1114111 < u then replacement_char
      else if u < 65536 then
        map char_of [224 + u div 4096, 128 + u div 64 mod 64, 128 + u mod 64]
      else map char_of
        [240 + u div 262144, 128 + u div 4096 mod 64, 128 + u div 64 mod 64, 128 + u mod 64])"

text \<open>Replacing every invalid byte by U+FFFD, as both the encoder and the decoder do.\<close>

function to_valid :: "string \<Rightarrow> string" where
  "to_valid [] = []"
| "to_valid (c # s) =
     (let n = rune_len c s in
      if n = 0 then replacement_char @ to_valid s
      else c # take (n - 1) s @ to_valid (drop (n - 1) s))"
  by pat_completeness auto
termination by (relation "measure length") auto

lemma rune_len_bound: "rune_len c s \<le> Suc (length s)"
  by (auto simp: rune_len_defs split: list.splits)

lemma rune_len_le4: "rune_len c s \<le> 4"
  by (auto simp: rune_len_defs split: list.splits)

lemma rune_len_ascii [simp]: "byte c < 128 \<Longrightarrow> rune_len c s = 1"
  by (simp add: rune_len_def)

text \<open>Only the bytes of the rune itself decide its size.\<close>

lemma rune_len_local:
  assumes "rune_len c s \<noteq> 0"
  shows "rune_len c (take (rune_len c s - 1) s @ t) = rune_len c s"
proof -
  have 2: "rune_len2 c (take 1 s @ t) = 2" if "rune_len2 c s \<noteq> 0"
    using that by (cases s) (auto simp: rune_len2_def split: if_splits)
  have 3: "rune_len3 c (take 2 s @ t) = 3" if "rune_len3 c s \<noteq> 0"
    using that by (auto simp: rune_len3_def numeral_2_eq_2 split: list.splits if_splits)
  have 4: "rune_len4 c (take 3 s @ t) = 4" if "rune_len4 c s \<noteq> 0"
    using that by (auto simp: rune_len4_def numeral_3_eq_3 split: list.splits if_splits)
  have e2: "rune_len2 c s = 0 \<or> rune_len2 c s = 2" and e3: "rune_len3 c s = 0 \<or> rune_len3 c s = 3"
    and e4: "rune_len4 c s = 0 \<or> rune_len4 c s = 4"
    by (auto simp: rune_len2_def rune_len3_def rune_len4_def split: list.splits)
  show ?thesis
    using assms 2 3 4 e2 e3 e4 unfolding rune_len_def by (auto split: if_splits)
qed

lemma to_valid_ascii:
  assumes "list_all (\<lambda>c. byte c < 128) s"
  shows "to_valid s = s"
  using assms by (induction s) auto

subsection \<open>Quoted strings\<close>

definition hex_val :: "char \<Rightarrow> nat option" where
  [go_defs]: "hex_val c =
     (if is_digit c then Some (byte c - 48)
      else if 97 \<le> byte c \<and> byte c \<le> 102 then Some (byte c - 87)
      else if 65 \<le> byte c \<and> byte c \<le> 70 then Some (byte c - 55)
      else None)"

definition read_hex4 :: "string \<Rightarrow> (nat \<times> string) option" where
  [go_defs]: "read_hex4 s =
     (case s of a # b # c # d # r \<Rightarrow>
        (case (hex_val a, hex_val b, hex_val c, hex_val d) of
           (Some w, Some x, Some y, Some z) \<Rightarrow> Some (4096 * w + 256 * x + 16 * y + z, r)
         | _ \<Rightarrow> None)
      | _ \<Rightarrow> None)"

definition simple_escape :: "char \<Rightarrow> char option" where
  [go_defs]: "simple_escape e = map_of
     [(CHR 0x22, CHR 0x22), (CHR 0x5C, CHR 0x5C), (CHR 0x2F, CHR 0x2F),
      (CHR ''b'', CHR 0x08), (CHR ''f'', CHR 0x0C), (CHR ''n'', CHR 0x0A),
      (CHR ''r'', CHR 0x0D), (CHR ''t'', CHR 0x09)] e"

text \<open>The second half of a surrogate pair, when one follows.\<close>

definition low_surrogate :: "nat \<Rightarrow> string \<Rightarrow> (nat \<times> string) option" where
  [go_defs]: "low_surrogate u s =
     (case s of a # b # r \<Rightarrow>
        if a = CHR 0x5C \<and> b = CHR ''u'' then
          (case read_hex4 r of None \<Rightarrow> None
           | Some (v, r') \<Rightarrow>
               if 55296 \<le> u \<and> u < 56320 \<and> 56320 \<le> v \<and> v < 57344
               then Some (65536 + (u - 55296) * 1024 + (v - 56320), r') else None)
        else None
      | _ \<Rightarrow> None)"

definition is_surrogate :: "nat \<Rightarrow> bool" where
  [go_defs]: "is_surrogate u \<longleftrightarrow> 55296 \<le> u \<and> u < 57344"

definition push :: "string \<Rightarrow> (string \<times> string) option \<Rightarrow> (string \<times> string) option" where
  [go_defs]: "push p = map_option (\<lambda>(t, r). (p @ t, r))"

lemma push_simps [simp]: "push p None = None" "push p (Some (t, r)) = Some (p @ t, r)"
  by (simp_all add: push_def)

lemma push_Some: "push p x = Some (t, r) \<longleftrightarrow> (\<exists>t'. x = Some (t', r) \<and> t = p @ t')"
  by (auto simp: push_def)

lemma read_hex4_length: "read_hex4 s = Some (u, r) \<Longrightarrow> length r < length s"
  by (auto simp: read_hex4_def split: list.splits option.splits prod.splits)

lemma low_surrogate_length: "low_surrogate u s = Some (v, r) \<Longrightarrow> length r < length s"
  by (auto simp: low_surrogate_def split: list.splits option.splits if_splits
      dest!: read_hex4_length)

text \<open>
  Scanning and unquoting in one pass, from the byte after the opening quote: the contents and
  the input after the closing quote.
\<close>

function read_string :: "string \<Rightarrow> (string \<times> string) option" where
  "read_string [] = None"
| "read_string (c # s) =
     (if c = CHR 0x22 then Some ([], s)
      else if c = CHR 0x5C then
        (case s of [] \<Rightarrow> None
         | e # r \<Rightarrow>
             if e = CHR ''u'' then
               (case read_hex4 r of None \<Rightarrow> None
                | Some (u, r1) \<Rightarrow>
                    if is_surrogate u then
                      (case low_surrogate u r1 of
                         Some (v, r2) \<Rightarrow> push (encode_rune v) (read_string r2)
                       | None \<Rightarrow> push replacement_char (read_string r1))
                    else push (encode_rune u) (read_string r1))
             else (case simple_escape e of None \<Rightarrow> None
                   | Some x \<Rightarrow> push [x] (read_string r)))
      else if byte c < 32 then None
      else (let n = rune_len c s in
            if n = 0 then push replacement_char (read_string s)
            else push (c # take (n - 1) s) (read_string (drop (n - 1) s))))"
  by pat_completeness auto
termination
  by (relation "measure length") (auto dest!: read_hex4_length low_surrogate_length)

lemma read_string_length: "read_string s = Some (t, r) \<Longrightarrow> length r < length s"
proof (induction s arbitrary: t r rule: read_string.induct)
  case 1
  then show ?case by simp
next
  case (2 c s)
  then show ?case
    by (fastforce simp: Let_def push_Some split: if_splits list.splits option.splits prod.splits
        dest!: read_hex4_length low_surrogate_length)
qed

subsection \<open>Values\<close>

datatype json =
    JNull
  | JBool bool
  | JNum string
  | JStr string
  | JArr "(string \<times> json) list"
  | JObj "(string \<times> string \<times> json) list"

text \<open>
  \<open>JArr\<close> pairs each element with its raw text, \<open>JObj\<close> each (unquoted) key with the raw text
  and the value of its member. A number keeps its literal, which is what
  \<^verbatim>\<open>strconv.ParseInt\<close> is applied to.
\<close>

definition is_ws :: "char \<Rightarrow> bool" where
  [go_defs]: "is_ws c \<longleftrightarrow> c \<in> {CHR 0x20, CHR 0x09, CHR 0x0A, CHR 0x0D}"

definition skip_ws :: "string \<Rightarrow> string" where
  [go_defs]: "skip_ws s = dropWhile is_ws s"

definition read_exp :: "string \<Rightarrow> string \<Rightarrow> (string \<times> string) option" where
  [go_defs]: "read_exp acc s =
     (case s of [] \<Rightarrow> Some (acc, s)
      | c # r \<Rightarrow>
          if c = CHR ''e'' \<or> c = CHR ''E'' then
            (let (sg, r1) = (case r of [] \<Rightarrow> ([], r)
                  | x # r' \<Rightarrow> if x = CHR ''+'' \<or> x = CHR ''-'' then ([x], r') else ([], r));
                 ds = takeWhile is_digit r1
             in if ds = [] then None else Some (acc @ c # sg @ ds, dropWhile is_digit r1))
          else Some (acc, s))"

definition read_frac :: "string \<Rightarrow> string \<Rightarrow> (string \<times> string) option" where
  [go_defs]: "read_frac acc s =
     (case s of [] \<Rightarrow> Some (acc, s)
      | c # r \<Rightarrow>
          if c = CHR ''.'' then
            (let ds = takeWhile is_digit r
             in if ds = [] then None else read_exp (acc @ c # ds) (dropWhile is_digit r))
          else read_exp acc s)"

definition read_number :: "string \<Rightarrow> (string \<times> string) option" where
  [go_defs]: "read_number s =
     (let (sg, s1) = (case s of [] \<Rightarrow> ([], s)
           | c # r \<Rightarrow> if c = CHR ''-'' then ([c], r) else ([], s))
      in case s1 of [] \<Rightarrow> None
         | d # r \<Rightarrow>
             if d = CHR ''0'' then read_frac (sg @ [d]) r
             else if is_digit d then read_frac (sg @ takeWhile is_digit s1) (dropWhile is_digit s1)
             else None)"

definition read_literal :: "string \<Rightarrow> json \<Rightarrow> string \<Rightarrow> (json \<times> string) option" where
  [go_defs]: "read_literal w v s =
     (if has_prefix s w then Some (v, drop (length w) s) else None)"

text \<open>\<^verbatim>\<open>maxNestingDepth\<close> of the scanner.\<close>

definition max_depth :: nat where
  [go_defs]: "max_depth = 10000"

definition raw_slice :: "string \<Rightarrow> string \<Rightarrow> string" where
  [go_defs]: "raw_slice s r = take (length s - length r) s"

text \<open>
  The separators inside arrays and objects. \<open>open_body\<close> looks past an opening bracket: is the
  container empty (\<open>True\<close>, with the input after the closing bracket) or where does its first item
  start? \<open>item_end\<close> looks past an item: does the container close, or where does the next item
  start? \<open>member_key\<close> reads a member's key and its colon, up to the value.
\<close>

definition open_body :: "char \<Rightarrow> string \<Rightarrow> (bool \<times> string) option" where
  [go_defs]: "open_body cl s =
     (case skip_ws s of [] \<Rightarrow> None
      | x # r \<Rightarrow> if x = cl then Some (True, r) else Some (False, x # r))"

definition item_end :: "char \<Rightarrow> string \<Rightarrow> (bool \<times> string) option" where
  [go_defs]: "item_end cl s =
     (case skip_ws s of [] \<Rightarrow> None
      | x # r \<Rightarrow> if x = cl then Some (True, r)
                 else if x = CHR '','' then Some (False, skip_ws r) else None)"

definition member_key :: "string \<Rightarrow> (string \<times> string) option" where
  [go_defs]: "member_key s =
     (case s of [] \<Rightarrow> None
      | q # s1 \<Rightarrow>
          if q \<noteq> CHR 0x22 then None
          else (case read_string s1 of None \<Rightarrow> None
                | Some (k, s2) \<Rightarrow>
                    (case skip_ws s2 of [] \<Rightarrow> None
                     | c # s3 \<Rightarrow> if c = CHR '':'' then Some (k, skip_ws s3) else None)))"

definition read_scalar :: "string \<Rightarrow> (json \<times> string) option" where
  [go_defs]: "read_scalar s =
     (case s of [] \<Rightarrow> None
      | c # r \<Rightarrow>
          if c = CHR 0x22 then map_option (\<lambda>(t, r1). (JStr t, r1)) (read_string r)
          else if c = CHR ''t'' then read_literal ''true'' (JBool True) s
          else if c = CHR ''f'' then read_literal ''false'' (JBool False) s
          else if c = CHR ''n'' then read_literal ''null'' JNull s
          else map_option (\<lambda>(t, r1). (JNum t, r1)) (read_number s))"

text \<open>
  The reader: fuel, the number of arrays and objects already open, and the input from the first
  byte of the value, of an element or of a member's key.
\<close>

fun read_value :: "nat \<Rightarrow> nat \<Rightarrow> string \<Rightarrow> (json \<times> string) option"
and read_elems :: "nat \<Rightarrow> nat \<Rightarrow> string \<Rightarrow> ((string \<times> json) list \<times> string) option"
and read_members ::
  "nat \<Rightarrow> nat \<Rightarrow> string \<Rightarrow> ((string \<times> string \<times> json) list \<times> string) option"
where
  "read_value 0 d s = None"
| "read_value (Suc f) d s =
     (case s of [] \<Rightarrow> None
      | c # r \<Rightarrow>
          if c = CHR ''{'' then
            (if max_depth \<le> d then None
             else case open_body CHR ''}'' r of None \<Rightarrow> None
                  | Some (closed, r1) \<Rightarrow>
                      if closed then Some (JObj [], r1)
                      else map_option (\<lambda>(ms, t). (JObj ms, t)) (read_members f (Suc d) r1))
          else if c = CHR ''['' then
            (if max_depth \<le> d then None
             else case open_body CHR '']'' r of None \<Rightarrow> None
                  | Some (closed, r1) \<Rightarrow>
                      if closed then Some (JArr [], r1)
                      else map_option (\<lambda>(es, t). (JArr es, t)) (read_elems f (Suc d) r1))
          else read_scalar s)"
| "read_elems 0 d s = None"
| "read_elems (Suc f) d s =
     (case read_value f d s of None \<Rightarrow> None
      | Some (v, r) \<Rightarrow>
          (case item_end CHR '']'' r of None \<Rightarrow> None
           | Some (closed, r1) \<Rightarrow>
               if closed then Some ([(raw_slice s r, v)], r1)
               else map_option (\<lambda>(es, t). ((raw_slice s r, v) # es, t)) (read_elems f d r1)))"
| "read_members 0 d s = None"
| "read_members (Suc f) d s =
     (case member_key s of None \<Rightarrow> None
      | Some (k, s1) \<Rightarrow>
          (case read_value f d s1 of None \<Rightarrow> None
           | Some (v, r) \<Rightarrow>
               (case item_end CHR ''}'' r of None \<Rightarrow> None
                | Some (closed, r1) \<Rightarrow>
                    if closed then Some ([(k, raw_slice s1 r, v)], r1)
                    else map_option (\<lambda>(ms, t). ((k, raw_slice s1 r, v) # ms, t))
                           (read_members f d r1))))"

text \<open>
  \<open>read_first\<close> is what \<^verbatim>\<open>Decoder.Decode\<close> reads: the first value and the unread rest.
  \<open>read_document\<close> is what \<^verbatim>\<open>Unmarshal\<close> accepts: one value and nothing but white space
  around it.
\<close>

definition read_first :: "string \<Rightarrow> (json \<times> string) option" where
  [go_defs]: "read_first s = (let t = skip_ws s in read_value (2 * length t + 2) 0 t)"

definition read_document :: "string \<Rightarrow> json option" where
  [go_defs]: "read_document s =
     (case read_first s of None \<Rightarrow> None
      | Some (v, r) \<Rightarrow> if skip_ws r = [] then Some v else None)"

lemma length_skip_ws: "length (skip_ws s) \<le> length s"
  by (simp add: skip_ws_def length_dropWhile_le)

lemma skip_ws_Cons_length: "skip_ws s = x # r \<Longrightarrow> length r < length s"
  using length_skip_ws[of s] by simp

lemma skip_ws_id [simp]: "\<not> is_ws c \<Longrightarrow> skip_ws (c # s) = c # s"
  by (simp add: skip_ws_def)

lemma length_dropWhile_hd: "is_digit c \<Longrightarrow> length (dropWhile is_digit (c # s)) \<le> length s"
  by (simp add: length_dropWhile_le)

lemma read_exp_length: "read_exp acc s = Some (t, r) \<Longrightarrow> length r \<le> length s"
  by (auto simp: read_exp_def Let_def split: list.splits if_splits
      intro: order_trans[OF length_dropWhile_le] le_SucI)

lemma read_frac_length: "read_frac acc s = Some (t, r) \<Longrightarrow> length r \<le> length s"
  by (auto simp: read_frac_def Let_def split: list.splits if_splits
      dest!: read_exp_length intro: order_trans[OF _ length_dropWhile_le] le_SucI)

lemma read_number_length: "read_number s = Some (t, r) \<Longrightarrow> length r < length s"
  by (auto simp: read_number_def Let_def less_Suc_eq_le split: list.splits if_splits
      dest!: read_frac_length intro: order_trans[OF _ length_dropWhile_le] le_SucI)

lemma read_literal_length:
  "w \<noteq> [] \<Longrightarrow> read_literal w v s = Some (u, r) \<Longrightarrow> length r < length s"
  by (auto simp: read_literal_def has_prefix_iff split: if_splits)

lemma open_body_length: "open_body cl s = Some (b, r) \<Longrightarrow> length r \<le> length s"
  by (auto simp: open_body_def dest!: skip_ws_Cons_length split: list.splits if_splits)
     (metis length_Cons length_skip_ws)

lemma item_end_length: "item_end cl s = Some (b, r) \<Longrightarrow> length r < length s"
  by (auto simp: item_end_def split: list.splits if_splits dest!: skip_ws_Cons_length
      intro: le_less_trans[OF length_skip_ws])

lemma member_key_length: "member_key s = Some (k, r) \<Longrightarrow> length r < length s"
  by (auto simp: member_key_def split: list.splits if_splits option.splits
      dest!: read_string_length skip_ws_Cons_length intro!: le_less_trans[OF length_skip_ws])

lemma read_scalar_length: "read_scalar s = Some (v, r) \<Longrightarrow> length r < length s"
  by (auto simp: read_scalar_def split: list.splits if_splits
      dest: read_string_length read_number_length read_literal_length[rotated])

lemmas read_lengths = open_body_length item_end_length member_key_length read_scalar_length

lemma read_values_length:
  "read_value f d s = Some (v, r) \<Longrightarrow> length r < length s"
  "read_elems f d s = Some (es, r) \<Longrightarrow> length r < length s"
  "read_members f d s = Some (ms, r) \<Longrightarrow> length r < length s"
proof (induction f d s and f d s and f d s arbitrary: v r and es r and ms r
    rule: read_value_read_elems_read_members.induct)
  case (2 f d s)
  then show ?case
    by (fastforce split: list.splits if_splits option.splits dest: read_lengths)
next
  case (4 f d s)
  then show ?case
    by (fastforce split: if_splits option.splits dest: read_lengths)
next
  case (6 f d s)
  then show ?case
    by (fastforce split: if_splits option.splits dest: read_lengths)
qed auto

text \<open>
  Twice the length of the input is enough fuel: with more of it the reader returns the same.
\<close>

lemma read_values_fuel:
  "2 * length s < f \<Longrightarrow> 2 * length s < g \<Longrightarrow> read_value f d s = read_value g d s"
  "2 * length s + 1 < f \<Longrightarrow> 2 * length s + 1 < g \<Longrightarrow> read_elems f d s = read_elems g d s"
  "2 * length s + 1 < f \<Longrightarrow> 2 * length s + 1 < g \<Longrightarrow> read_members f d s = read_members g d s"
proof (induction f d s and f d s and f d s arbitrary: g and g and g
    rule: read_value_read_elems_read_members.induct)
  case (2 f d s)
  obtain g' where g: "g = Suc g'" using "2.prems"(2) by (cases g) auto
  show ?case
  proof (cases s)
    case (Cons c t)
    have len: "2 * length r + 1 < f \<and> 2 * length r + 1 < g'"
      if "open_body cl t = Some (b, r)" for cl b r
      using open_body_length[OF that] "2.prems" g Cons by simp
    have m: "read_members f (Suc d) r = read_members g' (Suc d) r"
      if "c = CHR ''{''" "\<not> max_depth \<le> d" "open_body CHR ''}'' t = Some (False, r)" for r
      using "2.IH"(1)[OF Cons that(1,2,3) refl] len[OF that(3)] by simp
    have e: "read_elems f (Suc d) r = read_elems g' (Suc d) r"
      if "c = CHR ''[''" "\<not> max_depth \<le> d" "open_body CHR '']'' t = Some (False, r)" for r
      using "2.IH"(2)[OF Cons _ that(1,2,3) refl] that(1) len[OF that(3)] by simp
    consider "c = CHR ''{''" | "c = CHR ''[''" | "c \<noteq> CHR ''{''" "c \<noteq> CHR ''[''" by blast
    then show ?thesis
    proof cases
      case 1
      then show ?thesis
      proof (cases "open_body CHR ''}'' t")
        case (Some p)
        with 1 m[OF 1] show ?thesis by (cases p) (auto simp: g Cons)
      qed (simp add: g Cons)
    next
      case 2
      then show ?thesis
      proof (cases "open_body CHR '']'' t")
        case (Some p)
        with 2 e[OF 2] show ?thesis by (cases p) (auto simp: g Cons)
      qed (simp add: g Cons)
    qed (simp add: g Cons)
  qed (simp add: g)
next
  case (4 f d s)
  obtain g' where g: "g = Suc g'" using "4.prems"(2) by (cases g) auto
  have v: "read_value f d s = read_value g' d s"
    by (rule "4.IH"(1)) (use "4.prems" g in simp_all)
  have e: "read_elems f d r1 = read_elems g' d r1"
    if "read_value f d s = Some (v, r)" "item_end CHR '']'' r = Some (False, r1)" for v r r1
    using "4.IH"(2)[OF that(1) refl that(2) refl] "4.prems" g
      read_values_length(1)[OF that(1)] item_end_length[OF that(2)] by simp
  show ?case
  proof (cases "read_value f d s")
    case None
    then show ?thesis using v by (simp add: g)
  next
    case (Some p)
    obtain w r where p: "p = (w, r)" by (cases p)
    show ?thesis
    proof (cases "item_end CHR '']'' r")
      case None
      then show ?thesis using Some p v by (simp add: g)
    next
      case (Some q)
      obtain b r1 where q: "q = (b, r1)" by (cases q)
      show ?thesis
        using e[of w r r1] \<open>read_value f d s = Some p\<close> Some p q v by (cases b) (simp_all add: g)
    qed
  qed
next
  case (6 f d s)
  obtain g' where g: "g = Suc g'" using "6.prems"(2) by (cases g) auto
  have v: "read_value f d r = read_value g' d r" if "member_key s = Some (k, r)" for k r
    by (rule "6.IH"(1)[OF that refl]) (use "6.prems" g member_key_length[OF that] in simp_all)
  have m: "read_members f d r1 = read_members g' d r1"
    if "member_key s = Some (k, r0)" "read_value f d r0 = Some (v, r)"
       "item_end CHR ''}'' r = Some (False, r1)" for k r0 v r r1
    using "6.IH"(2)[OF that(1) refl that(2) refl that(3) refl] "6.prems" g member_key_length[OF that(1)]
      read_values_length(1)[OF that(2)] item_end_length[OF that(3)] by simp
  show ?case
  proof (cases "member_key s")
    case None
    then show ?thesis by (simp add: g)
  next
    case (Some p)
    obtain k r0 where p: "p = (k, r0)" by (cases p)
    note k = Some [unfolded p]
    show ?thesis
    proof (cases "read_value f d r0")
      case None
      then show ?thesis using k v[OF k] by (simp add: g)
    next
      case (Some q)
      obtain w r where q: "q = (w, r)" by (cases q)
      note w = Some [unfolded q]
      show ?thesis
      proof (cases "item_end CHR ''}'' r")
        case None
        then show ?thesis using k w v[OF k] by (simp add: g)
      next
        case (Some u)
        obtain b r1 where u: "u = (b, r1)" by (cases u)
        show ?thesis
          using m[OF k w, of r1] k w v[OF k] Some u by (cases b) (simp_all add: g)
      qed
    qed
  qed
qed auto

lemma read_value_fuel: "2 * length s < f \<Longrightarrow> read_value f d s = read_value (2 * length s + 2) d s"
  by (rule read_values_fuel(1)) auto

end
