(* ===== verification/Go_Json_Decode.thy ===== *)
theory Go_Json_Decode
  imports Go_Json
begin

text \<open>
  The typed half of \<^verbatim>\<open>encoding/json\<close> decoding. A decoder takes the raw text and the value
  read from it, and updates the Go value it decodes into together with the first error saved so
  far: like \<^verbatim>\<open>decodeState\<close>, it goes on after a type mismatch or an unknown field, so a
  caller that ignores the error (as \<^verbatim>\<open>normalizeResponse\<close> does) sees the partly filled
  value. Struct fields are matched exactly first and then case-insensitively. A slice keeps the
  stale cells beyond its length, because a repeated key decodes into the same backing array.
\<close>

datatype json_error =
    Syntax_Error
  | Unknown_Field string
  | Type_Mismatch

type_synonym 'a decoding = "'a \<times> json_error option"
type_synonym 'a decoder = "string \<Rightarrow> json \<Rightarrow> 'a decoding \<Rightarrow> 'a decoding"

definition save_error :: "json_error \<Rightarrow> 'a decoding \<Rightarrow> 'a decoding" where
  [go_defs]: "save_error e st = (case snd st of None \<Rightarrow> (fst st, Some e) | Some _ \<Rightarrow> st)"

subsection \<open>Scalars\<close>

definition dec_string :: "string decoder" where
  [go_defs]: "dec_string raw v st =
     (case v of JStr s \<Rightarrow> (s, snd st) | JNull \<Rightarrow> st | _ \<Rightarrow> save_error Type_Mismatch st)"

definition dec_bool :: "bool decoder" where
  [go_defs]: "dec_bool raw v st =
     (case v of JBool b \<Rightarrow> (b, snd st) | JNull \<Rightarrow> st | _ \<Rightarrow> save_error Type_Mismatch st)"

definition dec_int :: "int decoder" where
  [go_defs]: "dec_int raw v st =
     (case v of
        JNum lit \<Rightarrow> (case parse_int64 lit of Some n \<Rightarrow> (n, snd st)
                                     | None \<Rightarrow> save_error Type_Mismatch st)
      | JNull \<Rightarrow> st
      | _ \<Rightarrow> save_error Type_Mismatch st)"

text \<open>\<^verbatim>\<open>json.RawMessage\<close>: a copy of the raw text, also for \<^verbatim>\<open>null\<close>.\<close>

definition dec_raw :: "raw_message decoder" where
  [go_defs]: "dec_raw raw v st = (Some raw, snd st)"

subsection \<open>Structs\<close>

text \<open>
  \<^verbatim>\<open>foldName\<close>: ASCII letters are upper-cased; the two non-ASCII runes whose simple folding
  orbit holds an ASCII letter, U+017F and U+212A, become S and K. Field names are ASCII, so
  no other rune can make a key match.
\<close>

fun fold_name :: "string \<Rightarrow> string" where
  "fold_name [] = []"
| "fold_name (a # b # c # r) =
     (if byte a = 226 \<and> byte b = 132 \<and> byte c = 170 then CHR ''K'' # fold_name r
      else if byte a = 197 \<and> byte b = 191 then CHR ''S'' # fold_name (c # r)
      else to_upper_ascii a # fold_name (b # c # r))"
| "fold_name [a, b] =
     (if byte a = 197 \<and> byte b = 191 then [CHR ''S''] else [to_upper_ascii a, to_upper_ascii b])"
| "fold_name [a] = [to_upper_ascii a]"

type_synonym 'a field_table = "(string \<times> 'a decoder) list"

definition find_field :: "'a field_table \<Rightarrow> string \<Rightarrow> 'a decoder option" where
  [go_defs]: "find_field fs k =
     (case map_of fs k of Some u \<Rightarrow> Some u
      | None \<Rightarrow> map_of (map (\<lambda>(n, u). (fold_name n, u)) fs) (fold_name k))"

text \<open>A decoder for one field of a record, from its selector and its update.\<close>

definition at_field ::
  "('r \<Rightarrow> 'a) \<Rightarrow> (('a \<Rightarrow> 'a) \<Rightarrow> 'r \<Rightarrow> 'r) \<Rightarrow> 'a decoder \<Rightarrow> 'r decoder" where
  [go_defs]: "at_field get upd dec raw v st =
     (let (x, e) = dec raw v (get (fst st), snd st) in (upd (\<lambda>_. x) (fst st), e))"

definition dec_member :: "bool \<Rightarrow> 'a field_table \<Rightarrow> string \<times> string \<times> json \<Rightarrow> 'a decoding \<Rightarrow> 'a decoding"
  where
  [go_defs]: "dec_member strict fs m st =
     (case find_field fs (fst m) of
        Some dec \<Rightarrow> dec (fst (snd m)) (snd (snd m)) st
      | None \<Rightarrow> if strict then save_error (Unknown_Field (fst m)) st else st)"

definition dec_struct :: "bool \<Rightarrow> 'a field_table \<Rightarrow> 'a decoder" where
  [go_defs]: "dec_struct strict fs raw v st =
     (case v of
        JObj ms \<Rightarrow> fold (dec_member strict fs) ms st
      | JNull \<Rightarrow> st
      | _ \<Rightarrow> save_error Type_Mismatch st)"

subsection \<open>Slices and maps\<close>

datatype 'a slice = Nil_Slice | Slice "'a list" "'a list"

fun slice_elems :: "'a slice \<Rightarrow> 'a list" where
  "slice_elems Nil_Slice = []"
| "slice_elems (Slice xs stale) = xs"

fun slice_cells :: "'a slice \<Rightarrow> 'a list" where
  "slice_cells Nil_Slice = []"
| "slice_cells (Slice xs stale) = xs @ stale"

fun dec_elems ::
  "'a decoder \<Rightarrow> 'a \<Rightarrow> (string \<times> json) list \<Rightarrow> 'a list \<Rightarrow> json_error option
     \<Rightarrow> 'a list \<times> 'a list \<times> json_error option" where
  "dec_elems dec zero [] cells e = ([], cells, e)"
| "dec_elems dec zero ((raw, v) # vs) cells e =
     (let (x, e1) = dec raw v (case cells of [] \<Rightarrow> zero | c # _ \<Rightarrow> c, e);
          (xs, stale, e2) = dec_elems dec zero vs (drop 1 cells) e1
      in (x # xs, stale, e2))"

definition dec_slice :: "'a decoder \<Rightarrow> 'a \<Rightarrow> 'a slice decoder" where
  [go_defs]: "dec_slice dec zero raw v st =
     (case v of
        JArr vs \<Rightarrow>
          (let (xs, stale, e) = dec_elems dec zero vs (slice_cells (fst st)) (snd st)
           in (if vs = [] then Slice [] [] else Slice xs stale, e))
      | JNull \<Rightarrow> (Nil_Slice, snd st)
      | _ \<Rightarrow> save_error Type_Mismatch st)"

definition dec_entry ::
  "'v decoder \<Rightarrow> 'v \<Rightarrow> string \<times> string \<times> json \<Rightarrow> 'v go_map decoding \<Rightarrow> 'v go_map decoding" where
  [go_defs]: "dec_entry dec zero m st =
     (let (x, e) = dec (fst (snd m)) (snd (snd m)) (zero, snd st)
      in (AList.update (fst m) x (fst st), e))"

definition dec_map :: "'v decoder \<Rightarrow> 'v \<Rightarrow> 'v go_map option decoder" where
  [go_defs]: "dec_map dec zero raw v st =
     (case v of
        JObj ms \<Rightarrow>
          (let (m, e) = fold (dec_entry dec zero) ms
                          (case fst st of None \<Rightarrow> [] | Some m \<Rightarrow> m, snd st)
           in (Some m, e))
      | JNull \<Rightarrow> (None, snd st)
      | _ \<Rightarrow> save_error Type_Mismatch st)"

subsection \<open>Entry points\<close>

text \<open>
  \<^verbatim>\<open>json.Unmarshal\<close>: the whole input is checked first; on a syntax error the target is
  untouched.
\<close>

definition unmarshal :: "'a decoder \<Rightarrow> string \<Rightarrow> 'a \<Rightarrow> 'a decoding" where
  [go_defs]: "unmarshal dec s x =
     (case read_document s of None \<Rightarrow> (x, Some Syntax_Error) | Some v \<Rightarrow> dec s v (x, None))"

text \<open>
  \<^verbatim>\<open>Decoder.Decode\<close> followed by \<^verbatim>\<open>Decoder.More\<close>: the decoded value, the error, and
  whether another element is in sight. \<^verbatim>\<open>More\<close> is false at the end of the input and also
  before a closing bracket or brace.
\<close>

definition more_input :: "string \<Rightarrow> bool" where
  [go_defs]: "more_input r =
     (case skip_ws r of [] \<Rightarrow> False | c # _ \<Rightarrow> c \<noteq> CHR '']'' \<and> c \<noteq> CHR ''}'')"

definition decode_stream :: "'a decoder \<Rightarrow> string \<Rightarrow> 'a \<Rightarrow> 'a decoding \<times> bool" where
  [go_defs]: "decode_stream dec s x =
     (case read_first s of
        None \<Rightarrow> ((x, Some Syntax_Error), False)
      | Some (v, r) \<Rightarrow> (dec (raw_slice (skip_ws s) r) v (x, None), more_input r))"

subsection \<open>Errors stay saved\<close>

text \<open>
  The laws every decoder keeps: a saved error is never lost or replaced. The combinators
  preserve the law, so a decoder built from them has it.
\<close>

locale error_keeping =
  fixes dec :: "'a decoder"
  assumes keeps: "snd st = Some e \<Longrightarrow> snd (dec raw v st) = Some e"
begin

lemma clean_before: "snd (dec raw v st) = None \<Longrightarrow> snd st = None"
  using keeps by (cases "snd st") auto

lemma elems_keep: "snd (snd (dec_elems dec zero vs cells (Some e))) = Some e"
proof (induction vs arbitrary: cells)
  case Nil
  then show ?case by simp
next
  case (Cons rv vs)
  obtain raw v where rv: "rv = (raw, v)" by (cases rv)
  define old where "old = (case cells of [] \<Rightarrow> zero | c # _ \<Rightarrow> c)"
  obtain x e1 where d: "dec raw v (old, Some e) = (x, e1)" by (cases "dec raw v (old, Some e)")
  have "e1 = Some e" using keeps[of "(old, Some e)" e raw v] d by simp
  with Cons.IH[of "drop 1 cells"] show ?case
    using d by (simp add: rv old_def[symmetric] split: prod.split) (metis snd_conv)
qed

lemma slice_keeps: "snd st = Some e \<Longrightarrow> snd (dec_slice dec zero raw v st) = Some e"
  using elems_keep[of zero _ "slice_cells (fst st)" e]
  by (auto simp: dec_slice_def save_error_def split: json.split prod.split)
     (metis snd_conv)

lemma entries_keep: "snd st = Some e \<Longrightarrow> snd (fold (dec_entry dec zero) ms st) = Some e"
proof (induction ms arbitrary: st)
  case Nil
  then show ?case by simp
next
  case (Cons m ms)
  have "snd (dec_entry dec zero m st) = Some e"
    using keeps[of "(zero, snd st)" e] Cons.prems
    by (simp add: dec_entry_def split: prod.split) (metis snd_conv)
  then show ?case using Cons.IH by simp
qed

lemma map_keeps: "snd st = Some e \<Longrightarrow> snd (dec_map dec zero raw v st) = Some e"
  using entries_keep[of "(case fst st of None \<Rightarrow> [] | Some m \<Rightarrow> m, snd st)" e zero]
  by (auto simp: dec_map_def save_error_def split: json.split prod.split)
     (metis snd_conv)

lemma field_keeps: "snd st = Some e \<Longrightarrow> snd (at_field get upd dec raw v st) = Some e"
  using keeps[of "(get (fst st), snd st)" e raw v]
  by (simp add: at_field_def split: prod.split) (metis snd_conv)

end

lemma save_error_keeps: "snd st = Some e \<Longrightarrow> snd (save_error x st) = Some e"
  by (simp add: save_error_def)

interpretation dec_string: error_keeping dec_string
  by unfold_locales (auto simp: dec_string_def save_error_def split: json.split)

interpretation dec_bool: error_keeping dec_bool
  by unfold_locales (auto simp: dec_bool_def save_error_def split: json.split)

interpretation dec_int: error_keeping dec_int
  by unfold_locales (auto simp: dec_int_def save_error_def split: json.split option.split)

interpretation dec_raw: error_keeping dec_raw
  by unfold_locales (auto simp: dec_raw_def)

lemma find_field_mem: "find_field fs k = Some d \<Longrightarrow> d \<in> snd ` set fs"
  by (force simp: find_field_def split: option.splits dest!: map_of_SomeD)

lemma struct_keeps:
  assumes "\<And>d. d \<in> snd ` set fs \<Longrightarrow> error_keeping d" and "snd st = Some e"
  shows "snd (dec_struct strict fs raw v st) = Some e"
proof -
  have m: "snd (dec_member strict fs m t) = Some e" if "snd t = Some e" for m t
    using that error_keeping.keeps[OF assms(1)[OF find_field_mem]]
    by (auto simp: dec_member_def save_error_keeps split: option.split)
  have "snd (fold (dec_member strict fs) ms t) = Some e" if "snd t = Some e" for ms t
    using that by (induction ms arbitrary: t) (auto simp: m)
  with assms(2) show ?thesis
    by (auto simp: dec_struct_def save_error_keeps split: json.split)
qed

lemma unmarshal_syntax: "read_document s = None \<Longrightarrow> unmarshal dec s x = (x, Some Syntax_Error)"
  by (simp add: unmarshal_def)

lemma decode_stream_ok:
  "decode_stream dec s x = ((y, None), more) \<Longrightarrow>
     \<exists>v r. read_first s = Some (v, r) \<and> dec (raw_slice (skip_ws s) r) v (x, None) = (y, None)
       \<and> more = more_input r"
  by (auto simp: decode_stream_def split: option.splits)

end
