(* ===== verification/Go_Json_Encode.thy ===== *)
theory Go_Json_Encode
  imports Go_Json
begin

text \<open>
  \<^verbatim>\<open>json.Marshal\<close> for the shapes the agent marshals: strings (with the HTML-safe escapes
  of the default encoder), integers, booleans, structs, string maps with sorted keys, slices,
  and \<^verbatim>\<open>json.RawMessage\<close> members, which are checked and compacted. The lemmas show that
  what is written is read back by the reader of \<open>Go_Json\<close>: \<open>reads_as t v\<close> says that the text
  \<open>t\<close>, followed by a delimiter, is read as the value \<open>v\<close>.
\<close>

subsection \<open>Strings\<close>

definition hex_digit :: "nat \<Rightarrow> char" where
  [go_defs]: "hex_digit n = (if n < 10 then char_of (48 + n) else char_of (87 + n))"

definition u_escape :: "nat \<Rightarrow> string" where
  [go_defs]: "u_escape u =
     [CHR 0x5C, CHR ''u'', hex_digit (u div 4096 mod 16), hex_digit (u div 256 mod 16),
      hex_digit (u div 16 mod 16), hex_digit (u mod 16)]"

definition is_html_char :: "char \<Rightarrow> bool" where
  [go_defs]: "is_html_char c \<longleftrightarrow> c = CHR ''<'' \<or> c = CHR ''>'' \<or> c = CHR ''&''"

definition enc_ascii :: "char \<Rightarrow> string" where
  [go_defs]: "enc_ascii c =
     (if c = CHR 0x22 \<or> c = CHR 0x5C then [CHR 0x5C, c]
      else if byte c = 8 then [CHR 0x5C, CHR ''b'']
      else if byte c = 12 then [CHR 0x5C, CHR ''f'']
      else if byte c = 10 then [CHR 0x5C, CHR ''n'']
      else if byte c = 13 then [CHR 0x5C, CHR ''r'']
      else if byte c = 9 then [CHR 0x5C, CHR ''t'']
      else if byte c < 32 \<or> is_html_char c then u_escape (byte c)
      else [c])"

definition enc_wide :: "string \<Rightarrow> string" where
  [go_defs]: "enc_wide p =
     (if p = encode_rune 8232 then u_escape 8232
      else if p = encode_rune 8233 then u_escape 8233
      else p)"

function enc_chars :: "string \<Rightarrow> string" where
  "enc_chars [] = []"
| "enc_chars (c # s) =
     (if byte c < 128 then enc_ascii c @ enc_chars s
      else let n = rune_len c s in
           if n = 0 then u_escape 65533 @ enc_chars s
           else enc_wide (c # take (n - 1) s) @ enc_chars (drop (n - 1) s))"
  by pat_completeness auto
termination by (relation "measure length") auto

definition enc_string :: "string \<Rightarrow> string" where
  [go_defs]: "enc_string s = CHR 0x22 # enc_chars s @ [CHR 0x22]"

lemma hex_val_hex_digit [simp]: "n < 16 \<Longrightarrow> hex_val (hex_digit n) = Some n"
  by (auto simp: hex_val_def hex_digit_def is_digit_def)

lemma read_hex4_digits:
  "u < 65536 \<Longrightarrow>
     read_hex4 (hex_digit (u div 4096 mod 16) # hex_digit (u div 256 mod 16)
       # hex_digit (u div 16 mod 16) # hex_digit (u mod 16) # r) = Some (u, r)"
proof -
  assume u: "u < 65536"
  have "u div 16 = 16 * (u div 256) + u div 16 mod 16"
    using mult_div_mod_eq[of 16 "u div 16"] by (simp add: div_mult2_eq[symmetric])
  moreover have "u div 256 = 16 * (u div 4096) + u div 256 mod 16"
    using mult_div_mod_eq[of 16 "u div 256"] by (simp add: div_mult2_eq[symmetric])
  moreover have "u div 4096 mod 16 = u div 4096" using u by simp
  moreover have "u = 16 * (u div 16) + u mod 16" by simp
  ultimately have "4096 * (u div 4096 mod 16) + 256 * (u div 256 mod 16) + 16 * (u div 16 mod 16)
      + u mod 16 = u"
    by linarith
  with u show ?thesis by (simp add: read_hex4_def)
qed

lemma read_string_u_escape:
  assumes "u < 65536" and "\<not> is_surrogate u"
  shows "read_string (u_escape u @ t) = push (encode_rune u) (read_string t)"
  using assms(2) read_hex4_digits[OF assms(1), of t] by (simp add: u_escape_def)

lemma read_string_enc_ascii:
  assumes "byte c < 128"
  shows "read_string (enc_ascii c @ t) = push [c] (read_string t)"
proof (cases "c \<in> {CHR 0x22, CHR 0x5C, CHR 0x08, CHR 0x0C, CHR 0x0A, CHR 0x0D, CHR 0x09}")
  case True
  then consider "c = CHR 0x22" | "c = CHR 0x5C" | "c = CHR 0x08" | "c = CHR 0x0C" | "c = CHR 0x0A"
    | "c = CHR 0x0D" | "c = CHR 0x09"
    by fastforce
  then show ?thesis
    by cases (simp_all add: enc_ascii_def simple_escape_def)
next
  case False
  then have n: "c \<noteq> CHR 0x22" "c \<noteq> CHR 0x5C" "byte c \<noteq> 8" "byte c \<noteq> 12" "byte c \<noteq> 10" "byte c \<noteq> 13"
    "byte c \<noteq> 9"
    by (simp_all add: char_eq_byte)
  show ?thesis
  proof (cases "byte c < 32 \<or> is_html_char c")
    case True
    with n have "enc_ascii c = u_escape (byte c)" by (simp add: enc_ascii_def)
    then show ?thesis
      using assms by (simp add: read_string_u_escape is_surrogate_def encode_rune_def)
  next
    case False
    with n have "enc_ascii c = [c]" by (simp add: enc_ascii_def)
    then show ?thesis using assms n False by simp
  qed
qed

lemma encode_rune_fffd: "encode_rune 65533 = replacement_char"
  by (simp add: encode_rune_def replacement_char_def)

text \<open>What the encoder writes between the quotes is read back, with invalid bytes replaced.\<close>

lemma read_string_enc_chars: "read_string (enc_chars s @ CHR 0x22 # r) = Some (to_valid s, r)"
proof (induction s rule: enc_chars.induct)
  case 1
  then show ?case by simp
next
  case (2 c s)
  let ?n = "rune_len c s"
  consider "byte c < 128" | "128 \<le> byte c" "?n = 0" | "128 \<le> byte c" "?n \<noteq> 0" by linarith
  then show ?case
  proof cases
    case 1
    with 2 show ?thesis by (simp add: read_string_enc_ascii)
  next
    case 2
    with "2.IH" show ?thesis
      by (simp add: read_string_u_escape is_surrogate_def encode_rune_fffd)
  next
    case 3
    then have IH: "read_string (enc_chars (drop (?n - 1) s) @ CHR 0x22 # r)
        = Some (to_valid (drop (?n - 1) s), r)"
      using "2.IH"(3) by (simp add: Let_def)
    let ?p = "c # take (?n - 1) s"
    have plain: "read_string (?p @ t) = push ?p (read_string t)" for t
    proof -
      have l: "length (take (?n - 1) s) = ?n - 1" using rune_len_bound[of c s] by simp
      have "c \<noteq> CHR 0x22" "c \<noteq> CHR 0x5C" using 3(1) by auto
      then show ?thesis using 3 l rune_len_local[OF 3(2), of t] by (simp add: Let_def)
    qed
    have wide: "read_string (enc_wide ?p @ t) = push ?p (read_string t)" for t
      using plain by (simp add: enc_wide_def read_string_u_escape is_surrogate_def)
    from 3 IH wide show ?thesis by (simp add: Let_def)
  qed
qed

subsection \<open>Containers and scalars\<close>

text \<open>Members and elements are given with their encoded values.\<close>

definition enc_member :: "string \<times> string \<Rightarrow> string" where
  [go_defs]: "enc_member m = enc_string (fst m) @ CHR '':'' # snd m"

definition enc_object :: "(string \<times> string) list \<Rightarrow> string" where
  [go_defs]: "enc_object ms = CHR ''{'' # join_with '','' (map enc_member ms) @ [CHR ''}'']"

definition enc_array :: "string list \<Rightarrow> string" where
  [go_defs]: "enc_array es = CHR ''['' # join_with '','' es @ [CHR '']'']"

definition enc_bool :: "bool \<Rightarrow> string" where
  [go_defs]: "enc_bool b = (if b then ''true'' else ''false'')"

text \<open>Maps are written with their keys in byte order.\<close>

definition enc_map :: "('v \<Rightarrow> string) \<Rightarrow> 'v go_map \<Rightarrow> string" where
  [go_defs]: "enc_map enc m = enc_object (map (\<lambda>(k, v). (k, enc v)) (sort_key fst m))"

subsection \<open>Raw messages\<close>

definition html_escape :: "char \<Rightarrow> string" where
  [go_defs]: "html_escape c = (if is_html_char c then u_escape (byte c) else [c])"

fun compact :: "bool \<Rightarrow> string \<Rightarrow> string" where
  "compact b [] = []"
| "compact False (c # s) = (if is_ws c then compact False s else c # compact (c = CHR 0x22) s)"
| "compact True (c # s) =
     (if c = CHR 0x5C then (case s of [] \<Rightarrow> [c] | d # r \<Rightarrow> c # d # compact True r)
      else if c = CHR 0x22 then c # compact False s
      else if take 2 s = map char_of [128, 168 :: nat] \<and> byte c = 226
        then u_escape 8232 @ compact True (drop 2 s)
      else if take 2 s = map char_of [128, 169 :: nat] \<and> byte c = 226
        then u_escape 8233 @ compact True (drop 2 s)
      else html_escape c @ compact True s)"

text \<open>
  A nil message is written as \<^verbatim>\<open>null\<close>; any other must be one JSON document. \<open>None\<close> is
  the marshalling error (an empty, non-nil message is one).
\<close>

definition enc_raw :: "raw_message \<Rightarrow> string option" where
  [go_defs]: "enc_raw m =
     (case m of None \<Rightarrow> Some ''null''
      | Some b \<Rightarrow> (case read_document b of None \<Rightarrow> None | Some _ \<Rightarrow> Some (compact False b)))"

subsection \<open>Reading back what was written\<close>

definition delimited :: "string \<Rightarrow> bool" where
  "delimited r \<longleftrightarrow> (case r of [] \<Rightarrow> True | c # _ \<Rightarrow> c = CHR '','' \<or> c = CHR ''}'' \<or> c = CHR '']'')"

fun json_depth :: "json \<Rightarrow> nat" where
  "json_depth (JArr es) = Suc (fold max (map (json_depth \<circ> snd) es) 0)"
| "json_depth (JObj ms) = Suc (fold max (map (json_depth \<circ> snd \<circ> snd) ms) 0)"
| "json_depth _ = 0"

definition reads_as :: "string \<Rightarrow> json \<Rightarrow> nat \<Rightarrow> bool" where
  "reads_as t v h \<longleftrightarrow> t \<noteq> [] \<and> \<not> is_ws (hd t) \<and> hd t \<noteq> CHR '']'' \<and> hd t \<noteq> CHR ''}'' \<and>
     (\<forall>f d r. 2 * length t < f \<longrightarrow> d + h \<le> max_depth \<longrightarrow> delimited r \<longrightarrow>
        read_value f d (t @ r) = Some (v, r))"

lemma reads_asD:
  "reads_as t v h \<Longrightarrow> 2 * length t < f \<Longrightarrow> d + h \<le> max_depth \<Longrightarrow> delimited r \<Longrightarrow>
     read_value f d (t @ r) = Some (v, r)"
  by (simp add: reads_as_def)

lemma reads_as_mono: "reads_as t v h \<Longrightarrow> h \<le> h' \<Longrightarrow> reads_as t v h'"
  by (simp add: reads_as_def)

lemma reads_as_enc_string: "reads_as (enc_string s) (JStr (to_valid s)) 0"
  unfolding reads_as_def
proof (intro conjI allI impI)
  fix f d :: nat and r
  assume "2 * length (enc_string s) < f"
  then obtain f' where "f = Suc f'" by (cases f) auto
  then show "read_value f d (enc_string s @ r) = Some (JStr (to_valid s), r)"
    by (simp add: enc_string_def read_scalar_def read_string_enc_chars)
qed (simp_all add: enc_string_def is_ws_def)

lemma reads_as_enc_bool: "reads_as (enc_bool b) (JBool b) 0"
  unfolding reads_as_def
proof (intro conjI allI impI)
  fix f d :: nat and r
  assume "2 * length (enc_bool b) < f"
  then obtain f' where "f = Suc f'" by (cases f) auto
  then show "read_value f d (enc_bool b @ r) = Some (JBool b, r)"
    by (simp add: enc_bool_def read_scalar_def read_literal_def has_prefix_def)
qed (simp_all add: enc_bool_def is_ws_def)

lemma reads_as_null: "reads_as ''null'' JNull 0"
  unfolding reads_as_def
proof (intro conjI allI impI)
  fix f d :: nat and r
  assume "2 * length ''null'' < f"
  then obtain f' where "f = Suc f'" by (cases f) auto
  then show "read_value f d (''null'' @ r) = Some (JNull, r)"
    by (simp add: read_scalar_def read_literal_def has_prefix_def)
qed (simp_all add: is_ws_def)

lemma raw_slice_append [simp]: "raw_slice (t @ r) r = t"
  by (simp add: raw_slice_def)

lemma skip_ws_hd: "t \<noteq> [] \<Longrightarrow> \<not> is_ws (hd t) \<Longrightarrow> skip_ws (t @ r) = t @ r"
  by (cases t) (simp_all add: skip_ws_def)

lemma nat_digits_hd_nonzero: "0 < n \<Longrightarrow> hd (nat_digits n) \<noteq> CHR ''0''"
proof (induction n rule: nat_digits.induct)
  case (1 n)
  show ?case
  proof (cases "n < 10")
    case True
    with 1 show ?thesis by (simp add: char_eq_byte)
  next
    case False
    then have "0 < n div 10" by simp
    with 1 False show ?thesis by simp
  qed
qed

lemma read_frac_delimited: "delimited r \<Longrightarrow> read_frac acc r = Some (acc, r)"
  by (auto simp: read_frac_def read_exp_def delimited_def split: list.splits)

lemma takeWhile_digits:
  assumes "list_all is_digit ds" and "delimited r"
  shows "takeWhile is_digit (ds @ r) = ds" and "dropWhile is_digit (ds @ r) = r"
proof -
  have "\<not> is_digit c" if "r = c # r'" for c r'
    using assms(2) that by (auto simp: delimited_def is_digit_def)
  then have "takeWhile is_digit r = []" "dropWhile is_digit r = r" by (cases r; simp)+
  with assms(1) show "takeWhile is_digit (ds @ r) = ds" "dropWhile is_digit (ds @ r) = r"
    by (auto simp: list_all_iff)
qed

lemma read_number_digits:
  assumes "delimited r"
  shows "read_number (nat_digits n @ r) = Some (nat_digits n, r)"
    and "read_number (CHR ''-'' # nat_digits n @ r) = Some (CHR ''-'' # nat_digits n, r)"
proof -
  obtain c t where ct: "nat_digits n = c # t" and c: "is_digit c" using nat_digits_hd by blast
  have m: "c \<noteq> CHR ''-''" using c by (auto simp: is_digit_def)
  have tw: "takeWhile is_digit (c # t @ r) = c # t" "dropWhile is_digit (c # t @ r) = r"
    using takeWhile_digits[OF nat_digits_digits[of n] assms] ct by simp_all
  have z: "t = []" if "c = CHR ''0''"
  proof (cases "n = 0")
    case True
    with ct show ?thesis by simp
  next
    case False
    with nat_digits_hd_nonzero[of n] ct that show ?thesis by simp
  qed
  show "read_number (nat_digits n @ r) = Some (nat_digits n, r)"
    using ct c m tw z assms by (auto simp: read_number_def read_frac_delimited)
  show "read_number (CHR ''-'' # nat_digits n @ r) = Some (CHR ''-'' # nat_digits n, r)"
    using ct c m tw z assms by (auto simp: read_number_def read_frac_delimited)
qed

lemma read_number_itoa: "delimited r \<Longrightarrow> read_number (itoa n @ r) = Some (itoa n, r)"
  by (simp add: itoa_def read_number_digits)

lemma itoa_hd: "\<exists>c t. itoa n = c # t \<and> (is_digit c \<or> c = CHR ''-'')"
  using nat_digits_hd[of "nat n"] by (auto simp: itoa_def)

lemma reads_as_itoa: "reads_as (itoa n) (JNum (itoa n)) 0"
proof -
  obtain c t where ct: "itoa n = c # t" and c: "is_digit c \<or> c = CHR ''-''" using itoa_hd by blast
  have nc: "c \<notin> {CHR ''{'', CHR ''['', CHR 0x22, CHR ''t'', CHR ''f'', CHR ''n'', CHR '']'', CHR ''}''}"
    "\<not> is_ws c"
    using c by (auto simp: is_digit_def is_ws_def)
  have "read_value f d (itoa n @ r) = Some (JNum (itoa n), r)"
    if f: "2 * length (itoa n) < f" and r: "delimited r" for f d r
  proof -
    obtain f' where "f = Suc f'" using f by (cases f) auto
    then show ?thesis
      using read_number_itoa[OF r, of n] nc by (simp add: ct read_scalar_def)
  qed
  with nc ct show ?thesis by (simp add: reads_as_def)
qed

definition member_text :: "string \<times> string \<times> json \<Rightarrow> string \<times> string" where
  "member_text m = (fst m, fst (snd m))"

definition member_value :: "string \<times> string \<times> json \<Rightarrow> string \<times> string \<times> json" where
  "member_value m = (to_valid (fst m), snd m)"

lemma member_key_enc:
  assumes "t \<noteq> []" and "\<not> is_ws (hd t)"
  shows "member_key (enc_member (k, t) @ r) = Some (to_valid k, t @ r)"
  using assms skip_ws_hd[OF assms, of r]
  by (simp add: member_key_def enc_member_def enc_string_def read_string_enc_chars is_ws_def)

lemma enc_member_hd: "\<exists>t. enc_member m = CHR 0x22 # t"
  by (simp add: enc_member_def enc_string_def)

lemma read_members_join:
  assumes "ms \<noteq> []" and "\<And>m. m \<in> set ms \<Longrightarrow> reads_as (fst (snd m)) (snd (snd m)) h"
    and "2 * length (join_with '','' (map (enc_member \<circ> member_text) ms)) + 1 < f"
    and "d + h \<le> max_depth"
  shows "read_members f d (join_with '','' (map (enc_member \<circ> member_text) ms) @ CHR ''}'' # r)
    = Some (map member_value ms, r)"
  using assms
proof (induction ms arbitrary: f rule: induct_list012)
  case 1
  then show ?case by simp
next
  case (2 m)
  obtain k t v where m: "m = (k, t, v)" by (cases m)
  have R: "reads_as t v h" using "2.prems"(2)[of m] m by simp
  then have t: "t \<noteq> []" "\<not> is_ws (hd t)" by (simp_all add: reads_as_def)
  obtain f' where f: "f = Suc f'" using "2.prems"(3) by (cases f) auto
  have "2 * length t < f'" using "2.prems"(3) by (simp add: f m member_text_def enc_member_def)
  then have "read_value f' d (t @ CHR ''}'' # r) = Some (v, CHR ''}'' # r)"
    using reads_asD[OF R] "2.prems"(4) by (simp add: delimited_def)
  then show ?case
    using member_key_enc[OF t, of k "CHR ''}'' # r"]
    by (simp add: f m member_text_def member_value_def item_end_def is_ws_def)
next
  case (3 m m' ms)
  obtain k t v where m: "m = (k, t, v)" by (cases m)
  let ?J = "join_with '','' (map (enc_member \<circ> member_text) (m' # ms))"
  have R: "reads_as t v h" using "3.prems"(2)[of m] m by simp
  then have t: "t \<noteq> []" "\<not> is_ws (hd t)" by (simp_all add: reads_as_def)
  obtain f' where f: "f = Suc f'" using "3.prems"(3) by (cases f) auto
  have J: "join_with '','' (map (enc_member \<circ> member_text) (m # m' # ms))
      = enc_member (k, t) @ '','' @ ?J"
    by (simp add: m member_text_def)
  have l: "2 * length t < f'" "2 * length ?J + 1 < f'"
    using "3.prems"(3) unfolding J by (simp_all add: f enc_member_def del: list.map)
  have v: "read_value f' d (t @ CHR '','' # ?J @ CHR ''}'' # r)
      = Some (v, CHR '','' # ?J @ CHR ''}'' # r)"
    using reads_asD[OF R l(1)] "3.prems"(4) by (simp add: delimited_def)
  obtain u where "?J = CHR 0x22 # u"
    using enc_member_hd[of "member_text m'"] by (cases ms) auto
  then have ie: "item_end CHR ''}'' (CHR '','' # ?J @ CHR ''}'' # r) = Some (False, ?J @ CHR ''}'' # r)"
    by (simp add: item_end_def is_ws_def)
  have IH: "read_members f' d (?J @ CHR ''}'' # r) = Some (map member_value (m' # ms), r)"
    by (rule "3.IH"(2)[OF _ _ l(2) "3.prems"(4)]) (use "3.prems"(2) in auto)
  define K where "K = ?J"
  note K = K_def [symmetric]
  show ?case
    unfolding J f using member_key_enc[OF t, of k "CHR '','' # ?J @ CHR ''}'' # r"] v ie IH
    unfolding K by (simp add: m member_value_def)
qed

lemma reads_as_object:
  assumes "\<And>m. m \<in> set ms \<Longrightarrow> reads_as (fst (snd m)) (snd (snd m)) h"
  shows "reads_as (enc_object (map member_text ms)) (JObj (map member_value ms)) (Suc h)"
proof -
  have "read_value f d (enc_object (map member_text ms) @ r) = Some (JObj (map member_value ms), r)"
    if f: "2 * length (enc_object (map member_text ms)) < f" and d: "d + Suc h \<le> max_depth"
    for f d r
  proof -
    obtain f' where f': "f = Suc f'" using f by (cases f) auto
    show ?thesis
    proof (cases ms)
      case Nil
      then show ?thesis using d by (simp add: f' enc_object_def open_body_def is_ws_def)
    next
      case (Cons m ms')
      let ?J = "join_with '','' (map (enc_member \<circ> member_text) ms)"
      have "2 * length ?J + 1 < f'" using f by (simp add: f' enc_object_def)
      then have M: "read_members f' (Suc d) (?J @ CHR ''}'' # r) = Some (map member_value ms, r)"
        using read_members_join[of ms h f' "Suc d" r] assms Cons d by simp
      obtain u where "?J = CHR 0x22 # u"
        using enc_member_hd[of "member_text m"] Cons by (cases ms') auto
      then show ?thesis
        using M d by (simp add: f' enc_object_def open_body_def is_ws_def)
    qed
  qed
  then show ?thesis by (simp add: reads_as_def enc_object_def is_ws_def)
qed

text \<open>A document that is written is accepted whole.\<close>

lemma reads_as_document: "reads_as t v h \<Longrightarrow> h \<le> max_depth \<Longrightarrow> read_document t = Some v"
  using reads_asD[of t v h "2 * length t + 2" 0 "[]"] skip_ws_hd[of t "[]"]
  by (simp add: reads_as_def read_document_def read_first_def delimited_def skip_ws_def)

text \<open>Arrays, in the same way.\<close>

lemma read_elems_join:
  assumes "es \<noteq> []" and "\<And>e. e \<in> set es \<Longrightarrow> reads_as (fst e) (snd e) h"
    and "2 * length (join_with '','' (map fst es)) + 1 < f" and "d + h \<le> max_depth"
  shows "read_elems f d (join_with '','' (map fst es) @ CHR '']'' # r) = Some (es, r)"
  using assms
proof (induction es arbitrary: f rule: induct_list012)
  case 1
  then show ?case by simp
next
  case (2 e)
  obtain t v where e: "e = (t, v)" by (cases e)
  have R: "reads_as t v h" using "2.prems"(2)[of e] e by simp
  obtain f' where f: "f = Suc f'" using "2.prems"(3) by (cases f) auto
  have "2 * length t < f'" using "2.prems"(3) by (simp add: f e)
  then have "read_value f' d (t @ CHR '']'' # r) = Some (v, CHR '']'' # r)"
    using reads_asD[OF R] "2.prems"(4) by (simp add: delimited_def)
  then show ?case by (simp add: f e item_end_def is_ws_def)
next
  case (3 e e' es)
  obtain t v where e: "e = (t, v)" by (cases e)
  obtain t' v' where e': "e' = (t', v')" by (cases e')
  let ?J = "join_with '','' (map fst (e' # es))"
  have R: "reads_as t v h" using "3.prems"(2)[of e] e by simp
  have R': "reads_as t' v' h" using "3.prems"(2)[of e'] e' by simp
  obtain f' where f: "f = Suc f'" using "3.prems"(3) by (cases f) auto
  have l: "2 * length t < f'" "2 * length ?J + 1 < f'"
    using "3.prems"(3) by (simp_all add: f e del: list.map) auto
  have v: "read_value f' d (t @ CHR '','' # ?J @ CHR '']'' # r)
      = Some (v, CHR '','' # ?J @ CHR '']'' # r)"
    using reads_asD[OF R l(1)] "3.prems"(4) by (simp add: delimited_def)
  have "\<exists>u. ?J = t' @ u" by (cases es) (simp_all add: e')
  then obtain u where u: "?J = t' @ u" by blast
  have "skip_ws (?J @ CHR '']'' # r) = ?J @ CHR '']'' # r"
    unfolding u using R' skip_ws_hd[of t' "u @ CHR '']'' # r"] by (simp add: reads_as_def)
  then have ie: "item_end CHR '']'' (CHR '','' # ?J @ CHR '']'' # r) = Some (False, ?J @ CHR '']'' # r)"
    by (simp add: item_end_def is_ws_def)
  have IH: "read_elems f' d (?J @ CHR '']'' # r) = Some (e' # es, r)"
    by (rule "3.IH"(2)[OF _ _ l(2) "3.prems"(4)]) (use "3.prems"(2) in auto)
  define K where "K = ?J"
  have J: "join_with '','' (map fst (e # e' # es)) = t @ '','' @ K" by (simp add: e K_def)
  note K = K_def [symmetric]
  show ?case
    unfolding J f using v ie IH unfolding K by (simp add: e)
qed

lemma reads_as_array:
  assumes "\<And>e. e \<in> set es \<Longrightarrow> reads_as (fst e) (snd e) h"
  shows "reads_as (enc_array (map fst es)) (JArr es) (Suc h)"
proof -
  have "read_value f d (enc_array (map fst es) @ r) = Some (JArr es, r)"
    if f: "2 * length (enc_array (map fst es)) < f" and d: "d + Suc h \<le> max_depth" for f d r
  proof -
    obtain f' where f': "f = Suc f'" using f by (cases f) auto
    show ?thesis
    proof (cases es)
      case Nil
      then show ?thesis using d by (simp add: f' enc_array_def open_body_def is_ws_def)
    next
      case (Cons e es')
      let ?J = "join_with '','' (map fst es)"
      have "2 * length ?J + 1 < f'" using f by (simp add: f' enc_array_def)
      then have M: "read_elems f' (Suc d) (?J @ CHR '']'' # r) = Some (es, r)"
        using read_elems_join[of es h f' "Suc d" r] assms Cons d by simp
      have "reads_as (fst e) (snd e) h" using assms Cons by simp
      then obtain c t where c: "fst e = c # t" "\<not> is_ws c" "c \<noteq> CHR '']''"
        by (cases "fst e") (auto simp: reads_as_def)
      moreover have "\<exists>u. ?J = fst e @ u" using Cons by (cases es') simp_all
      ultimately obtain u where "?J = c # u" by auto
      then show ?thesis
        using M d c by (simp add: f' enc_array_def open_body_def)
    qed
  qed
  then show ?thesis by (simp add: reads_as_def enc_array_def is_ws_def)
qed

subsection \<open>What a text says\<close>

text \<open>
  \<open>says t v h\<close>: a reader of the text \<open>t\<close> finds the value \<open>v\<close>, of nesting at most \<open>h\<close>. The raw
  texts that \<^typ>\<open>json\<close> carries beside its values are left out (\<open>plain\<close>).
\<close>

function plain :: "json \<Rightarrow> json" where
  "plain (JObj ms) = JObj (map (\<lambda>m. (fst m, [], plain (snd (snd m)))) ms)"
| "plain (JArr es) = JArr (map (\<lambda>e. ([], plain (snd e))) es)"
| "plain JNull = JNull"
| "plain (JBool b) = JBool b"
| "plain (JNum n) = JNum n"
| "plain (JStr s) = JStr s"
  by pat_completeness auto
termination
proof (relation "measure size", goal_cases)
  case (2 ms m)
  obtain k r v where m: "m = (k, r, v)" by (cases m)
  show ?case using 2 size_list_estimation'[of m ms "size v" "size_prod (\<lambda>_. 0) (size_prod (\<lambda>_. 0) size)"]
    by (simp add: m)
next
  case (3 es e)
  obtain r v where e: "e = (r, v)" by (cases e)
  show ?case using 3 size_list_estimation'[of e es "size v" "size_prod (\<lambda>_. 0) size"]
    by (simp add: e)
qed simp

definition jobj :: "(string \<times> json) list \<Rightarrow> json" where
  "jobj ms = JObj (map (\<lambda>(k, v). (k, [], v)) ms)"

definition jarr :: "json list \<Rightarrow> json" where
  "jarr vs = JArr (map (\<lambda>v. ([], v)) vs)"

definition says :: "string \<Rightarrow> json \<Rightarrow> nat \<Rightarrow> bool" where
  "says t v h \<longleftrightarrow> (\<exists>v'. reads_as t v' h \<and> plain v' = v)"

lemma says_mono: "says t v h \<Longrightarrow> h \<le> h' \<Longrightarrow> says t v h'"
  by (auto simp: says_def intro: reads_as_mono)

lemma says_string: "says (enc_string s) (JStr (to_valid s)) h"
  using reads_as_mono[OF reads_as_enc_string] by (force simp: says_def)

lemma says_bool: "says (enc_bool b) (JBool b) h"
  using reads_as_mono[OF reads_as_enc_bool] by (force simp: says_def)

lemma says_int: "says (itoa n) (JNum (itoa n)) h"
  using reads_as_mono[OF reads_as_itoa] by (force simp: says_def)

lemma says_null: "says ''null'' JNull h"
  using reads_as_mono[OF reads_as_null] by (force simp: says_def)

lemma member_pair:
  "member_text (k, t, v) = (k, t)" "member_value (k, t, v) = (to_valid k, t, v)"
  by (simp_all add: member_text_def member_value_def)

text \<open>An object, member by member: the keys, the texts and the values.\<close>

lemma says_object:
  assumes "list_all2 (\<lambda>(k, t) (k', v). k' = to_valid k \<and> says t v h) ms vs"
  shows "says (enc_object ms) (jobj vs) (Suc h)"
proof -
  have "\<exists>ns. ms = map member_text ns \<and> map (\<lambda>m. (fst m, [] :: string, plain (snd (snd m)))) (map member_value ns)
      = map (\<lambda>(k, v). (k, [] :: string, v)) vs \<and> (\<forall>n \<in> set ns. reads_as (fst (snd n)) (snd (snd n)) h)"
    using assms
  proof (induction rule: list_all2_induct)
    case Nil
    show ?case by simp
  next
    case (Cons m ms v vs)
    obtain k t where m: "m = (k, t)" by (cases m)
    obtain k' w where v: "v = (k', w)" by (cases v)
    obtain w' where "reads_as t w' h" "plain w' = w" "k' = to_valid k"
      using Cons.hyps by (auto simp: m v says_def)
    moreover obtain ns where "ms = map member_text ns"
      "map (\<lambda>m. (fst m, [] :: string, plain (snd (snd m)))) (map member_value ns) = map (\<lambda>(k, v). (k, [] :: string, v)) vs"
      "\<forall>n \<in> set ns. reads_as (fst (snd n)) (snd (snd n)) h"
      using Cons.IH by blast
    ultimately show ?case
      by (intro exI[of _ "(k, t, w') # ns"]) (simp add: m v member_pair)
  qed
  then obtain ns where ns: "ms = map member_text ns" "\<forall>n \<in> set ns. reads_as (fst (snd n)) (snd (snd n)) h"
    and p: "map (\<lambda>m. (fst m, [] :: string, plain (snd (snd m)))) (map member_value ns) = map (\<lambda>(k, v). (k, [] :: string, v)) vs"
    by blast
  have "reads_as (enc_object ms) (JObj (map member_value ns)) (Suc h)"
    unfolding ns(1) by (rule reads_as_object) (use ns(2) in blast)
  moreover have "plain (JObj (map member_value ns)) = jobj vs" by (simp only: plain.simps p jobj_def)
  ultimately show ?thesis unfolding says_def by blast
qed

lemma says_array:
  assumes "list_all2 (\<lambda>t v. says t v h) ts vs"
  shows "says (enc_array ts) (jarr vs) (Suc h)"
proof -
  have "\<exists>es. ts = map fst es \<and> map (\<lambda>e. ([] :: string, plain (snd e))) es = map (\<lambda>v. ([] :: string, v)) vs
      \<and> (\<forall>e \<in> set es. reads_as (fst e) (snd e) h)"
    using assms
  proof (induction rule: list_all2_induct)
    case Nil
    show ?case by simp
  next
    case (Cons t ts v vs)
    obtain v' where "reads_as t v' h" "plain v' = v" using Cons.hyps by (auto simp: says_def)
    moreover obtain es where "ts = map fst es"
      "map (\<lambda>e. ([] :: string, plain (snd e))) es = map (\<lambda>v. ([] :: string, v)) vs"
      "\<forall>e \<in> set es. reads_as (fst e) (snd e) h"
      using Cons.IH by blast
    ultimately show ?case by (intro exI[of _ "(t, v') # es"]) simp
  qed
  then obtain es where es: "ts = map fst es" "\<forall>e \<in> set es. reads_as (fst e) (snd e) h"
    and p: "map (\<lambda>e. ([] :: string, plain (snd e))) es = map (\<lambda>v. ([] :: string, v)) vs" by blast
  have "reads_as (enc_array ts) (JArr es) (Suc h)"
    unfolding es(1) by (rule reads_as_array) (use es(2) in blast)
  moreover have "plain (JArr es) = jarr vs" by (simp only: plain.simps p jarr_def)
  ultimately show ?thesis unfolding says_def by blast
qed

lemma says_map:
  assumes "\<And>k v. (k, v) \<in> set m \<Longrightarrow> says (enc v) (val v) h"
  shows "says (enc_map enc m) (jobj (map (\<lambda>(k, v). (to_valid k, val v)) (sort_key fst m))) (Suc h)"
  unfolding enc_map_def
  by (rule says_object) (auto simp: list_all2_map1 list_all2_map2 list_all2_same assms)

lemma says_document:
  "says t v h \<Longrightarrow> h \<le> max_depth \<Longrightarrow> map_option plain (read_document t) = Some v"
  by (auto simp: says_def dest: reads_as_document)

end
