(* ===== verification/Go_Url.thy ===== *)
theory Go_Url
  imports Go_Json
begin

text \<open>
  The parts of \<^verbatim>\<open>net/url\<close> the agent uses: escaping and unescaping of path segments,
  \<^verbatim>\<open>ParseRequestURI\<close> and \<^verbatim>\<open>EscapedPath\<close> for rooted paths (the only ones that
  reach them), \<^verbatim>\<open>Values\<close> from a raw query, and the request target that
  \<^verbatim>\<open>net/http\<close> sends for a URL, which is cut at the fragment. The lemmas give the
  round trip of a path segment and the alphabet of an escaped one.
\<close>

subsection \<open>Path segments\<close>

definition is_unreserved :: "char \<Rightarrow> bool" where
  [go_defs]: "is_unreserved c \<longleftrightarrow>
     is_alnum c \<or> c = CHR ''-'' \<or> c = CHR ''_'' \<or> c = CHR ''.'' \<or> c = CHR 0x7E"

definition escape_segment_char :: "char \<Rightarrow> bool" where
  [go_defs]: "escape_segment_char c \<longleftrightarrow>
     \<not> (is_unreserved c \<or> c \<in> set (''$&+:=@''))"

definition escape_path_char :: "char \<Rightarrow> bool" where
  [go_defs]: "escape_path_char c \<longleftrightarrow>
     \<not> (is_unreserved c \<or> c \<in> set (''$&+:=@/;,''))"

definition upper_hex :: "nat \<Rightarrow> char" where
  [go_defs]: "upper_hex n = (if n < 10 then char_of (48 + n) else char_of (55 + n))"

definition escape_with :: "(char \<Rightarrow> bool) \<Rightarrow> string \<Rightarrow> string" where
  [go_defs]: "escape_with esc s =
     concat (map (\<lambda>c. if esc c
                      then [CHR ''%'', upper_hex (byte c div 16), upper_hex (byte c mod 16)]
                      else [c]) s)"

definition path_escape :: "string \<Rightarrow> string" where
  [go_defs]: "path_escape = escape_with escape_segment_char"

fun path_unescape :: "string \<Rightarrow> string option" where
  "path_unescape [] = Some []"
| "path_unescape (c # s) =
     (if c = CHR ''%'' then
        (case s of a # b # r \<Rightarrow>
           (case (hex_val a, hex_val b) of
              (Some x, Some y) \<Rightarrow> map_option (\<lambda>t. char_of (16 * x + y) # t) (path_unescape r)
            | _ \<Rightarrow> None)
         | _ \<Rightarrow> None)
      else map_option (\<lambda>t. c # t) (path_unescape s))"

lemma escape_with_simps [simp]:
  "escape_with esc [] = []"
  "escape_with esc (c # s) =
     (if esc c then [CHR ''%'', upper_hex (byte c div 16), upper_hex (byte c mod 16)] else [c])
       @ escape_with esc s"
  by (simp_all add: escape_with_def)

lemma hex_val_upper_hex [simp]: "n < 16 \<Longrightarrow> hex_val (upper_hex n) = Some n"
  by (auto simp: hex_val_def upper_hex_def is_digit_def)

lemma unescape_escape_with:
  assumes "esc CHR ''%''"
  shows "path_unescape (escape_with esc s) = Some s"
proof (induction s)
  case Nil
  then show ?case by simp
next
  case (Cons c s)
  have "byte c div 16 < 16" using byte_less_256[of c] by linarith
  moreover have "char_of (16 * (byte c div 16) + byte c mod 16) = c"
    by (simp only: mult_div_mod_eq char_of_char)
  ultimately show ?case using Cons assms by auto
qed

lemma not_unreserved:
  "\<not> is_unreserved CHR ''/''" "\<not> is_unreserved CHR ''?''" "\<not> is_unreserved CHR ''#''"
  "\<not> is_unreserved CHR ''%''"
  by (simp_all add: is_unreserved_def is_alnum_def is_digit_def is_lower_def is_upper_def)

lemma path_unescape_escape: "path_unescape (path_escape s) = Some s"
  unfolding path_escape_def
  by (rule unescape_escape_with) (simp add: escape_segment_char_def not_unreserved)

lemma byte_upper_hex: "n < 16 \<Longrightarrow> byte (upper_hex n) = (if n < 10 then 48 + n else 55 + n)"
  by (simp add: upper_hex_def)

lemma upper_hex_alnum: "n < 16 \<Longrightarrow> is_alnum (upper_hex n)"
  by (cases "n < 10") (simp_all add: byte_upper_hex is_alnum_def is_digit_def is_upper_def)

lemma escape_with_alphabet:
  "c \<in> set (escape_with esc s) \<Longrightarrow> \<not> esc c \<or> c = CHR ''%'' \<or> is_alnum c"
proof (induction s)
  case Nil
  then show ?case by simp
next
  case (Cons a s)
  have "byte a div 16 < 16" using byte_less_256[of a] by linarith
  then have "is_alnum (upper_hex (byte a div 16))" "is_alnum (upper_hex (byte a mod 16))"
    by (simp_all add: upper_hex_alnum)
  with Cons show ?case by (cases "esc a") auto
qed

lemma path_escape_alphabet:
  "c \<in> set (path_escape s) \<Longrightarrow> is_unreserved c \<or> c \<in> set ''$&+:=@%''"
  using escape_with_alphabet[of c escape_segment_char s]
  by (auto simp: path_escape_def escape_segment_char_def is_unreserved_def)

lemma path_escape_no_special:
  "CHR ''/'' \<notin> set (path_escape s)" "CHR ''?'' \<notin> set (path_escape s)"
  "CHR ''#'' \<notin> set (path_escape s)"
  using path_escape_alphabet not_unreserved by fastforce+

lemma path_escape_id:
  "list_all is_unreserved s \<Longrightarrow> path_escape s = s"
  unfolding path_escape_def
  by (induction s) (auto simp: escape_segment_char_def)

subsection \<open>Parsing a rooted request URI\<close>

record parsed_url =
  url_path :: string
  url_raw_path :: string
  url_force_query :: bool
  url_raw_query :: string

definition is_ctl :: "char \<Rightarrow> bool" where
  [go_defs]: "is_ctl c \<longleftrightarrow> byte c < 32 \<or> byte c = 127"

definition valid_encoded :: "string \<Rightarrow> bool" where
  [go_defs]: "valid_encoded s \<longleftrightarrow>
     list_all (\<lambda>c. c \<in> set (''!$&()*+,;=:@[]%'') \<or> c = CHR 0x27 \<or> \<not> escape_path_char c) s"

definition parse_rooted_uri :: "string \<Rightarrow> parsed_url option" where
  [go_defs]: "parse_rooted_uri s =
     (if list_ex is_ctl s then None
      else let (p, q, force) = (case cut_char CHR ''?'' s of
                                  None \<Rightarrow> (s, [], False) | Some (p, q) \<Rightarrow> (p, q, q = []))
           in case path_unescape p of None \<Rightarrow> None
              | Some path \<Rightarrow> Some \<lparr>url_path = path,
                  url_raw_path = (if escape_with escape_path_char path = p then [] else p),
                  url_force_query = force, url_raw_query = q\<rparr>)"

definition escaped_path :: "parsed_url \<Rightarrow> string" where
  [go_defs]: "escaped_path u =
     (if url_raw_path u \<noteq> [] \<and> valid_encoded (url_raw_path u)
         \<and> path_unescape (url_raw_path u) = Some (url_path u)
      then url_raw_path u else escape_with escape_path_char (url_path u))"

lemma escaped_path_unescape: "path_unescape (escaped_path u) = Some (url_path u)"
  by (simp add: escaped_path_def unescape_escape_with escape_path_char_def not_unreserved)

lemma parse_rooted_uri_path:
  "parse_rooted_uri s = Some u \<Longrightarrow>
     path_unescape (takeWhile (\<lambda>c. c \<noteq> CHR ''?'') s) = Some (url_path u)"
proof -
  assume a: "parse_rooted_uri s = Some u"
  show ?thesis
  proof (cases "cut_char CHR ''?'' s")
    case None
    then have "CHR ''?'' \<notin> set s" by (rule cut_char_None [THEN iffD1])
    then have "takeWhile (\<lambda>c. c \<noteq> CHR ''?'') s = s" by (rule takeWhile_neq_id)
    from a None show ?thesis
      unfolding \<open>takeWhile _ s = s\<close> by (auto simp: parse_rooted_uri_def split: if_splits option.splits)
  next
    case (Some pq)
    then obtain p q where pq: "pq = (p, q)" "s = p @ CHR ''?'' # q" "CHR ''?'' \<notin> set p"
      using cut_char_Some by (cases pq) auto
    then have "takeWhile (\<lambda>c. c \<noteq> CHR ''?'') s = p"
      using takeWhile_neq_Cons by metis
    from a Some pq(1) show ?thesis
      unfolding \<open>takeWhile _ s = p\<close> by (auto simp: parse_rooted_uri_def split: if_splits option.splits)
  qed
qed

subsection \<open>Queries\<close>

fun query_unescape :: "string \<Rightarrow> string option" where
  "query_unescape [] = Some []"
| "query_unescape (c # s) =
     (if c = CHR ''%'' then
        (case s of a # b # r \<Rightarrow>
           (case (hex_val a, hex_val b) of
              (Some x, Some y) \<Rightarrow> map_option (\<lambda>t. char_of (16 * x + y) # t) (query_unescape r)
            | _ \<Rightarrow> None)
         | _ \<Rightarrow> None)
      else map_option (\<lambda>t. (if c = CHR ''+'' then CHR '' '' else c) # t) (query_unescape s))"

text \<open>One piece of a query; \<^verbatim>\<open>Query()\<close> drops the pieces that do not parse.\<close>

definition query_pair :: "string \<Rightarrow> (string \<times> string) option" where
  [go_defs]: "query_pair piece =
     (if CHR '';'' \<in> set piece \<or> piece = [] then None
      else let (k, v) = (case cut_char CHR ''='' piece of None \<Rightarrow> (piece, []) | Some kv \<Rightarrow> kv)
           in case (query_unescape k, query_unescape v) of
                (Some k', Some v') \<Rightarrow> Some (k', v')
              | _ \<Rightarrow> None)"

definition add_value :: "string \<times> string \<Rightarrow> string list go_map \<Rightarrow> string list go_map" where
  [go_defs]: "add_value kv m =
     AList.update (fst kv) ((case map_of m (fst kv) of None \<Rightarrow> [] | Some vs \<Rightarrow> vs) @ [snd kv]) m"

text \<open>
  A query of more than 10000 pieces is refused whole (\<^verbatim>\<open>urlmaxqueryparams\<close>), which leaves
  no values.
\<close>

definition parse_query :: "string \<Rightarrow> string list go_map" where
  [go_defs]: "parse_query q =
     (if length (filter (\<lambda>c. c = CHR ''&'') q) + 1 > 10000 then []
      else fold add_value (List.map_filter query_pair (split_char CHR ''&'' q)) [])"

subsection \<open>The request target\<close>

text \<open>
  \<^verbatim>\<open>http.NewRequest\<close> parses the URL with \<^verbatim>\<open>url.Parse\<close>, which cuts the fragment
  before anything else (a fragment with a bad escape is an error); the target line then holds the
  escaped path and the query.
\<close>

definition fragment_of :: "string \<Rightarrow> string" where
  [go_defs]: "fragment_of s = (case cut_char CHR ''#'' s of None \<Rightarrow> [] | Some (a, f) \<Rightarrow> f)"

definition request_target :: "string \<Rightarrow> string option" where
  [go_defs]: "request_target s =
     (case (parse_rooted_uri (takeWhile (\<lambda>c. c \<noteq> CHR ''#'') s), path_unescape (fragment_of s)) of
        (Some u, Some _) \<Rightarrow> Some (escaped_path u @
          (if url_force_query u \<or> url_raw_query u \<noteq> [] then CHR ''?'' # url_raw_query u else []))
      | _ \<Rightarrow> None)"

lemma request_target_no_fragment:
  assumes "CHR ''#'' \<notin> set s" and "parse_rooted_uri s = Some u"
  shows "request_target s = Some (escaped_path u @
    (if url_force_query u \<or> url_raw_query u \<noteq> [] then CHR ''?'' # url_raw_query u else []))"
proof -
  have "cut_char CHR ''#'' s = None" using assms(1) by (simp add: cut_char_None)
  then show ?thesis
    unfolding request_target_def takeWhile_neq_id[OF assms(1)] assms(2) fragment_of_def by simp
qed

end
