(* ===== verification/Incus.thy ===== *)
theory Incus
  imports Go_Json_Decode Go_Json_Encode Go_Url "HOL-Library.State_Monad"
begin

text \<open>
  Package \<^verbatim>\<open>incus\<close>: the proxy request and response, the client that turns one into an HTTP
  exchange over the Unix socket, and the event stream. The HTTP transport is the environment: a
  function of its own state, the request and nothing else.

  The second half is the interface the other packages have on the client
  (\<^verbatim>\<open>IncusBackend\<close>, \<^verbatim>\<open>incusBackend\<close>): a world that runs requests, may cancel the
  context at any time, and remembers every request sent to it. The record of requests is the
  ghost state the safety properties are about.
\<close>

subsection \<open>Requests and responses\<close>

record proxy_request =
  req_id :: string
  req_method :: string
  req_path :: string
  req_body :: raw_message

record proxy_response =
  resp_id :: string
  resp_status :: int
  resp_body :: raw_message
  resp_error :: string

text \<open>\<open>get_request m p\<close> is \<^verbatim>\<open>&incus.ProxyRequest{Method: m, Path: p}\<close>.\<close>

definition plain_request :: "string \<Rightarrow> string \<Rightarrow> proxy_request" where
  [svc_defs]: "plain_request m p = \<lparr>req_id = [], req_method = m, req_path = p, req_body = None\<rparr>"

definition is_success :: "int \<Rightarrow> bool" where
  [svc_defs]: "is_success status \<longleftrightarrow> 200 \<le> status \<and> status < 300"

definition raw_bytes :: "raw_message \<Rightarrow> bytes" where
  [svc_defs]: "raw_bytes m = (case m of None \<Rightarrow> [] | Some b \<Rightarrow> b)"

subsection \<open>The request body reader\<close>

text \<open>
  \<^verbatim>\<open>bytesReader.Read\<close> copies from the start of the slice every time: the reader has no
  position. \<open>None\<close> is \<^verbatim>\<open>io.EOF\<close>.
\<close>

definition bytes_reader_read :: "bytes \<Rightarrow> nat \<Rightarrow> bytes option" where
  [svc_defs]: "bytes_reader_read b n = (if min n (length b) = 0 then None else Some (take n b))"

text \<open>\<^verbatim>\<open>io.LimitedReader\<close> around it: the source and the bytes left.\<close>

record limited_reader =
  lim_src :: bytes
  lim_left :: nat

definition limited_read :: "limited_reader \<Rightarrow> nat \<Rightarrow> (bytes \<times> limited_reader) option" where
  [svc_defs]: "limited_read l n =
     (if lim_left l = 0 then None
      else map_option (\<lambda>p. (p, l\<lparr>lim_left := lim_left l - length p\<rparr>))
             (bytes_reader_read (lim_src l) (min n (lim_left l))))"

text \<open>
  What a consumer receives that reads until EOF, its \<open>i\<close>-th call with a buffer of
  \<open>buf i\<close> bytes.
\<close>

function drain :: "(nat \<Rightarrow> nat) \<Rightarrow> nat \<Rightarrow> limited_reader \<Rightarrow> bytes" where
  "drain buf i l =
     (case limited_read l (buf i) of None \<Rightarrow> [] | Some (p, l') \<Rightarrow> p @ drain buf (Suc i) l')"
  by pat_completeness auto
termination
  by (relation "measure (\<lambda>(buf, i, l). lim_left l)")
     (auto simp: limited_read_def bytes_reader_read_def split: if_splits)

declare drain.simps [simp del]

definition body_reader :: "raw_message \<Rightarrow> limited_reader option" where
  [svc_defs]: "body_reader m = map_option (\<lambda>b. \<lparr>lim_src = b, lim_left = length b\<rparr>) m"

lemma drain_fits:
  assumes "length b \<le> buf 0"
  shows "drain buf 0 \<lparr>lim_src = b, lim_left = length b\<rparr> = b"
  using assms
  by (subst drain.simps, subst drain.simps)
     (simp add: limited_read_def bytes_reader_read_def)

text \<open>With a fixed buffer the consumer sees the first buffer over and over.\<close>

lemma drain_fixed:
  assumes "0 < n" and "k \<le> length b" and "n \<le> length b"
  shows "drain (\<lambda>_. n) i \<lparr>lim_src = b, lim_left = k\<rparr> = map (\<lambda>j. b ! (j mod n)) [0..<k]"
  using assms
proof (induction k arbitrary: i rule: less_induct)
  case (less k)
  show ?case
  proof (cases "k = 0")
    case True
    then show ?thesis by (subst drain.simps) (simp add: limited_read_def)
  next
    case False
    show ?thesis
    proof (cases "k \<le> n")
      case True
      have "take k b = map (\<lambda>j. b ! (j mod n)) [0..<k]"
        using True less.prems(2) False by (intro nth_equalityI) auto
      then show ?thesis
        using False True less.prems
        by (subst drain.simps, subst drain.simps)
           (simp add: limited_read_def bytes_reader_read_def min_def)
    next
      case nk: False
      have t: "take n b = map (\<lambda>j. b ! (j mod n)) [0..<n]"
        using nk less.prems by (intro nth_equalityI) auto
      have IH: "drain (\<lambda>_. n) (Suc i) \<lparr>lim_src = b, lim_left = k - n\<rparr>
          = map (\<lambda>j. b ! (j mod n)) [0..<k - n]"
        using less.prems nk by (intro less.IH) auto
      have "map (\<lambda>j. b ! (j mod n)) [0..<k]
          = map (\<lambda>j. b ! (j mod n)) [0..<n] @ map (\<lambda>j. b ! (j mod n)) [n..<k]"
        using nk upt_add_eq_append[of 0 n "k - n"] by simp
      also have "map (\<lambda>j. b ! (j mod n)) [n..<k] = map (\<lambda>j. b ! (j mod n)) [0..<k - n]"
        by (rule nth_equalityI) (auto simp: mod_add_self1)
      finally show ?thesis
        using False nk less.prems t IH
        by (subst drain.simps) (simp add: limited_read_def bytes_reader_read_def min_def)
    qed
  qed
qed

subsection \<open>The client\<close>

record http_request =
  http_method :: string
  http_target :: string
  http_body :: "bytes option"
  http_json :: bool

text \<open>
  The outcome of the transport: an error text, or a status with the outcome of reading the
  body.
\<close>

record http_response =
  http_status :: int
  http_content :: "string + bytes"

type_synonym 'w transport = "'w \<Rightarrow> http_request \<Rightarrow> (string + http_response) \<times> 'w"

definition valid_method :: "string \<Rightarrow> bool" where
  [go_defs]: "valid_method m \<longleftrightarrow>
     m \<noteq> [] \<and> list_all (\<lambda>c. is_alnum c \<or> c \<in> set (''!#$%&*+-.^_`|'') \<or> c = CHR 0x27 \<or> c = CHR 0x7E) m"

text \<open>
  \<^verbatim>\<open>http.NewRequestWithContext\<close> on the client's base URL and a rooted path. \<open>bad\<close> is the text
  of its error; \<open>buf\<close> gives the sizes of the buffers the transport reads the body with.
\<close>

definition new_request ::
  "(string \<Rightarrow> string \<Rightarrow> string) \<Rightarrow> (nat \<Rightarrow> nat) \<Rightarrow> string \<Rightarrow> string \<Rightarrow> limited_reader option
     \<Rightarrow> string + http_request" where
  [go_defs]: "new_request bad buf m p body =
     (let m' = (if m = [] then ''GET'' else m)
      in if \<not> valid_method m' then Inl (bad m p)
         else case request_target p of None \<Rightarrow> Inl (bad m p)
              | Some t \<Rightarrow> Inr \<lparr>http_method = m', http_target = t,
                  http_body = map_option (drain buf 0) body, http_json = (body \<noteq> None)\<rparr>)"

definition utf8_em_dash :: string where
  [go_defs]: "utf8_em_dash = map char_of [226, 128, 148 :: nat]"

definition client_do ::
  "(string \<Rightarrow> string \<Rightarrow> string) \<Rightarrow> (nat \<Rightarrow> nat) \<Rightarrow> 'w transport
     \<Rightarrow> string \<Rightarrow> string \<Rightarrow> limited_reader option \<Rightarrow> 'w \<Rightarrow> (string + http_response) \<times> 'w" where
  [svc_defs]: "client_do bad buf tr m p body w =
     (case new_request bad buf m p body of
        Inl e \<Rightarrow> (Inl (''create request: '' @ e), w)
      | Inr r \<Rightarrow>
          (case tr w r of
             (Inr resp, w') \<Rightarrow> (Inr resp, w')
           | (Inl e, w') \<Rightarrow>
               (Inl (if contains_str e ''no such file or directory''
                     then ''incus socket not found '' @ utf8_em_dash @ '' is Incus running? '' @ e
                     else if contains_str e ''connection refused''
                     then ''incus socket connection refused '' @ utf8_em_dash @ '' is Incus running? '' @ e
                     else ''incus request failed: '' @ e), w')))"

definition read_body :: "http_response \<Rightarrow> string + bytes" where
  [svc_defs, simp]: "read_body h = http_content h"

definition client_execute ::
  "(string \<Rightarrow> string \<Rightarrow> string) \<Rightarrow> (nat \<Rightarrow> nat) \<Rightarrow> 'w transport
     \<Rightarrow> 'w \<Rightarrow> proxy_request \<Rightarrow> proxy_response option \<times> 'w" where
  [svc_defs]: "client_execute bad buf tr w req =
     (case client_do bad buf tr (req_method req) (req_path req) (body_reader (req_body req)) w of
        (Inl e, w') \<Rightarrow>
          (Some \<lparr>resp_id = req_id req, resp_status = 503, resp_body = None, resp_error = e\<rparr>, w')
      | (Inr h, w') \<Rightarrow>
          (case read_body h of
             Inl e \<Rightarrow>
               (Some \<lparr>resp_id = req_id req, resp_status = 500, resp_body = None, resp_error = e\<rparr>, w')
           | Inr b \<Rightarrow>
               (Some \<lparr>resp_id = req_id req, resp_status = http_status h, resp_body = Some b,
                      resp_error = []\<rparr>, w')))"

lemma client_execute_cases:
  obtains (fail) w' e status where "client_execute bad buf tr w req =
      (Some \<lparr>resp_id = req_id req, resp_status = status, resp_body = None, resp_error = e\<rparr>, w')"
      "status = 503 \<or> status = 500"
  | (ok) w' h b where "client_execute bad buf tr w req =
      (Some \<lparr>resp_id = req_id req, resp_status = http_status h, resp_body = Some b,
             resp_error = []\<rparr>, w')"
      "http_content h = Inr b"
      "client_do bad buf tr (req_method req) (req_path req) (body_reader (req_body req)) w = (Inr h, w')"
proof -
  obtain x w' where x: "client_do bad buf tr (req_method req) (req_path req)
      (body_reader (req_body req)) w = (x, w')"
    by fastforce
  show thesis
  proof (cases x)
    case (Inl e)
    with x show thesis by (intro fail) (auto simp: client_execute_def)
  next
    case (Inr h)
    show thesis
    proof (cases "http_content h")
      case (Inl e)
      with x Inr show thesis by (intro fail) (auto simp: client_execute_def)
    next
      case (Inr b)
      with x \<open>x = Inr h\<close> show thesis by (intro ok) (auto simp: client_execute_def)
    qed
  qed
qed

subsection \<open>The event stream\<close>

record event =
  event_type :: string
  event_data :: raw_message

definition zero_event :: event where
  [svc_defs]: "zero_event = \<lparr>event_type = [], event_data = None\<rparr>"

definition event_fields :: "event field_table" where
  [svc_defs]: "event_fields =
     [(''type'', at_field event_type event_type_update dec_string),
      (''data'', at_field event_data event_data_update dec_raw)]"

text \<open>
  What the loop meets, in order: a message (and whether the context is done when it offers the
  event to the channel) or a read error. The loop delivers events until an error ends it;
  \<open>None\<close> means it is still waiting.
\<close>

datatype ws_input = Ws_Message bytes bool | Ws_Fail string

datatype listen_error = Read_Error string | Decode_Error json_error | Context_Done

fun listen_loop :: "ws_input list \<Rightarrow> event list \<times> listen_error option" where
  "listen_loop [] = ([], None)"
| "listen_loop (Ws_Fail e # _) = ([], Some (Read_Error e))"
| "listen_loop (Ws_Message msg cancelled # ins) =
     (case unmarshal (dec_struct False event_fields) msg zero_event of
        (ev, Some e) \<Rightarrow> ([], Some (Decode_Error e))
      | (ev, None) \<Rightarrow>
          if cancelled then ([], Some Context_Done)
          else (let (evs, r) = listen_loop ins in (ev # evs, r)))"

datatype dial_result = Dial_Failed "int option" string | Dialled "ws_input list"

text \<open>\<^verbatim>\<open>ListenEvents\<close>: the handshake, then the loop. A result of \<open>None\<close> never returns.\<close>

datatype listen_failure = Connect_Error "int option" string | Stream_Error listen_error

definition listen_events :: "dial_result \<Rightarrow> event list \<times> listen_failure option" where
  [svc_defs]: "listen_events d =
     (case d of
        Dial_Failed status e \<Rightarrow> ([], Some (Connect_Error status e))
      | Dialled ins \<Rightarrow> (let (evs, r) = listen_loop ins in (evs, map_option Stream_Error r)))"

lemma listen_loop_length: "length (fst (listen_loop ins)) \<le> length ins"
  by (induction ins rule: listen_loop.induct) (auto split: prod.splits option.splits)

subsection \<open>The backend as the services see it\<close>

text \<open>
  \<open>env_execute\<close> runs a request in the state of the outside world, \<open>env_ctx_err\<close> asks whether the
  context is done (which may change at any time, so it moves the state too). A \<open>world\<close> is that
  state with the exchanges so far: every request sent and what came back.
\<close>

record 's env =
  env_execute :: "'s \<Rightarrow> proxy_request \<Rightarrow> proxy_response option \<times> 's"
  env_ctx_err :: "'s \<Rightarrow> bool \<times> 's"

type_synonym exchange = "proxy_request \<times> proxy_response option"

record 's world =
  exchanges :: "exchange list"
  outside :: 's

type_synonym ('s, 'a) act = "('s world, 'a) state"

abbreviation ret :: "'a \<Rightarrow> ('s, 'a) act" where
  "ret \<equiv> State_Monad.return"

definition incus_execute :: "'s env \<Rightarrow> proxy_request \<Rightarrow> ('s, proxy_response option) act" where
  [svc_defs]: "incus_execute env req = State (\<lambda>w.
     let (r, s') = env_execute env (outside w) req
     in (r, \<lparr>exchanges = exchanges w @ [(req, r)], outside = s'\<rparr>))"

definition ctx_err :: "'s env \<Rightarrow> ('s, bool) act" where
  [svc_defs]: "ctx_err env = State (\<lambda>w.
     let (b, s') = env_ctx_err env (outside w) in (b, w\<lparr>outside := s'\<rparr>))"

text \<open>The environment whose backend is the client above.\<close>

definition client_env ::
  "(string \<Rightarrow> string \<Rightarrow> string) \<Rightarrow> (nat \<Rightarrow> nat) \<Rightarrow> 'w transport \<Rightarrow> ('w \<Rightarrow> bool \<times> 'w) \<Rightarrow> 'w env" where
  [svc_defs]: "client_env bad buf tr ctx =
     \<lparr>env_execute = client_execute bad buf tr, env_ctx_err = ctx\<rparr>"

subsection \<open>What an action may send\<close>

text \<open>
  \<open>sends P n m\<close>: from any world, the action \<open>m\<close> adds at most \<open>n\<close> exchanges, and the request of
  each satisfies \<open>P\<close>. The rules below follow the structure of the handlers, so the discipline of a
  handler is proved from those of its parts, for every backend.
\<close>

definition sends :: "(proxy_request \<Rightarrow> bool) \<Rightarrow> nat \<Rightarrow> ('s, 'a) act \<Rightarrow> bool" where
  "sends P n m \<longleftrightarrow> (\<forall>w. \<exists>new. exchanges (snd (run_state m w)) = exchanges w @ new
     \<and> length new \<le> n \<and> (\<forall>x \<in> set new. P (fst x)))"

lemma sends_ret [simp, intro]: "sends P n (ret x)"
  by (simp add: sends_def)

lemma sends_execute [simp, intro]: "P req \<Longrightarrow> 0 < n \<Longrightarrow> sends P n (incus_execute env req)"
  by (auto simp: sends_def incus_execute_def split: prod.split)

lemma sends_ctx_err [simp, intro]: "sends P n (ctx_err env)"
  by (auto simp: sends_def ctx_err_def split: prod.split)

lemma sends_bind:
  assumes "sends P k m" and "\<And>a. sends P l (f a)" and "k + l \<le> n"
  shows "sends P n (State_Monad.bind m f)"
  unfolding sends_def
proof
  fix w
  obtain a w1 where m: "run_state m w = (a, w1)" by fastforce
  obtain new where new: "exchanges w1 = exchanges w @ new" "length new \<le> k" "\<forall>x \<in> set new. P (fst x)"
    using assms(1) m unfolding sends_def by (metis snd_conv)
  obtain new' where new': "exchanges (snd (run_state (f a) w1)) = exchanges w1 @ new'"
    "length new' \<le> l" "\<forall>x \<in> set new'. P (fst x)"
    using assms(2) unfolding sends_def by blast
  have "exchanges (snd (run_state (State_Monad.bind m f) w)) = exchanges w @ new @ new'"
    using m new(1) new'(1) by simp
  moreover have "length (new @ new') \<le> n" using new(2) new'(2) assms(3) by simp
  moreover have "\<forall>x \<in> set (new @ new'). P (fst x)" using new(3) new'(3) by auto
  ultimately show "\<exists>new. exchanges (snd (run_state (State_Monad.bind m f) w)) = exchanges w @ new
     \<and> length new \<le> n \<and> (\<forall>x \<in> set new. P (fst x))" by blast
qed

lemma sends_mono:
  "sends P n m \<Longrightarrow> n \<le> k \<Longrightarrow> (\<And>r. P r \<Longrightarrow> Q r) \<Longrightarrow> sends Q k m"
  unfolding sends_def by (meson order_trans)

lemma sends_exchange_mem:
  assumes "sends P n m" and "run_state m w = (a, w')" and "x \<in> set (exchanges w')"
    and "x \<notin> set (exchanges w)"
  shows "P (fst x)"
proof -
  obtain new where "exchanges w' = exchanges w @ new" "\<forall>x \<in> set new. P (fst x)"
    using assms(1,2) unfolding sends_def by (metis snd_conv)
  with assms(3,4) show ?thesis by auto
qed

lemma sends_none:
  assumes "sends P 0 m"
  shows "exchanges (snd (run_state m w)) = exchanges w"
  using assms unfolding sends_def by (metis append_Nil2 le_zero_eq length_0_conv)

subsection \<open>Running actions\<close>

text \<open>
  The rules that take a run apart, and \<open>gives Q m\<close>: whatever the world, the result of \<open>m\<close>
  satisfies \<open>Q\<close>.
\<close>

lemma run_bind_iff:
  "run_state (State_Monad.bind m f) w = (b, w2) \<longleftrightarrow>
     (\<exists>a w1. run_state m w = (a, w1) \<and> run_state (f a) w1 = (b, w2))"
  by (auto simp: State_Monad.bind_def split: prod.split)

declare run_state_bind [simp del]

lemma run_ret_iff: "run_state (ret x) w = (y, w') \<longleftrightarrow> y = x \<and> w' = w"
  by auto

lemma run_execute_iff:
  "run_state (incus_execute env req) w = (r, w') \<longleftrightarrow>
     (\<exists>s'. env_execute env (outside w) req = (r, s')
        \<and> w' = \<lparr>exchanges = exchanges w @ [(req, r)], outside = s'\<rparr>)"
  by (auto simp: incus_execute_def split: prod.split)

lemma run_ctx_err_iff:
  "run_state (ctx_err env) w = (b, w') \<longleftrightarrow>
     (\<exists>s'. env_ctx_err env (outside w) = (b, s') \<and> w' = w\<lparr>outside := s'\<rparr>)"
  by (auto simp: ctx_err_def split: prod.split)

lemmas run_iffs = run_bind_iff run_ret_iff run_execute_iff run_ctx_err_iff

text \<open>The shape of every read of the services: ask the context, send one request, look at it.\<close>

lemma run_guarded_read:
  assumes "run_state (State_Monad.bind (ctx_err env) (\<lambda>done. if done then ret x
      else State_Monad.bind (incus_execute env req) (\<lambda>resp. ret (f resp)))) w = (res, w')"
  shows "(res = x \<and> exchanges w' = exchanges w)
    \<or> (\<exists>resp. res = f resp \<and> exchanges w' = exchanges w @ [(req, resp)])"
  using assms by (auto simp: run_iffs split: if_splits)

definition gives :: "('a \<Rightarrow> bool) \<Rightarrow> ('s, 'a) act \<Rightarrow> bool" where
  "gives Q m \<longleftrightarrow> (\<forall>w. Q (fst (run_state m w)))"

lemma gives_ret: "gives Q (ret x) \<longleftrightarrow> Q x"
  by (simp add: gives_def)

lemma gives_bind: "(\<And>a. gives Q (f a)) \<Longrightarrow> gives Q (State_Monad.bind m f)"
  by (auto simp: gives_def State_Monad.bind_def split: prod.split)

lemma gives_bind_via:
  "gives R m \<Longrightarrow> (\<And>a. R a \<Longrightarrow> gives Q (f a)) \<Longrightarrow> gives Q (State_Monad.bind m f)"
  by (auto simp: gives_def State_Monad.bind_def split: prod.split) (metis fst_conv)

lemma gives_mono: "gives R m \<Longrightarrow> (\<And>x. R x \<Longrightarrow> Q x) \<Longrightarrow> gives Q m"
  by (simp add: gives_def)

lemma givesD: "gives Q m \<Longrightarrow> run_state m w = (x, w') \<Longrightarrow> Q x"
  unfolding gives_def by (metis fst_conv)

subsection \<open>The contract of a backend\<close>

text \<open>
  What the client promises to the services: every request is answered, the answer carries the
  id of the request, and an answer with an error text has no body and is not a success.
\<close>

locale incus_backend =
  fixes exec :: "'s \<Rightarrow> proxy_request \<Rightarrow> proxy_response option \<times> 's"
  assumes answers: "fst (exec s req) \<noteq> None"
    and echoes_id: "fst (exec s req) = Some r \<Longrightarrow> resp_id r = req_id req"
    and errors_have_no_body: "fst (exec s req) = Some r \<Longrightarrow> resp_error r \<noteq> [] \<Longrightarrow>
          resp_body r = None \<and> \<not> is_success (resp_status r)"
begin

lemma answered: obtains r where "fst (exec s req) = Some r" "resp_id r = req_id req"
  using answers echoes_id by blast

lemma success_has_no_error:
  "fst (exec s req) = Some r \<Longrightarrow> is_success (resp_status r) \<Longrightarrow> resp_error r = []"
  using errors_have_no_body by blast

lemma run_answers:
  assumes "env_execute env = exec" and "run_state (incus_execute env req) w = (a, w')"
  shows "\<exists>r. a = Some r \<and> resp_id r = req_id req"
  using assms answers[of "outside w" req] echoes_id[of "outside w" req]
  by (auto simp: run_execute_iff)

end

interpretation client: incus_backend "client_execute bad buf tr" for bad buf tr
proof
  fix s req r
  show "fst (client_execute bad buf tr s req) \<noteq> None"
    by (rule client_execute_cases[of bad buf tr s req]) simp_all
  show "resp_id r = req_id req" if "fst (client_execute bad buf tr s req) = Some r"
    using that by (rule_tac client_execute_cases[of bad buf tr s req]) auto
  show "resp_body r = None \<and> \<not> is_success (resp_status r)"
    if "fst (client_execute bad buf tr s req) = Some r" "resp_error r \<noteq> []"
    using that by (rule_tac client_execute_cases[of bad buf tr s req]) (auto simp: is_success_def)
qed

subsection \<open>A cooperative backend\<close>

text \<open>
  The contract under which the services make progress: the context is never done and every
  request gets an answer that depends on the request only.
\<close>

locale cooperative =
  fixes env :: "'s env" and ans :: "proxy_request \<Rightarrow> proxy_response"
  assumes not_done: "\<not> fst (env_ctx_err env s)"
    and answer: "fst (env_execute env s req) = Some (ans req)"
begin

lemma ctx_clear: "gives (\<lambda>b. \<not> b) (ctx_err env)"
  using not_done by (simp add: gives_def ctx_err_def split: prod.split) (metis fst_conv)

lemma execute_answer: "gives (\<lambda>x. x = Some (ans req)) (incus_execute env req)"
  using answer by (simp add: gives_def incus_execute_def split: prod.split) (metis fst_conv)

lemma guarded_read:
  "gives (\<lambda>y. y = f (Some (ans req))) (State_Monad.bind (ctx_err env) (\<lambda>done. if done then ret x
      else State_Monad.bind (incus_execute env req) (\<lambda>resp. ret (f resp))))"
  by (rule gives_bind_via[OF ctx_clear])
     (auto intro!: gives_bind_via[OF execute_answer] simp: gives_ret)

end

text \<open>
  The client is such a backend when the transport is: a server that answers every well-formed
  request in a way that depends on the request only.
\<close>

definition steady_answer ::
  "(string \<Rightarrow> string \<Rightarrow> string) \<Rightarrow> (nat \<Rightarrow> nat) \<Rightarrow> (http_request \<Rightarrow> string + http_response)
     \<Rightarrow> proxy_request \<Rightarrow> proxy_response" where
  [svc_defs]: "steady_answer bad buf serve req =
     the (fst (client_execute bad buf (\<lambda>w r. (serve r, w)) () req))"

lemma client_execute_steady:
  "fst (client_execute bad buf (\<lambda>w r. (serve r, w)) w req) = Some (steady_answer bad buf serve req)"
proof -
  have "fst (client_execute bad buf (\<lambda>w r. (serve r, w)) w req)
      = fst (client_execute bad buf (\<lambda>w r. (serve r, w)) () req)"
    by (auto simp: client_execute_def client_do_def split: sum.split)
  moreover have "fst (client_execute bad buf (\<lambda>w r. (serve r, w)) () req) \<noteq> None"
    by (rule client.answers)
  ultimately show ?thesis by (auto simp: steady_answer_def)
qed

interpretation steady: cooperative
  "client_env bad buf (\<lambda>w r. (serve r, w)) (\<lambda>w. (False, w))" "steady_answer bad buf serve"
  for bad buf serve
  by unfold_locales (simp_all add: client_env_def client_execute_steady)

subsection \<open>A scripted backend\<close>

text \<open>For concrete runs: the answers in order, then none.\<close>

definition scripted :: "proxy_response list env" where
  "scripted = \<lparr>env_execute = (\<lambda>s r. case s of [] \<Rightarrow> (None, []) | x # xs \<Rightarrow> (Some x, xs)),
     env_ctx_err = (\<lambda>s. (False, s))\<rparr>"

definition answer_with :: "int \<Rightarrow> string \<Rightarrow> proxy_response" where
  "answer_with status b =
     \<lparr>resp_id = [], resp_status = status, resp_body = Some b, resp_error = []\<rparr>"

definition script :: "proxy_response list \<Rightarrow> proxy_response list world" where
  "script answers = \<lparr>exchanges = [], outside = answers\<rparr>"

end
