(* ===== verification/Lifecycle_Validation.thy ===== *)
theory Lifecycle_Validation
  imports Incus
begin

text \<open>
  Package \<^verbatim>\<open>lifecycle\<close>, first part: the actions, the request bodies, the error type, the
  name and image allowlists, the bounds on a create request, and the strict decoding of bodies.
  The two allowlists have one shape, stated as the locale \<open>name_allowlist\<close>: whatever matches
  is printable, needs no JSON escaping and holds no shell metacharacter.
\<close>

subsection \<open>Types\<close>

datatype action = Create | Start | Stop | Restart | Delete | Other_Action string

fun action_name :: "action \<Rightarrow> string" where
  "action_name Create = ''create''"
| "action_name Start = ''start''"
| "action_name Stop = ''stop''"
| "action_name Restart = ''restart''"
| "action_name Delete = ''delete''"
| "action_name (Other_Action s) = s"

definition supported_actions :: "string list" where
  [svc_defs]: "supported_actions =
     [action_name Create, action_name Start, action_name Stop, action_name Restart,
      action_name Delete]"

definition max_body_bytes :: nat where [svc_defs]: "max_body_bytes = 2 ^ 20"
definition max_instance_len :: nat where [svc_defs]: "max_instance_len = 63"
definition max_image_len :: nat where [svc_defs]: "max_image_len = 128"
definition max_cpu_count :: int where [svc_defs]: "max_cpu_count = 1024"
definition max_memory_bytes :: int where [svc_defs]: "max_memory_bytes = 2 ^ 44"
definition max_root_disk_bytes :: int where [svc_defs]: "max_root_disk_bytes = 2 ^ 44"

record create_request =
  cr_name :: string
  cr_image :: string
  cr_cpu_count :: int
  cr_memory_bytes :: int
  cr_root_disk_bytes :: int
  cr_secure_boot :: bool

record state_request =
  sr_force :: bool

record delete_request =
  dr_confirm :: bool

record lc_error =
  err_status :: int
  err_code :: string
  err_message :: string

definition new_err :: "int \<Rightarrow> string \<Rightarrow> string \<Rightarrow> lc_error" where
  [svc_defs]: "new_err status code message =
     \<lparr>err_status = status, err_code = code, err_message = message\<rparr>"

record capabilities_response =
  cap_actions :: "string list"
  cap_normalization :: bool

definition capabilities :: capabilities_response where
  [svc_defs]: "capabilities = \<lparr>cap_actions = supported_actions, cap_normalization = True\<rparr>"

subsection \<open>Allowlists\<close>

text \<open>A regular expression \<^verbatim>\<open>^[first][rest]{0,n}$\<close> on bytes.\<close>

definition match_name :: "(char \<Rightarrow> bool) \<Rightarrow> (char \<Rightarrow> bool) \<Rightarrow> nat \<Rightarrow> string \<Rightarrow> bool" where
  [svc_defs]: "match_name first rest n s =
     (case s of [] \<Rightarrow> False | c # cs \<Rightarrow> first c \<and> list_all rest cs \<and> length cs \<le> n)"

definition name_first :: "char \<Rightarrow> bool" where
  [svc_defs]: "name_first c \<longleftrightarrow> is_lower c \<or> is_digit c"

definition name_rest :: "char \<Rightarrow> bool" where
  [svc_defs]: "name_rest c \<longleftrightarrow> is_lower c \<or> is_digit c \<or> c = CHR ''-''"

definition image_rest :: "char \<Rightarrow> bool" where
  [svc_defs]: "image_rest c \<longleftrightarrow> is_alnum c \<or> c \<in> set (''._:/+-'')"

definition instance_name_re :: "string \<Rightarrow> bool" where
  [svc_defs]: "instance_name_re = match_name name_first name_rest 62"

definition image_re :: "string \<Rightarrow> bool" where
  [svc_defs]: "image_re = match_name is_alnum image_rest 127"

definition validate_instance_name :: "string \<Rightarrow> lc_error option" where
  [svc_defs]: "validate_instance_name name =
     (if name = [] then Some (new_err 400 ''INVALID_INSTANCE_NAME'' ''instance name is required'')
      else if max_instance_len < length name
        then Some (new_err 400 ''INVALID_INSTANCE_NAME'' ''instance name too long'')
      else if contains_str name ''..''
        then Some (new_err 400 ''INVALID_INSTANCE_NAME'' ''instance name must not contain path traversal'')
      else if \<not> instance_name_re name
        then Some (new_err 400 ''INVALID_INSTANCE_NAME'' ''instance name is not allowed'')
      else None)"

definition validate_image :: "string \<Rightarrow> lc_error option" where
  [svc_defs]: "validate_image alias =
     (if alias = [] then Some (new_err 400 ''INVALID_IMAGE'' ''image is required'')
      else if max_image_len < length alias
        then Some (new_err 400 ''INVALID_IMAGE'' ''image too long'')
      else if contains_str alias ''..''
        then Some (new_err 400 ''INVALID_IMAGE'' ''image must not contain path traversal'')
      else if \<not> image_re alias
        then Some (new_err 400 ''INVALID_IMAGE'' ''image is not allowed'')
      else None)"

definition validate_create :: "create_request \<Rightarrow> lc_error option" where
  [svc_defs]: "validate_create req =
     (case validate_instance_name (cr_name req) of Some e \<Rightarrow> Some e
      | None \<Rightarrow>
          (case validate_image (cr_image req) of Some e \<Rightarrow> Some e
           | None \<Rightarrow>
               if cr_cpu_count req < 1 \<or> max_cpu_count < cr_cpu_count req
                 then Some (new_err 400 ''INVALID_LIMITS'' ''cpuCount out of range'')
               else if cr_memory_bytes req < 1 \<or> max_memory_bytes < cr_memory_bytes req
                 then Some (new_err 400 ''INVALID_LIMITS'' ''memoryBytes out of range'')
               else if cr_root_disk_bytes req < 1 \<or> max_root_disk_bytes < cr_root_disk_bytes req
                 then Some (new_err 400 ''INVALID_LIMITS'' ''rootDiskBytes out of range'')
               else None))"

subsection \<open>What an allowlist guarantees\<close>

definition is_plain_char :: "char \<Rightarrow> bool" where
  "is_plain_char c \<longleftrightarrow> is_alnum c \<or> c \<in> set ''._:/+-''"

lemma is_plain_char_cases:
  assumes "is_plain_char c"
  obtains "48 \<le> byte c" "byte c \<le> 57" | "97 \<le> byte c" "byte c \<le> 122" | "65 \<le> byte c" "byte c \<le> 90"
  | "c = CHR ''.''" | "c = CHR ''_''" | "c = CHR '':''" | "c = CHR ''/''" | "c = CHR ''+''"
  | "c = CHR ''-''"
  using assms unfolding is_plain_char_def is_alnum_def is_digit_def is_lower_def is_upper_def
  by (simp only: list.set insert_iff empty_iff) blast

lemma plain_bounds: "is_plain_char c \<Longrightarrow> 32 < byte c \<and> byte c < 127"
  by (erule is_plain_char_cases) simp_all

lemma plain_not_special:
  "is_plain_char c \<Longrightarrow> c \<notin> {CHR 0x22, CHR 0x5C, CHR ''<'', CHR ''>'', CHR ''&''}"
  by (erule is_plain_char_cases) (simp_all add: char_eq_byte)

text \<open>Nothing a shell would interpret: quotes, substitutions, globs, separators, redirections.\<close>

lemma plain_no_shell: "is_plain_char c \<Longrightarrow> c \<notin> set (''$();*?![]{}|`#% '') \<and> c \<noteq> CHR 0x27"
  by (erule is_plain_char_cases) (simp_all add: char_eq_byte)

lemma plain_enc_ascii: "is_plain_char c \<Longrightarrow> enc_ascii c = [c]"
  using plain_bounds[of c] plain_not_special[of c] by (simp add: enc_ascii_def is_html_char_def)

lemma plain_enc_chars: "list_all is_plain_char s \<Longrightarrow> enc_chars s = s"
proof (induction s)
  case (Cons c s)
  then have "byte c < 128" using plain_bounds[of c] by simp
  with Cons show ?case by (simp add: plain_enc_ascii)
qed simp

locale name_allowlist =
  fixes first :: "char \<Rightarrow> bool" and rest :: "char \<Rightarrow> bool" and n :: nat
  assumes first_rest: "first c \<Longrightarrow> rest c"
    and rest_plain: "rest c \<Longrightarrow> is_plain_char c"
begin

lemma match_all: "match_name first rest n s \<Longrightarrow> list_all rest s"
  by (auto simp: match_name_def first_rest split: list.splits)

lemma match_plain: "match_name first rest n s \<Longrightarrow> list_all is_plain_char s"
  using match_all rest_plain by (auto simp: list_all_iff)

lemma match_length: "match_name first rest n s \<Longrightarrow> 0 < length s \<and> length s \<le> Suc n"
  by (auto simp: match_name_def split: list.splits)

lemma match_enc_chars: "match_name first rest n s \<Longrightarrow> enc_chars s = s"
  by (intro plain_enc_chars match_plain)

lemma match_to_valid: "match_name first rest n s \<Longrightarrow> to_valid s = s"
  using match_plain by (intro to_valid_ascii) (fastforce simp: list_all_iff dest: plain_bounds)

lemma match_intro:
  "s = c # cs \<Longrightarrow> first c \<Longrightarrow> list_all rest cs \<Longrightarrow> length s \<le> Suc n \<Longrightarrow> match_name first rest n s"
  by (simp add: match_name_def)

end

lemma name_rest_plain: "name_rest c \<Longrightarrow> is_plain_char c"
  by (auto simp: name_rest_def is_alnum_def is_plain_char_def)

lemma image_rest_plain: "image_rest c \<Longrightarrow> is_plain_char c"
  by (simp add: image_rest_def is_plain_char_def)

interpretation inst: name_allowlist name_first name_rest 62
proof
  show "name_first c \<Longrightarrow> name_rest c" for c by (auto simp: name_first_def name_rest_def)
qed (rule name_rest_plain)

interpretation img: name_allowlist is_alnum image_rest 127
proof
  show "is_alnum c \<Longrightarrow> image_rest c" for c by (simp add: image_rest_def)
qed (rule image_rest_plain)

lemma validate_instance_name_None:
  "validate_instance_name name = None \<longleftrightarrow> instance_name_re name"
proof
  assume "validate_instance_name name = None"
  then show "instance_name_re name" by (auto simp: validate_instance_name_def split: if_splits)
next
  assume r: "instance_name_re name"
  have "list_all name_rest name" using r inst.match_all by (simp add: instance_name_re_def)
  moreover have "\<not> name_rest CHR ''.''"
    by (simp add: name_rest_def is_lower_def is_digit_def)
  ultimately have "CHR ''.'' \<notin> set name" by (auto simp: list_all_iff)
  then have "\<not> contains_str name ''..''" by (auto simp: contains_str_iff)
  with r inst.match_length show "validate_instance_name name = None"
    by (fastforce simp: validate_instance_name_def instance_name_re_def max_instance_len_def)
qed

lemma validate_image_None:
  "validate_image img_name = None \<longleftrightarrow> image_re img_name \<and> \<not> contains_str img_name ''..''"
proof
  assume "validate_image img_name = None"
  then show "image_re img_name \<and> \<not> contains_str img_name ''..''"
    by (auto simp: validate_image_def split: if_splits)
next
  assume "image_re img_name \<and> \<not> contains_str img_name ''..''"
  with img.match_length[of img_name] show "validate_image img_name = None"
    by (fastforce simp: validate_image_def image_re_def max_image_len_def)
qed

lemma instance_name_unreserved: "instance_name_re name \<Longrightarrow> list_all is_unreserved name"
  using inst.match_all[of name]
  by (auto simp: instance_name_re_def list_all_iff name_rest_def is_unreserved_def is_alnum_def)

lemma instance_name_path_escape: "instance_name_re name \<Longrightarrow> path_escape name = name"
  by (intro path_escape_id instance_name_unreserved)

lemma validate_create_None:
  "validate_create req = None \<longleftrightarrow>
     validate_instance_name (cr_name req) = None \<and> validate_image (cr_image req) = None
     \<and> cr_cpu_count req \<in> {1..max_cpu_count} \<and> cr_memory_bytes req \<in> {1..max_memory_bytes}
     \<and> cr_root_disk_bytes req \<in> {1..max_root_disk_bytes}"
  by (auto simp: validate_create_def split: option.split)

lemma validation_status:
  "validate_instance_name n = Some e \<Longrightarrow> err_status e = 400"
  "validate_image i = Some e \<Longrightarrow> err_status e = 400"
  "validate_create r = Some e \<Longrightarrow> err_status e = 400"
  by (auto simp: validate_instance_name_def validate_image_def validate_create_def new_err_def
      split: if_splits option.splits)

subsection \<open>Strict decoding\<close>

definition zero_create :: create_request where
  [svc_defs]: "zero_create =
     \<lparr>cr_name = [], cr_image = [], cr_cpu_count = 0, cr_memory_bytes = 0, cr_root_disk_bytes = 0,
      cr_secure_boot = False\<rparr>"

definition create_fields :: "create_request field_table" where
  [svc_defs]: "create_fields =
     [(''name'', at_field cr_name cr_name_update dec_string),
      (''image'', at_field cr_image cr_image_update dec_string),
      (''cpuCount'', at_field cr_cpu_count cr_cpu_count_update dec_int),
      (''memoryBytes'', at_field cr_memory_bytes cr_memory_bytes_update dec_int),
      (''rootDiskBytes'', at_field cr_root_disk_bytes cr_root_disk_bytes_update dec_int),
      (''secureBootEnabled'', at_field cr_secure_boot cr_secure_boot_update dec_bool)]"

definition state_fields :: "state_request field_table" where
  [svc_defs]: "state_fields = [(''force'', at_field sr_force sr_force_update dec_bool)]"

definition delete_fields :: "delete_request field_table" where
  [svc_defs]: "delete_fields = [(''confirm'', at_field dr_confirm dr_confirm_update dec_bool)]"

text \<open>
  The common tail of \<^verbatim>\<open>decodeStrict\<close> and \<^verbatim>\<open>decodeCreate\<close>: decode one value, classify the
  error, and refuse a body with more input. The text of an unknown-field error is the only one
  of the decoder's that contains \<^verbatim>\<open>unknown field\<close>.
\<close>

definition decode_body :: "'a field_table \<Rightarrow> bytes \<Rightarrow> 'a \<Rightarrow> lc_error + 'a" where
  [svc_defs]: "decode_body fs raw zero =
     (case decode_stream (dec_struct True fs) raw zero of
        ((x, Some (Unknown_Field k)), _) \<Rightarrow>
          Inl (new_err 400 ''INVALID_BODY'' ''request body contains an unknown field'')
      | ((x, Some _), _) \<Rightarrow> Inl (new_err 400 ''INVALID_BODY'' ''request body is not valid JSON'')
      | ((x, None), again) \<Rightarrow>
          if again then Inl (new_err 400 ''INVALID_BODY'' ''request body must be a single object'')
          else Inr x)"

definition decode_strict :: "'a field_table \<Rightarrow> raw_message \<Rightarrow> 'a \<Rightarrow> lc_error + 'a" where
  [svc_defs]: "decode_strict fs raw zero =
     (if raw_bytes raw = [] then Inr zero
      else if max_body_bytes < length (raw_bytes raw)
        then Inl (new_err 400 ''BODY_TOO_LARGE'' ''request body too large'')
      else decode_body fs (raw_bytes raw) zero)"

definition decode_create :: "raw_message \<Rightarrow> lc_error + create_request" where
  [svc_defs]: "decode_create raw =
     (if raw_bytes raw = [] then Inl (new_err 400 ''MISSING_BODY'' ''missing request body'')
      else if max_body_bytes < length (raw_bytes raw)
        then Inl (new_err 400 ''BODY_TOO_LARGE'' ''request body too large'')
      else case decode_body create_fields (raw_bytes raw) zero_create of
             Inl e \<Rightarrow> Inl e
           | Inr req \<Rightarrow> (case validate_create req of Some e \<Rightarrow> Inl e | None \<Rightarrow> Inr req))"

lemma decode_create_valid: "decode_create raw = Inr req \<Longrightarrow> validate_create req = None"
  by (auto simp: decode_create_def split: if_splits sum.splits option.splits)

end
