(* ===== verification/Lifecycle_Outcomes.thy ===== *)
theory Lifecycle_Outcomes
  imports Lifecycle_Service
begin

text \<open>
  What the lifecycle service guarantees, in terms of its runs: the abstract description of a run
  without an error (which exchanges it must have seen, in which order and with which answers),
  the shape of every result, the fixed set of error texts, the grammar of accepted paths, and the
  bodies as a JSON reader sees them.
\<close>

subsection \<open>Runs without an error\<close>

definition decoded_envelope :: "proxy_response \<Rightarrow> incus_envelope \<times> json_error option" where
  "decoded_envelope r =
     unmarshal (dec_struct False envelope_fields) (raw_bytes (resp_body r)) zero_envelope"

text \<open>The answer to a wait that ends an operation well: its terminal status code is a success.\<close>

definition operation_done :: "proxy_response \<Rightarrow> bool" where
  "operation_done r \<longleftrightarrow> is_success (resp_status r) \<and> snd (decoded_envelope r) = None
     \<and> is_success (ie_status_code (fst (decoded_envelope r)))"

text \<open>\<open>settled r tr\<close>: the write was answered by \<open>r\<close>, and \<open>tr\<close> is what had to follow it.\<close>

definition settled :: "proxy_response \<Rightarrow> exchange list \<Rightarrow> bool" where
  "settled r tr \<longleftrightarrow> is_success (resp_status r) \<and>
     (case operation_of r of (kind, op_id) \<Rightarrow>
        if kind = ''async''
        then op_id \<noteq> [] \<and> (\<exists>q. tr = [(wait_request op_id, Some q)] \<and> operation_done q)
        else resp_status r \<noteq> 202 \<and> tr = [])"

definition verified :: "action \<Rightarrow> string \<Rightarrow> exchange list \<Rightarrow> bool" where
  "verified a name tr \<longleftrightarrow>
     (if a = Create then \<exists>v. tr = [(verify_request name, Some v)] \<and> is_success (resp_status v)
      else tr = [])"

text \<open>The run of one write: its answer, the wait, the verification, and the result.\<close>

definition performed ::
  "action \<Rightarrow> string \<Rightarrow> proxy_request \<Rightarrow> exchange list \<Rightarrow> result \<Rightarrow> bool" where
  "performed a name req tr res \<longleftrightarrow>
     (\<exists>r tr1 tr2. tr = (req, Some r) # tr1 @ tr2 \<and> settled r tr1 \<and> verified a name tr2
        \<and> res = finish a name (fst (operation_of r)) (snd (operation_of r)))"

lemma fail_with_err [simp]: "res_err (fail_with e) = Some e"
  by (simp add: fail_with_def)

lemma fail_with_body [simp]: "res_body (fail_with e) = None" "res_status (fail_with e) = 0"
  by (simp_all add: fail_with_def)

lemma no_result_err [simp]: "res_err no_result = None"
  by (simp add: no_result_def)

lemma finish_err [simp]: "res_err (finish a name kind op_id) = None"
  by (simp add: finish_def)

lemma profile_ok:
  assumes "run_state (default_profile_root_disk env) w = (Inr d, w')"
  shows "\<exists>r. exchanges w' = exchanges w @ [(profile_request, Some r)]
    \<and> is_success (resp_status r) \<and> root_disk_from_profile (Some r) = Inr d"
  using run_guarded_read[OF assms[unfolded default_profile_root_disk_def]]
  by (auto split: if_splits option.splits)

lemma wait_verdict_ok: "res_err (wait_verdict x) = None \<longleftrightarrow> (\<exists>q. x = Some q \<and> operation_done q)"
proof (cases x)
  case (Some q)
  obtain e r where d: "decoded_envelope q = (e, r)" by fastforce
  have "raw_bytes (resp_body q) = [] \<Longrightarrow> snd (decoded_envelope q) \<noteq> None"
    by (simp add: decoded_envelope_def unmarshal_def read_document_def read_first_def skip_ws_def)
  with d show ?thesis
    by (cases r) (auto simp: Some wait_verdict_def operation_done_def decoded_envelope_def is_success_def)
qed (simp add: wait_verdict_def)

lemma verify_verdict_ok:
  "res_err (verify_verdict x) = None \<longleftrightarrow> (\<exists>v. x = Some v \<and> is_success (resp_status v))"
  by (cases x) (auto simp: verify_verdict_def is_success_def)

lemma wait_ok:
  assumes "run_state (wait_for_operation env op_id) w = (res, w')" and "res_err res = None"
  shows "\<exists>q. exchanges w' = exchanges w @ [(wait_request op_id, Some q)] \<and> operation_done q"
  using run_guarded_read[OF assms(1)[unfolded wait_for_operation_def]] assms(2)
  by (auto simp: wait_verdict_ok)

lemma verify_ok:
  assumes "run_state (verify_created_instance env name) w = (res, w')" and "res_err res = None"
  shows "\<exists>v. exchanges w' = exchanges w @ [(verify_request name, Some v)]
    \<and> is_success (resp_status v)"
proof (cases "validate_instance_name name")
  case None
  show ?thesis
    using run_guarded_read[OF assms(1)[unfolded verify_created_instance_def None option.case]] assms(2)
    by (auto simp: verify_verdict_ok)
next
  case (Some e)
  have "gives (\<lambda>res. res_err res \<noteq> None) (verify_created_instance env name)"
    unfolding verify_created_instance_def Some option.case by (rule gives_bind) (simp add: gives_ret)
  from givesD[OF this assms(1)] assms(2) show ?thesis by simp
qed

lemma verify_and_finish_ok:
  assumes "run_state (verify_and_finish env a name kind op_id) w = (res, w')"
    and "res_err res = None"
  shows "\<exists>tr. exchanges w' = exchanges w @ tr \<and> verified a name tr \<and> res = finish a name kind op_id"
proof (cases "a = Create")
  case True
  then obtain v where v: "run_state (verify_created_instance env name) w = (v, w')"
    and r: "res = (if res_err v \<noteq> None then v else finish a name kind op_id)"
    using assms(1) by (auto simp: verify_and_finish_def run_bind_iff)
  then have "res_err v = None" using assms(2) by (auto split: if_splits)
  with verify_ok[OF v] r True show ?thesis by (auto simp: verified_def)
next
  case False
  with assms show ?thesis by (auto simp: verify_and_finish_def verified_def)
qed

lemma normalize_ok:
  assumes "run_state (normalize_response env a name r) w = (res, w')" and "res_err res = None"
  shows "\<exists>tr1 tr2. exchanges w' = exchanges w @ tr1 @ tr2 \<and> settled r tr1 \<and> verified a name tr2
    \<and> res = finish a name (fst (operation_of r)) (snd (operation_of r))"
proof -
  obtain kind op_id where op: "operation_of r = (kind, op_id)" by fastforce
  have s: "is_success (resp_status r)"
    using assms by (cases "is_success (resp_status r)") (auto simp: normalize_response_def)
  have g: "\<not> (resp_status r = 202 \<and> kind \<noteq> ''async'')"
    using assms op s by (cases "resp_status r = 202 \<and> kind \<noteq> ''async''") (auto simp: normalize_response_def)
  show ?thesis
  proof (cases "kind = ''async''")
    case True
    have i: "op_id \<noteq> []"
      using assms s op True by (cases "op_id = []") (auto simp: normalize_response_def)
    let ?next = "\<lambda>q. if res_err q \<noteq> None then ret q else verify_and_finish env a name kind op_id"
    have "normalize_response env a name r = State_Monad.bind (wait_for_operation env op_id) ?next"
      using s op True i by (simp only: normalize_response_def split) simp
    then obtain q w1 where q: "run_state (wait_for_operation env op_id) w = (q, w1)"
      and n: "run_state (?next q) w1 = (res, w')"
      using assms(1) by (auto simp only: run_bind_iff)
    have e: "res_err q = None" using n assms(2) by (cases "res_err q") auto
    then have v: "run_state (verify_and_finish env a name kind op_id) w1 = (res, w')" using n by simp
    obtain u where "exchanges w1 = exchanges w @ [(wait_request op_id, Some u)]" "operation_done u"
      using wait_ok[OF q e] by blast
    moreover obtain tr where "exchanges w' = exchanges w1 @ tr" "verified a name tr"
      "res = finish a name kind op_id"
      using verify_and_finish_ok[OF v assms(2)] by blast
    ultimately show ?thesis using s op True i
      by (intro exI[of _ "[(wait_request op_id, Some u)]"] exI[of _ tr]) (simp add: settled_def)
  next
    case False
    then have v: "run_state (verify_and_finish env a name kind op_id) w = (res, w')"
      using assms(1) s op g by (simp add: normalize_response_def)
    obtain tr where "exchanges w' = exchanges w @ tr" "verified a name tr"
      "res = finish a name kind op_id"
      using verify_and_finish_ok[OF v assms(2)] by blast
    then show ?thesis using s op False g
      by (intro exI[of _ "[]"] exI[of _ tr]) (simp add: settled_def)
  qed
qed

lemma execute_ok:
  assumes "run_state (execute_action env a name req) w = (res, w')" and "res_err res = None"
  shows "\<exists>tr. exchanges w' = exchanges w @ tr \<and> performed a name req tr res"
proof -
  from assms(1) obtain x w1 where x: "run_state (incus_execute env req) w = (x, w1)"
    and n: "run_state (case x of None \<Rightarrow> ret (fail_with backend_unavailable)
              | Some r \<Rightarrow> normalize_response env a name r) w1 = (res, w')"
    unfolding execute_action_def run_bind_iff by blast
  have w1: "exchanges w1 = exchanges w @ [(req, x)]" using x by (auto simp: run_execute_iff)
  from n assms(2) obtain r where r: "x = Some r"
    and n': "run_state (normalize_response env a name r) w1 = (res, w')"
    by (cases x) auto
  from normalize_ok[OF n' assms(2)] obtain tr1 tr2 where
    "exchanges w' = exchanges w1 @ tr1 @ tr2" "settled r tr1" "verified a name tr2"
    "res = finish a name (fst (operation_of r)) (snd (operation_of r))"
    by blast
  with w1 r show ?thesis unfolding performed_def
    by (intro exI[of _ "(req, Some r) # tr1 @ tr2"] conjI exI[of _ r] exI[of _ tr1] exI[of _ tr2]) simp_all
qed

text \<open>An execution sends its request first, whatever comes of it.\<close>

lemma execute_sends_first:
  assumes "run_state (execute_action env a name req) w = (res, w')"
  shows "\<exists>r tr. exchanges w' = exchanges w @ (req, r) # tr"
proof -
  from assms obtain x w1 where x: "run_state (incus_execute env req) w = (x, w1)"
    and n: "run_state (case x of None \<Rightarrow> ret (fail_with backend_unavailable)
              | Some r \<Rightarrow> normalize_response env a name r) w1 = (res, w')"
    unfolding execute_action_def run_bind_iff by blast
  have w1: "exchanges w1 = exchanges w @ [(req, x)]" using x by (auto simp: run_execute_iff)
  have "sends (\<lambda>_. True) (1 + extra_reads a) (case x of None \<Rightarrow> ret (fail_with backend_unavailable)
              | Some r \<Rightarrow> normalize_response env a name r)"
    by (cases x) (auto intro: sends_normalize[THEN sends_mono])
  then obtain new where "exchanges w' = exchanges w1 @ new"
    using n unfolding sends_def by (metis snd_conv)
  with w1 show ?thesis by simp
qed

lemma handle_create_ok:
  assumes "run_state (handle_create env m body) w = (res, w')" and "res_err res = None"
  shows "\<exists>req disk p post tr. m = ''POST'' \<and> decode_create body = Inr req \<and> is_success (resp_status p)
    \<and> root_disk_from_profile (Some p) = Inr disk
    \<and> build_incus_request Create (cr_name req) (Create_Payload req disk) = Inr post
    \<and> exchanges w' = exchanges w @ (profile_request, Some p) # tr
    \<and> performed Create (cr_name req) post tr res"
proof -
  have m: "m = ''POST''" using assms by (cases "m = ''POST''") (auto simp: handle_create_def)
  obtain req where req: "decode_create body = Inr req"
    using assms m by (cases "decode_create body") (auto simp: handle_create_def)
  let ?next = "\<lambda>disk. case disk of Inl e \<Rightarrow> ret (fail_with e) | Inr d \<Rightarrow>
      (case build_incus_request Create (cr_name req) (Create_Payload req d) of
         Inl e \<Rightarrow> ret (fail_with e) | Inr r \<Rightarrow> execute_action env Create (cr_name req) r)"
  have "handle_create env m body = State_Monad.bind (default_profile_root_disk env) ?next"
    by (simp add: handle_create_def m req)
  then obtain x w1 where x: "run_state (default_profile_root_disk env) w = (x, w1)"
    and n: "run_state (?next x) w1 = (res, w')"
    using assms(1) by (auto simp only: run_bind_iff)
  obtain disk where disk: "x = Inr disk" using n assms(2) by (cases x) auto
  obtain post where post: "build_incus_request Create (cr_name req) (Create_Payload req disk) = Inr post"
    using n assms(2) disk
    by (cases "build_incus_request Create (cr_name req) (Create_Payload req disk)") auto
  then have e: "run_state (execute_action env Create (cr_name req) post) w1 = (res, w')"
    using n disk by simp
  obtain p where p: "exchanges w1 = exchanges w @ [(profile_request, Some p)]"
    "is_success (resp_status p)" "root_disk_from_profile (Some p) = Inr disk"
    using profile_ok[of env w disk w1] x disk by blast
  obtain tr where "exchanges w' = exchanges w1 @ tr" "performed Create (cr_name req) post tr res"
    using execute_ok[OF e assms(2)] by blast
  with m req post p show ?thesis by auto
qed

lemma handle_state_ok:
  assumes "run_state (handle_state env m route body) w = (res, w')" and "res_err res = None"
  shows "\<exists>st req tr. m = ''POST'' \<and> decode_strict state_fields body zero_state = Inr st
    \<and> build_incus_request (route_action route) (route_name route) (State_Payload st) = Inr req
    \<and> exchanges w' = exchanges w @ tr \<and> performed (route_action route) (route_name route) req tr res"
proof -
  have z: "decode_strict state_fields body zero_state = Inr zero_state" if "raw_bytes body = []"
    using that by (simp add: decode_strict_def)
  have m: "m = ''POST''" using assms by (cases "m = ''POST''") (auto simp: handle_state_def)
  have h: "(if raw_bytes body \<noteq> [] then decode_strict state_fields body zero_state
      else Inr zero_state) = decode_strict state_fields body zero_state"
    using z by simp
  obtain st where st: "decode_strict state_fields body zero_state = Inr st"
    using assms m by (cases "decode_strict state_fields body zero_state") (auto simp: handle_state_def h)
  have v: "validate_instance_name (route_name route) = None"
    using assms m st by (cases "validate_instance_name (route_name route)") (auto simp: handle_state_def h)
  obtain req where
    r: "build_incus_request (route_action route) (route_name route) (State_Payload st) = Inr req"
    using assms m st v
    by (cases "build_incus_request (route_action route) (route_name route) (State_Payload st)")
       (auto simp: handle_state_def h)
  have e: "run_state (execute_action env (route_action route) (route_name route) req) w = (res, w')"
    using assms(1) m st v r by (simp add: handle_state_def h)
  with execute_ok[OF e assms(2)] m st r show ?thesis by blast
qed

lemma handle_delete_ok:
  assumes "run_state (handle_delete env m route body) w = (res, w')" and "res_err res = None"
  shows "\<exists>del req tr. m = ''POST'' \<and> raw_bytes body \<noteq> []
    \<and> decode_strict delete_fields body zero_delete = Inr del \<and> dr_confirm del
    \<and> build_incus_request Delete (route_name route) (Delete_Payload del) = Inr req
    \<and> exchanges w' = exchanges w @ tr \<and> performed Delete (route_name route) req tr res"
proof -
  have m: "m = ''POST''" using assms by (cases "m = ''POST''") (auto simp: handle_delete_def)
  have b: "raw_bytes body \<noteq> []" using assms m by (auto simp: handle_delete_def)
  obtain del where d: "decode_strict delete_fields body zero_delete = Inr del"
    using assms m b by (cases "decode_strict delete_fields body zero_delete") (auto simp: handle_delete_def)
  have c: "dr_confirm del" using assms m b d by (cases "dr_confirm del") (auto simp: handle_delete_def)
  have v: "validate_instance_name (route_name route) = None"
    using assms m b d c by (cases "validate_instance_name (route_name route)") (auto simp: handle_delete_def)
  obtain req where r: "build_incus_request Delete (route_name route) (Delete_Payload del) = Inr req"
    using assms m b d c v
    by (cases "build_incus_request Delete (route_name route) (Delete_Payload del)")
       (auto simp: handle_delete_def)
  have e: "run_state (execute_action env Delete (route_name route) req) w = (res, w')"
    using assms(1) m b d c v r by (simp add: handle_delete_def)
  with execute_ok[OF e assms(2)] m b d c r show ?thesis by blast
qed

subsection \<open>Every result\<close>

text \<open>
  The texts an error may carry. None depends on the request or on what Incus answered, so an
  error cannot echo either.
\<close>

definition lifecycle_errors :: "(string \<times> string) list" where
  "lifecycle_errors =
     [(''REQUEST_CANCELLED'', ''request cancelled''),
      (''UNKNOWN_LIFECYCLE_PATH'', ''unknown lifecycle path''),
      (''METHOD_NOT_ALLOWED'', ''unsupported method for lifecycle create''),
      (''METHOD_NOT_ALLOWED'', ''unsupported method for lifecycle action''),
      (''METHOD_NOT_ALLOWED'', ''unsupported method for lifecycle delete''),
      (''MISSING_BODY'', ''missing request body''),
      (''BODY_TOO_LARGE'', ''request body too large''),
      (''INVALID_BODY'', ''request body is not valid JSON''),
      (''INVALID_BODY'', ''request body contains an unknown field''),
      (''INVALID_BODY'', ''request body must be a single object''),
      (''DELETE_NOT_CONFIRMED'', ''delete requires explicit confirmation''),
      (''INVALID_INSTANCE_NAME'', ''instance name is required''),
      (''INVALID_INSTANCE_NAME'', ''instance name too long''),
      (''INVALID_INSTANCE_NAME'', ''instance name must not contain path traversal''),
      (''INVALID_INSTANCE_NAME'', ''instance name is not allowed''),
      (''INVALID_IMAGE'', ''image is required''),
      (''INVALID_IMAGE'', ''image too long''),
      (''INVALID_IMAGE'', ''image must not contain path traversal''),
      (''INVALID_IMAGE'', ''image is not allowed''),
      (''INVALID_LIMITS'', ''cpuCount out of range''),
      (''INVALID_LIMITS'', ''memoryBytes out of range''),
      (''INVALID_LIMITS'', ''rootDiskBytes out of range''),
      (''INCUS_PROFILE_UNAVAILABLE'', ''incus default profile unavailable''),
      (''INCUS_PROFILE_UNAVAILABLE'', ''incus default profile response is malformed''),
      (''INCUS_PROFILE_ROOT_DISK_UNAVAILABLE'', ''incus default profile root disk unavailable''),
      (''INCUS_PROFILE_ROOT_DISK_AMBIGUOUS'', ''incus default profile root disk is ambiguous''),
      (''UNSUPPORTED_ACTION'', ''unsupported lifecycle action''),
      (''INTERNAL'', ''invalid create payload''),
      (''INCUS_UNAVAILABLE'', ''incus lifecycle backend unavailable''),
      (''INCUS_OPERATION_MALFORMED'', ''incus lifecycle operation reference is malformed''),
      (''INCUS_OPERATION_MALFORMED'', ''incus lifecycle operation response is malformed''),
      (''INCUS_OPERATION_MISSING'', ''incus lifecycle operation disappeared before completion''),
      (''INCUS_OPERATION_FAILED'', ''incus lifecycle operation failed''),
      (''INCUS_INSTANCE_MISSING'', ''incus lifecycle create completed but instance is missing''),
      (''INCUS_BAD_REQUEST'', ''incus rejected lifecycle request''),
      (''INSTANCE_NOT_FOUND'', ''instance not found''),
      (''INSTANCE_STATE_CONFLICT'', ''instance state conflict''),
      (''INCUS_UNAVAILABLE'', ''incus unavailable''),
      (''INCUS_LIFECYCLE_FAILED'', ''incus lifecycle operation failed'')]"

definition safe_error :: "lc_error \<Rightarrow> bool" where
  "safe_error e \<longleftrightarrow> \<not> is_success (err_status e)
     \<and> (err_code e, err_message e) \<in> set lifecycle_errors"

definition operation_reference :: "string \<Rightarrow> string \<Rightarrow> bool" where
  "operation_reference kind op_id \<longleftrightarrow>
     (kind = ''sync'' \<and> op_id = [])
     \<or> (kind = ''async'' \<and> op_id \<noteq> [] \<and> length op_id \<le> 128 \<and> CHR ''/'' \<notin> set op_id)"

definition failed :: "result \<Rightarrow> bool" where
  "failed res \<longleftrightarrow> (\<exists>e. res = fail_with e \<and> safe_error e)"

definition succeeded :: "result \<Rightarrow> bool" where
  "succeeded res \<longleftrightarrow> (\<exists>a name kind op_id. res = finish a name kind op_id
     \<and> action_name a \<in> set supported_actions \<and> instance_name_re name \<and> operation_reference kind op_id)"

lemma safe_new_err:
  "\<not> is_success status \<Longrightarrow> (code, message) \<in> set lifecycle_errors \<Longrightarrow> safe_error (new_err status code message)"
  by (simp add: safe_error_def new_err_def)

lemma safe_fixed:
  "safe_error request_cancelled" "safe_error unknown_path" "safe_error backend_unavailable"
  "safe_error not_confirmed" "safe_error profile_unavailable"
  "what = ''reference'' \<or> what = ''response'' \<Longrightarrow> safe_error (operation_malformed what)"
  by (auto simp: request_cancelled_def unknown_path_def backend_unavailable_def not_confirmed_def
      profile_unavailable_def operation_malformed_def is_success_def lifecycle_errors_def
      intro!: safe_new_err)

lemma safe_upstream: "\<not> is_success status \<Longrightarrow> safe_error (upstream_error status)"
  by (simp add: upstream_error_def safe_new_err lifecycle_errors_def map_incus_error_code_def
      map_incus_error_message_def)

lemma safe_name: "validate_instance_name name = Some e \<Longrightarrow> safe_error e"
  by (auto simp: validate_instance_name_def is_success_def lifecycle_errors_def
      intro!: safe_new_err split: if_splits)

lemma safe_image: "validate_image alias = Some e \<Longrightarrow> safe_error e"
  by (auto simp: validate_image_def is_success_def lifecycle_errors_def
      intro!: safe_new_err split: if_splits)

lemma safe_create: "validate_create req = Some e \<Longrightarrow> safe_error e"
  using safe_name safe_image
  by (auto simp: validate_create_def is_success_def lifecycle_errors_def
      intro!: safe_new_err split: if_splits option.splits)

lemma safe_decode_body: "decode_body fs raw zero = Inl e \<Longrightarrow> safe_error e"
  by (auto simp: decode_body_def is_success_def lifecycle_errors_def
      intro!: safe_new_err split: if_splits option.splits prod.splits json_error.splits)

lemma safe_decode_strict: "decode_strict fs raw zero = Inl e \<Longrightarrow> safe_error e"
  using safe_decode_body
  by (auto simp: decode_strict_def is_success_def lifecycle_errors_def
      intro!: safe_new_err split: if_splits)

lemma safe_decode_create: "decode_create raw = Inl e \<Longrightarrow> safe_error e"
  using safe_decode_body safe_create
  by (auto simp: decode_create_def is_success_def lifecycle_errors_def
      intro!: safe_new_err split: if_splits sum.splits option.splits)

lemma safe_select: "select_profile_root_disk devices = Inl e \<Longrightarrow> safe_error e"
  unfolding select_profile_root_disk_cases
  by (auto simp: is_success_def lifecycle_errors_def intro!: safe_new_err
      split: if_splits list.splits prod.splits)

lemma safe_root_disk: "root_disk_from_profile resp = Inl e \<Longrightarrow> safe_error e"
  using safe_select
  by (auto simp: root_disk_from_profile_def safe_fixed split: option.splits if_splits prod.splits)

lemma safe_build: "build_incus_request a name p = Inl e \<Longrightarrow> safe_error e"
  using safe_name safe_create
  by (cases a) (auto simp: build_incus_request_def build_create_def is_success_def lifecycle_errors_def
      intro!: safe_new_err split: option.splits payload.splits)

lemma failed_fail_with [simp]: "failed (fail_with e) \<longleftrightarrow> safe_error e"
  by (auto simp: failed_def fail_with_def)

lemma wait_verdict_failed: "res_err (wait_verdict x) = None \<or> failed (wait_verdict x)"
  by (auto simp: wait_verdict_def safe_fixed safe_upstream is_success_def lifecycle_errors_def
      intro!: safe_new_err split: option.splits if_splits prod.splits)

lemma verify_verdict_failed: "res_err (verify_verdict x) = None \<or> failed (verify_verdict x)"
  by (auto simp: verify_verdict_def safe_fixed safe_upstream is_success_def lifecycle_errors_def
      intro!: safe_new_err split: option.splits if_splits)

lemmas safe_errors = safe_fixed safe_upstream safe_name safe_decode_strict safe_decode_create
  safe_root_disk safe_build

lemma read_outcome:
  "gives (\<lambda>res. res_err res = None \<or> failed res) (wait_for_operation env op_id)"
  "gives (\<lambda>res. res_err res = None \<or> failed res) (verify_created_instance env name)"
proof -
  show "gives (\<lambda>res. res_err res = None \<or> failed res) (wait_for_operation env op_id)"
    unfolding wait_for_operation_def using wait_verdict_failed
    by (auto intro!: gives_bind simp: gives_ret safe_fixed)
  show "gives (\<lambda>res. res_err res = None \<or> failed res) (verify_created_instance env name)"
    unfolding verify_created_instance_def using verify_verdict_failed
    by (auto intro!: gives_bind simp: gives_ret safe_fixed safe_name
        split: option.split)
qed

lemma operation_of_reference:
  "operation_of r = (kind, op_id) \<Longrightarrow> kind = ''sync'' \<or> op_id \<noteq> [] \<Longrightarrow> operation_reference kind op_id"
  using normalize_operation_id_bounds
  by (rule_tac operation_of_cases[of r]) (auto simp: operation_reference_def)

lemma verify_and_finish_outcome:
  assumes "action_name a \<in> set supported_actions" "instance_name_re name" "operation_reference kind op_id"
  shows "gives (\<lambda>res. failed res \<or> succeeded res) (verify_and_finish env a name kind op_id)"
proof -
  have s: "succeeded (finish a name kind op_id)" using assms by (auto simp: succeeded_def)
  then show ?thesis unfolding verify_and_finish_def
    by (auto intro!: gives_bind_via[OF read_outcome(2)] simp: gives_ret)
qed

lemma normalize_outcome:
  assumes "action_name a \<in> set supported_actions" "instance_name_re name"
  shows "gives (\<lambda>res. failed res \<or> succeeded res) (normalize_response env a name r)"
proof -
  obtain kind op_id where op: "operation_of r = (kind, op_id)" by fastforce
  have k: "kind \<noteq> ''async'' \<Longrightarrow> kind = ''sync''"
    using op by (rule_tac operation_of_cases[of r]) auto
  note v = verify_and_finish_outcome[OF assms operation_of_reference[OF op]]
  show ?thesis
    unfolding normalize_response_def op Let_def prod.case
    using k v by (auto simp: gives_ret safe_fixed safe_upstream intro!: gives_bind_via[OF read_outcome(1)])
qed

lemma execute_outcome:
  assumes "action_name a \<in> set supported_actions" "instance_name_re name"
  shows "gives (\<lambda>res. failed res \<or> succeeded res) (execute_action env a name req)"
  unfolding execute_action_def using normalize_outcome[OF assms]
  by (auto intro!: gives_bind simp: gives_ret safe_fixed split: option.split)

lemma profile_outcome:
  "gives (\<lambda>x. \<forall>e. x = Inl e \<longrightarrow> safe_error e) (default_profile_root_disk env)"
  unfolding default_profile_root_disk_def
  by (auto intro!: gives_bind safe_new_err simp: gives_ret safe_fixed safe_root_disk is_success_def
      lifecycle_errors_def split: option.split)

lemma build_name: "build_incus_request a name p = Inr r \<Longrightarrow> instance_name_re name"
  by (auto simp: build_incus_request_def validate_instance_name_None split: option.splits)

lemma method_safe:
  "safe_error (new_err 400 ''METHOD_NOT_ALLOWED'' ''unsupported method for lifecycle create'')"
  "safe_error (new_err 400 ''METHOD_NOT_ALLOWED'' ''unsupported method for lifecycle action'')"
  "safe_error (new_err 400 ''METHOD_NOT_ALLOWED'' ''unsupported method for lifecycle delete'')"
  by (auto simp: is_success_def lifecycle_errors_def intro!: safe_new_err)

lemma handle_create_outcome: "gives (\<lambda>res. failed res \<or> succeeded res) (handle_create env m body)"
  unfolding handle_create_def
  by (auto simp: gives_ret method_safe safe_errors supported_actions_def
      intro!: gives_bind_via[OF profile_outcome] execute_outcome build_name split: sum.split)

lemma handle_state_outcome:
  "action_name (route_action route) \<in> set supported_actions \<Longrightarrow>
     gives (\<lambda>res. failed res \<or> succeeded res) (handle_state env m route body)"
  unfolding handle_state_def
  by (auto simp: gives_ret method_safe safe_errors
      intro!: execute_outcome build_name split: sum.split option.split)

lemma handle_delete_outcome: "gives (\<lambda>res. failed res \<or> succeeded res) (handle_delete env m route body)"
  unfolding handle_delete_def
  by (auto simp: gives_ret method_safe safe_errors supported_actions_def
      intro!: execute_outcome build_name split: sum.split option.split)

lemma handle_lifecycle_outcome:
  "gives (\<lambda>res. failed res \<or> succeeded res) (handle_lifecycle env m p body)"
  unfolding handle_lifecycle_def
proof (rule gives_bind)
  fix done0
  show "gives (\<lambda>res. failed res \<or> succeeded res)
    (if done0 then ret (fail_with request_cancelled)
     else case parse_lifecycle_path p of
       None \<Rightarrow> ret (fail_with unknown_path)
     | Some route \<Rightarrow>
         (case route_action route of
            Create \<Rightarrow> handle_create env m body
          | Start \<Rightarrow> handle_state env m route body
          | Stop \<Rightarrow> handle_state env m route body
          | Restart \<Rightarrow> handle_state env m route body
          | Delete \<Rightarrow> handle_delete env m route body
          | Other_Action s \<Rightarrow> ret (fail_with unknown_path)))"
  proof (cases "parse_lifecycle_path p")
    case (Some route)
    then show ?thesis
      using handle_create_outcome[of env m body] handle_state_outcome[of route env m body]
        handle_delete_outcome[of env m route body]
      by (cases "route_action route") (simp_all add: gives_ret safe_fixed supported_actions_def)
  qed (simp add: gives_ret safe_fixed)
qed

end
