(* ===== verification/Lifecycle_Correct.thy ===== *)
theory Lifecycle_Correct
  imports Lifecycle_Outcomes
begin

text \<open>
  The properties of the lifecycle service, with concrete runs that show each can hold: what is
  sent, what success means, when nothing is sent, which paths are accepted, what the bodies say to
  a JSON reader, and that a cooperative Incus leads to success.
\<close>

subsection \<open>Paths\<close>

definition lifecycle_verbs :: "string list" where
  "lifecycle_verbs = [''start'', ''stop'', ''restart'', ''delete'']"

lemma action_from_string_known:
  "action_from_string v \<noteq> Other_Action [] \<longleftrightarrow> v \<in> set lifecycle_verbs"
  by (auto simp: action_from_string_def lifecycle_verbs_def)

lemma action_from_name:
  "v \<in> set lifecycle_verbs \<Longrightarrow> action_name (action_from_string v) = v \<and> action_from_string v \<noteq> Create"
  by (auto simp: action_from_string_def lifecycle_verbs_def)

lemma verb_no_slash: "v \<in> set lifecycle_verbs \<Longrightarrow> CHR ''/'' \<notin> set v \<and> v \<noteq> []"
  by (auto simp: lifecycle_verbs_def)

lemma splitn2_two: "splitn2 c s = [a, b] \<longleftrightarrow> s = a @ c # b \<and> c \<notin> set a"
proof
  assume "splitn2 c s = [a, b]"
  then have "cut_char c s = Some (a, b)" by (auto simp: splitn2_def split: option.splits)
  then show "s = a @ c # b \<and> c \<notin> set a" by (rule cut_char_Some)
qed (simp add: splitn2_def)

lemma splitn2_cases:
  obtains "splitn2 c s = [s]" "c \<notin> set s" | a b where "splitn2 c s = [a, b]"
  by (cases "cut_char c s") (auto simp: splitn2_def cut_char_None)

lemma parse_tail:
  assumes "p \<noteq> path_create"
  shows "parse_lifecycle_path p = Some route \<longleftrightarrow>
    (\<exists>seg verb name. p = path_instances @ seg @ ''/'' @ verb \<and> seg \<noteq> [] \<and> CHR ''/'' \<notin> set seg
       \<and> \<not> contains_str (seg @ ''/'' @ verb) ''..'' \<and> path_unescape seg = Some name
       \<and> verb \<in> set lifecycle_verbs
       \<and> route = \<lparr>route_action = action_from_string verb, route_name = name\<rparr>)"
    (is "?L \<longleftrightarrow> ?R")
proof
  assume L: ?L
  then obtain rest where p: "p = path_instances @ rest"
    using assms by (auto simp: parse_lifecycle_path_def has_prefix_iff split: if_splits)
  have d: "rest \<noteq> []" "\<not> contains_str rest ''..''"
    using L assms by (auto simp: p parse_lifecycle_path_def split: if_splits)
  show ?R
  proof (rule splitn2_cases[of "CHR ''/''" rest])
    assume "splitn2 CHR ''/'' rest = [rest]"
    with L assms d show ?R by (simp add: p parse_lifecycle_path_def)
  next
    fix a b
    assume s: "splitn2 CHR ''/'' rest = [a, b]"
    then have r: "rest = a @ CHR ''/'' # b" "CHR ''/'' \<notin> set a" by (simp_all add: splitn2_two)
    from L assms d s obtain name where "a \<noteq> []" "path_unescape a = Some name"
      "action_from_string b \<noteq> Other_Action []"
      "route = \<lparr>route_action = action_from_string b, route_name = name\<rparr>"
      by (auto simp: p parse_lifecycle_path_def Let_def split: if_splits option.splits)
    then show ?R using r d by (auto simp: p action_from_string_known)
  qed
next
  assume ?R
  then obtain seg verb name where p: "p = path_instances @ seg @ ''/'' @ verb"
    and c: "seg \<noteq> []" "CHR ''/'' \<notin> set seg" "\<not> contains_str (seg @ ''/'' @ verb) ''..''"
      "path_unescape seg = Some name" "verb \<in> set lifecycle_verbs"
      "route = \<lparr>route_action = action_from_string verb, route_name = name\<rparr>"
    by blast
  have "splitn2 CHR ''/'' (seg @ ''/'' @ verb) = [seg, verb]" using c(2) by (simp add: splitn2_two)
  moreover have "action_from_string verb \<noteq> Other_Action []"
    using c(5) by (simp add: action_from_string_known)
  ultimately show ?L
    using assms c verb_no_slash[OF c(5)]
    by (simp add: parse_lifecycle_path_def p Let_def)
qed

lemma create_is_no_instance: "path_instances @ seg @ ''/'' @ verb \<noteq> path_create"
proof
  assume "path_instances @ seg @ ''/'' @ verb = path_create"
  then have "path_instances @ seg @ ''/'' @ verb = path_instances @ ''create''"
    by (simp add: path_instances_def path_create_def)
  then have "seg @ ''/'' @ verb = ''create''" by simp
  then have "CHR ''/'' \<in> set ''create''" by (metis in_set_conv_decomp append_Cons append_Nil)
  then show False by simp
qed

text \<open>
  C32. The accepted lifecycle paths are exactly the create path and the paths of one escaped,
  non-empty name segment followed by one of the four verbs, with no dot-dot anywhere; the route has
  the verb's action and the unescaped name.
\<close>

theorem lifecycle_path_grammar:
  "parse_lifecycle_path p = Some route \<longleftrightarrow>
     (p = path_create \<and> route = \<lparr>route_action = Create, route_name = []\<rparr>)
     \<or> (\<exists>seg verb name. p = path_instances @ seg @ ''/'' @ verb \<and> seg \<noteq> [] \<and> CHR ''/'' \<notin> set seg
          \<and> \<not> contains_str (seg @ ''/'' @ verb) ''..'' \<and> path_unescape seg = Some name
          \<and> verb \<in> set lifecycle_verbs
          \<and> route = \<lparr>route_action = action_from_string verb, route_name = name\<rparr>)"
proof (cases "p = path_create")
  case True
  then show ?thesis
    using create_is_no_instance[THEN not_sym] by (auto simp: parse_lifecycle_path_def)
qed (simp add: parse_tail)

subsection \<open>What is sent\<close>

lemma sends_handle_lifecycle:
  "sends (\<lambda>r. \<exists>route. parse_lifecycle_path p = Some route \<and> allowed_for (route_action route) r)
     (case parse_lifecycle_path p of None \<Rightarrow> 0 | Some route \<Rightarrow> lifecycle_budget (route_action route))
     (handle_lifecycle env m p body)"
proof (cases "parse_lifecycle_path p")
  case None
  have "sends P 0 (handle_lifecycle env m p body)" for P
    unfolding handle_lifecycle_def
    by (rule sends_bind[where k = 0 and l = 0]) (auto simp: None)
  then show ?thesis by (simp add: None)
next
  case (Some route)
  from sends_handle_route[OF this] show ?thesis
    by (rule sends_mono) (simp_all add: Some)
qed

text \<open>
  C19. Whatever the request and whatever Incus answers, the service sends Incus only requests
  allowed for the action of the parsed path: at most four for a create, two for the others, none
  for a path it does not accept.
\<close>

theorem lifecycle_sends:
  "sends (\<lambda>r. \<exists>route. parse_lifecycle_path p = Some route \<and> allowed_for (route_action route) r)
     (case parse_lifecycle_path p of None \<Rightarrow> 0 | Some route \<Rightarrow> lifecycle_budget (route_action route))
     (handle_lifecycle env m p body)"
  by (rule sends_handle_lifecycle)

lemma handle_route:
  assumes "parse_lifecycle_path p = Some route" and "\<not> fst (env_ctx_err env (outside w))"
  shows "run_state (handle_lifecycle env m p body) w =
    run_state (case route_action route of
        Create \<Rightarrow> handle_create env m body
      | Start \<Rightarrow> handle_state env m route body
      | Stop \<Rightarrow> handle_state env m route body
      | Restart \<Rightarrow> handle_state env m route body
      | Delete \<Rightarrow> handle_delete env m route body
      | Other_Action s \<Rightarrow> ret (fail_with unknown_path))
      (w\<lparr>outside := snd (env_ctx_err env (outside w))\<rparr>)"
  using assms by (cases "env_ctx_err env (outside w)") (simp add: handle_lifecycle_def run_state_bind ctx_err_def)

lemma handle_cancelled:
  assumes "fst (env_ctx_err env (outside w))"
  shows "run_state (handle_lifecycle env m p body) w =
    (fail_with request_cancelled, w\<lparr>outside := snd (env_ctx_err env (outside w))\<rparr>)"
  using assms by (cases "env_ctx_err env (outside w)") (simp add: handle_lifecycle_def run_state_bind ctx_err_def)

text \<open>A run of the service without an error, or with an exchange, got past the context.\<close>

lemma handle_enters:
  assumes "parse_lifecycle_path p = Some route" and "run_state (handle_lifecycle env m p body) w = (res, w')"
    and "res_err res = None \<or> exchanges w' \<noteq> exchanges w"
  shows "\<exists>w0. exchanges w0 = exchanges w \<and>
    run_state (case route_action route of
        Create \<Rightarrow> handle_create env m body
      | Start \<Rightarrow> handle_state env m route body
      | Stop \<Rightarrow> handle_state env m route body
      | Restart \<Rightarrow> handle_state env m route body
      | Delete \<Rightarrow> handle_delete env m route body
      | Other_Action s \<Rightarrow> ret (fail_with unknown_path)) w0 = (res, w')"
proof (cases "fst (env_ctx_err env (outside w))")
  case True
  with assms(2,3) show ?thesis by (auto simp: handle_cancelled)
next
  case False
  with assms(2) handle_route[OF assms(1) False, of m body] show ?thesis
    by (intro exI[of _ "w\<lparr>outside := snd (env_ctx_err env (outside w))\<rparr>"]) simp
qed

definition sample_create :: bytes where
  "sample_create = ''{\"name\":\"vm-1\",\"image\":\"alpine/3.19\",\"cpuCount\":2,\"memoryBytes\":1024,\"rootDiskBytes\":2048}''"

definition sample_profile :: proxy_response where
  "sample_profile = answer_with 200
     ''{\"metadata\":{\"devices\":{\"root\":{\"type\":\"disk\",\"path\":\"/\",\"pool\":\"default\"}}}}''"

definition sample_accepted :: proxy_response where
  "sample_accepted = answer_with 202 ''{\"type\":\"async\",\"operation\":\"/1.0/operations/op-1\"}''"

definition sample_waited :: proxy_response where
  "sample_waited = answer_with 200 ''{\"metadata\":{\"status_code\":200}}''"

definition sample_run :: "result \<times> proxy_response list world" where
  "sample_run = run_state (handle_lifecycle scripted ''POST'' path_create (Some sample_create))
     (script [sample_profile, sample_accepted, sample_waited, answer_with 200 ''{}''])"

text \<open>
  A create that reports success was a POST whose body decodes to a valid request; Incus
  answered the profile read, and then the POST of exactly that request on the profile's root disk,
  with a success; an asynchronous operation was waited for until its terminal status was a success,
  and the instance was then read back; the result is the normalized response and nothing else.
\<close>

lemma create_success:
  assumes "run_state (handle_lifecycle env m path_create body) w = (res, w')"
    and "res_err res = None"
  shows "\<exists>req disk p tr. m = ''POST'' \<and> decode_create body = Inr req \<and> validate_create req = None
    \<and> is_success (resp_status p) \<and> root_disk_from_profile (Some p) = Inr disk
    \<and> exchanges w' = exchanges w @ (profile_request, Some p) # tr
    \<and> performed Create (cr_name req)
        \<lparr>req_id = [], req_method = ''POST'', req_path = ''/1.0/instances'',
         req_body = Some (create_body req disk)\<rparr> tr res"
proof -
  have route: "parse_lifecycle_path path_create = Some \<lparr>route_action = Create, route_name = []\<rparr>"
    by (simp add: parse_lifecycle_path_def)
  obtain w0 where w0: "exchanges w0 = exchanges w"
    and run: "run_state (handle_create env m body) w0 = (res, w')"
    using handle_enters[OF route assms(1)] assms(2) by auto
  obtain req disk p post tr where h: "m = ''POST''" "decode_create body = Inr req"
    "is_success (resp_status p)" "root_disk_from_profile (Some p) = Inr disk"
    "build_incus_request Create (cr_name req) (Create_Payload req disk) = Inr post"
    "exchanges w' = exchanges w0 @ (profile_request, Some p) # tr"
    "performed Create (cr_name req) post tr res"
    using handle_create_ok[OF run assms(2)] by blast
  have v: "validate_create req = None" using h(2) by (rule decode_create_valid)
  then have "validate_instance_name (cr_name req) = None" by (simp add: validate_create_None)
  with h(5) v have "post = \<lparr>req_id = [], req_method = ''POST'', req_path = ''/1.0/instances'',
      req_body = Some (create_body req disk)\<rparr>"
    by (simp add: build_incus_request_def build_create_def)
  with h v w0 show ?thesis by metis
qed

lemma sample_run_result: "fst sample_run = finish Create ''vm-1'' ''async'' ''op-1''"
  by code_simp

lemma create_success_witness:
  "\<exists>req disk p tr. decode_create (Some sample_create) = Inr req \<and> validate_create req = None
    \<and> is_success (resp_status p) \<and> root_disk_from_profile (Some p) = Inr disk
    \<and> exchanges (snd sample_run) = (profile_request, Some p) # tr
    \<and> performed Create (cr_name req)
        \<lparr>req_id = [], req_method = ''POST'', req_path = ''/1.0/instances'',
         req_body = Some (create_body req disk)\<rparr> tr (fst sample_run)"
proof -
  have "res_err (fst sample_run) = None" by (simp add: sample_run_result finish_def)
  moreover have "run_state (handle_lifecycle scripted ''POST'' path_create (Some sample_create))
      (script [sample_profile, sample_accepted, sample_waited, answer_with 200 ''{}''])
      = (fst sample_run, snd sample_run)"
    by (simp add: sample_run_def)
  ultimately show ?thesis using create_success by (fastforce simp: script_def)
qed

definition sample_delete :: bytes where
  "sample_delete = ''{\"confirm\":true}''"

definition sample_delete_path :: string where
  "sample_delete_path = ''/agent/v1/lifecycle/instances/vm-1/delete''"

definition sample_delete_run :: "result \<times> proxy_response list world" where
  "sample_delete_run =
     run_state (handle_lifecycle scripted ''POST'' sample_delete_path (Some sample_delete))
       (script [sample_accepted, sample_waited])"

text \<open>
  On a delete path nothing at all reaches Incus unless the request is a POST with a non-empty
  body that decodes, strictly, to \<^verbatim>\<open>confirm: true\<close>, and the name is on the allowlist;
  the first thing sent is then the DELETE of that instance.
\<close>

lemma delete_needs_confirmation:
  assumes "parse_lifecycle_path p = Some route" and "route_action route = Delete"
    and "run_state (handle_lifecycle env m p body) w = (res, w')"
    and "exchanges w' \<noteq> exchanges w"
  shows "m = ''POST'' \<and> raw_bytes body \<noteq> []
    \<and> (\<exists>del. decode_strict delete_fields body zero_delete = Inr del \<and> dr_confirm del)
    \<and> instance_name_re (route_name route)
    \<and> (\<exists>r tr. exchanges w' = exchanges w
         @ (plain_request ''DELETE'' (''/1.0/instances/'' @ route_name route), r) # tr)"
proof -
  obtain w0 where w0: "exchanges w0 = exchanges w"
    and run: "run_state (handle_delete env m route body) w0 = (res, w')"
    using handle_enters[OF assms(1,3)] assms(2,4) by auto
  have x: "exchanges w' \<noteq> exchanges w0" using assms(4) w0 by simp
  have m: "m = ''POST''" using run x by (cases "m = ''POST''") (auto simp: handle_delete_def)
  have b: "raw_bytes body \<noteq> []"
    using run x m by (cases "raw_bytes body = []") (auto simp: handle_delete_def)
  obtain del where d: "decode_strict delete_fields body zero_delete = Inr del"
    using run x m b by (cases "decode_strict delete_fields body zero_delete") (auto simp: handle_delete_def)
  have c: "dr_confirm del" using run x m b d by (cases "dr_confirm del") (auto simp: handle_delete_def)
  have v: "validate_instance_name (route_name route) = None"
    using run x m b d c by (cases "validate_instance_name (route_name route)") (auto simp: handle_delete_def)
  then have n: "instance_name_re (route_name route)" by (simp add: validate_instance_name_None)
  let ?req = "plain_request ''DELETE'' (''/1.0/instances/'' @ route_name route)"
  have "build_incus_request Delete (route_name route) (Delete_Payload del) = Inr ?req"
    using v n by (simp add: build_incus_request_def build_delete_def instance_name_path_escape)
  then have "run_state (execute_action env Delete (route_name route) ?req) w0 = (res, w')"
    using run m b d c v by (simp add: handle_delete_def)
  from execute_sends_first[OF this] m b d c n w0 show ?thesis by auto
qed

lemma delete_needs_confirmation_witness:
  "dr_confirm \<lparr>dr_confirm = True\<rparr> \<and> instance_name_re ''vm-1''
    \<and> (\<exists>del. decode_strict delete_fields (Some sample_delete) zero_delete = Inr del \<and> dr_confirm del)
    \<and> (\<exists>r tr. exchanges (snd sample_delete_run)
         = (plain_request ''DELETE'' ''/1.0/instances/vm-1'', r) # tr)"
proof -
  have "parse_lifecycle_path sample_delete_path = Some \<lparr>route_action = Delete, route_name = ''vm-1''\<rparr>"
    by code_simp
  moreover have "run_state (handle_lifecycle scripted ''POST'' sample_delete_path (Some sample_delete))
      (script [sample_accepted, sample_waited]) = (fst sample_delete_run, snd sample_delete_run)"
    by (simp add: sample_delete_run_def)
  moreover have "exchanges (snd sample_delete_run) \<noteq> []" by code_simp
  ultimately show ?thesis
    using delete_needs_confirmation[of sample_delete_path "\<lparr>route_action = Delete, route_name = ''vm-1''\<rparr>"]
    by (fastforce simp: script_def)
qed

text \<open>
  C27. Whatever happens, the answer of the service is one of two kinds. Either it is an error with
  no body whose status is not a success and whose code and message are one of a fixed list, so
  nothing of the request or of Incus' answer can leak through it; or it is status 200 with the
  normalized response for an allowlisted instance name and an operation id that is empty (sync) or
  at most 128 bytes without a slash (async).
\<close>

theorem lifecycle_results:
  "gives (\<lambda>res. failed res \<or> succeeded res) (handle_lifecycle env m p body)"
  by (rule handle_lifecycle_outcome)

text \<open>
  A start, stop or restart that reports success was a POST whose body is empty or decodes
  strictly; the PUT of that action and force flag on that instance was answered with a success
  and, if asynchronous, waited for until its terminal status was a success. Nothing else was sent.
\<close>

lemma state_success:
  assumes "parse_lifecycle_path p = Some route" and "state_change (route_action route)"
    and "run_state (handle_lifecycle env m p body) w = (res, w')" and "res_err res = None"
  shows "\<exists>st tr. m = ''POST'' \<and> decode_strict state_fields body zero_state = Inr st
    \<and> instance_name_re (route_name route) \<and> exchanges w' = exchanges w @ tr
    \<and> performed (route_action route) (route_name route)
        \<lparr>req_id = [], req_method = ''PUT'',
         req_path = ''/1.0/instances/'' @ route_name route @ ''/state'',
         req_body = Some (state_body (route_action route) (sr_force st))\<rparr> tr res"
proof -
  obtain w0 where w0: "exchanges w0 = exchanges w"
    and run: "run_state (handle_state env m route body) w0 = (res, w')"
    using handle_enters[OF assms(1,3)] assms(2,4) by (auto simp: state_change_def)
  obtain st req tr where h: "m = ''POST''" "decode_strict state_fields body zero_state = Inr st"
    "build_incus_request (route_action route) (route_name route) (State_Payload st) = Inr req"
    "exchanges w' = exchanges w0 @ tr" "performed (route_action route) (route_name route) req tr res"
    using handle_state_ok[OF run assms(4)] by blast
  have n: "instance_name_re (route_name route)" using h(3) by (rule build_name)
  then have "validate_instance_name (route_name route) = None"
    by (simp add: validate_instance_name_None)
  with h(3) assms(2) n have "req = \<lparr>req_id = [], req_method = ''PUT'',
         req_path = ''/1.0/instances/'' @ route_name route @ ''/state'',
         req_body = Some (state_body (route_action route) (sr_force st))\<rparr>"
    by (auto simp: build_incus_request_def build_state_def instance_name_path_escape state_change_def)
  with h n w0 show ?thesis by metis
qed

definition sample_state_run :: "result \<times> proxy_response list world" where
  "sample_state_run =
     run_state (handle_lifecycle scripted ''POST'' ''/agent/v1/lifecycle/instances/vm-1/stop''
        (Some ''{\"force\":true}''))
       (script [sample_accepted, sample_waited])"

lemma state_success_witness:
  "\<exists>st tr. decode_strict state_fields (Some ''{\"force\":true}'') zero_state = Inr st
    \<and> exchanges (snd sample_state_run) = tr
    \<and> performed Stop ''vm-1''
        \<lparr>req_id = [], req_method = ''PUT'', req_path = ''/1.0/instances/vm-1/state'',
         req_body = Some (state_body Stop (sr_force st))\<rparr> tr (fst sample_state_run)"
proof -
  let ?p = "''/agent/v1/lifecycle/instances/vm-1/stop''"
  have p: "parse_lifecycle_path ?p = Some \<lparr>route_action = Stop, route_name = ''vm-1''\<rparr>"
    by code_simp
  have run: "run_state (handle_lifecycle scripted ''POST'' ?p (Some ''{\"force\":true}''))
      (script [sample_accepted, sample_waited]) = (fst sample_state_run, snd sample_state_run)"
    by (simp add: sample_state_run_def)
  have "res_err (fst sample_state_run) = None" by code_simp
  from state_success[OF p _ run this] show ?thesis by (auto simp: script_def state_change_def)
qed

subsection \<open>What Incus reads\<close>

lemma keys_valid [simp]:
  "to_valid ''name'' = ''name''" "to_valid ''type'' = ''type''" "to_valid ''source'' = ''source''"
  "to_valid ''config'' = ''config''" "to_valid ''devices'' = ''devices''"
  "to_valid ''alias'' = ''alias''" "to_valid ''image'' = ''image''"
  "to_valid ''virtual-machine'' = ''virtual-machine''" "to_valid ''limits.cpu'' = ''limits.cpu''"
  "to_valid ''limits.memory'' = ''limits.memory''"
  "to_valid ''security.secureboot'' = ''security.secureboot''"
  "to_valid ''action'' = ''action''" "to_valid ''force'' = ''force''"
  "to_valid ''true'' = ''true''" "to_valid ''false'' = ''false''"
  by code_simp+

lemma to_valid_itoa [simp]: "to_valid (itoa n) = itoa n"
proof (rule to_valid_ascii)
  show "list_all (\<lambda>c. byte c < 128) (itoa n)"
    using itoa_chars by (fastforce simp: list_all_iff is_digit_def)
qed

lemma to_valid_secure_boot [simp]: "to_valid (format_secure_boot b) = format_secure_boot b"
  by (simp add: format_secure_boot_def)

lemma config_sorted: "sort_key fst (create_config req) = create_config req"
proof (rule sort_key_id_if_sorted)
  have "sorted [''limits.cpu'', ''limits.memory'', ''security.secureboot'']" by code_simp
  then show "sorted (map fst (create_config req))" by (simp only: create_config_def list.map fst_conv)
qed

lemma says_strings:
  "says (enc_map enc_string m)
     (jobj (map (\<lambda>(k, v). (to_valid k, JStr (to_valid v))) (sort_key fst m))) (Suc h)"
  by (rule says_map) (rule says_string)

text \<open>
  C20. Incus reads from the body of a create exactly the validated request: a virtual machine of
  that name and image, limits and secure boot as decimal and boolean strings, and one device, the
  root disk of the default profile with its size replaced; no other key.
\<close>

theorem create_body_says:
  assumes "validate_create req = None"
  shows "map_option plain (read_document (create_body req disk)) = Some (jobj
     [(''name'', JStr (cr_name req)), (''type'', JStr ''virtual-machine''),
      (''source'', jobj [(''type'', JStr ''image''), (''alias'', JStr (cr_image req))]),
      (''config'', jobj [(''limits.cpu'', JStr (itoa (cr_cpu_count req))),
         (''limits.memory'', JStr (itoa (cr_memory_bytes req))),
         (''security.secureboot'', JStr (if cr_secure_boot req then ''true'' else ''false''))]),
      (''devices'', jobj [(to_valid (disk_name disk), jobj
         (map (\<lambda>(k, v). (to_valid k, JStr (to_valid v)))
           (sort_key fst (AList.update ''size'' (itoa (cr_root_disk_bytes req)) (disk_device disk)))))])])"
proof (rule says_document[where h = 3])
  have n: "to_valid (cr_name req) = cr_name req"
    using assms inst.match_to_valid
    by (auto simp: validate_create_None validate_instance_name_None instance_name_re_def)
  have i: "to_valid (cr_image req) = cr_image req"
    using assms img.match_to_valid
    by (auto simp: validate_create_None validate_image_None image_re_def)
  note s = says_string says_string[where s = "cr_name req", unfolded n]
    says_string[where s = "cr_image req", unfolded i]
  have src: "says (enc_object [(''type'', enc_string ''image''), (''alias'', enc_string (cr_image req))])
      (jobj [(''type'', JStr ''image''), (''alias'', JStr (cr_image req))]) (Suc h)" for h
    by (rule says_object) (use says_string[of "''image''"] s(3) in simp)
  have cfg: "says (enc_map enc_string (create_config req))
      (jobj [(''limits.cpu'', JStr (itoa (cr_cpu_count req))),
         (''limits.memory'', JStr (itoa (cr_memory_bytes req))),
         (''security.secureboot'', JStr (if cr_secure_boot req then ''true'' else ''false''))]) (Suc h)" for h
    using says_strings[of "create_config req" h]
    unfolding config_sorted
    by (cases "cr_secure_boot req") (simp_all add: create_config_def format_size_def format_secure_boot_def)
  let ?d = "device_with_size disk (format_size (cr_root_disk_bytes req))"
  have dev: "says (enc_map (enc_map enc_string) [(disk_name disk, ?d)])
      (jobj [(to_valid (disk_name disk), jobj (map (\<lambda>(k, v). (to_valid k, JStr (to_valid v)))
        (sort_key fst ?d)))]) (Suc (Suc 0))"
    using says_map[of "[(disk_name disk, ?d)]" "enc_map enc_string"
        "\<lambda>m. jobj (map (\<lambda>(k, v). (to_valid k, JStr (to_valid v))) (sort_key fst m))" "Suc 0"]
      says_strings by simp
  show "says (create_body req disk) (jobj
     [(''name'', JStr (cr_name req)), (''type'', JStr ''virtual-machine''),
      (''source'', jobj [(''type'', JStr ''image''), (''alias'', JStr (cr_image req))]),
      (''config'', jobj [(''limits.cpu'', JStr (itoa (cr_cpu_count req))),
         (''limits.memory'', JStr (itoa (cr_memory_bytes req))),
         (''security.secureboot'', JStr (if cr_secure_boot req then ''true'' else ''false''))]),
      (''devices'', jobj [(to_valid (disk_name disk), jobj
         (map (\<lambda>(k, v). (to_valid k, JStr (to_valid v)))
           (sort_key fst (AList.update ''size'' (itoa (cr_root_disk_bytes req)) (disk_device disk)))))])]) 3"
    unfolding create_body_def enc_instance_create_def numeral_3_eq_3
    by (rule says_object)
       (use s(2) says_string[of "''virtual-machine''"] src cfg dev
        in \<open>simp add: device_with_size_def format_size_def enc_image_source_def\<close>)
qed (simp add: max_depth_def)

definition sample_request :: create_request where
  "sample_request = \<lparr>cr_name = ''vm-1'', cr_image = ''alpine/3.19'', cr_cpu_count = 2,
     cr_memory_bytes = 1024, cr_root_disk_bytes = 2048, cr_secure_boot = False\<rparr>"

definition sample_disk :: root_disk where
  "sample_disk = \<lparr>disk_name = ''root'',
     disk_device = [(''path'', ''/''), (''pool'', ''default''), (''type'', ''disk'')]\<rparr>"

lemma create_body_says_witness:
  "map_option plain (read_document (create_body sample_request sample_disk)) = Some (jobj
     [(''name'', JStr ''vm-1''), (''type'', JStr ''virtual-machine''),
      (''source'', jobj [(''type'', JStr ''image''), (''alias'', JStr ''alpine/3.19'')]),
      (''config'', jobj [(''limits.cpu'', JStr ''2''), (''limits.memory'', JStr ''1024''),
         (''security.secureboot'', JStr ''false'')]),
      (''devices'', jobj [(''root'', jobj
         [(''path'', JStr ''/''), (''pool'', JStr ''default''), (''size'', JStr ''2048''),
          (''type'', JStr ''disk'')])])])"
proof -
  have "validate_create sample_request = None" by code_simp
  from create_body_says[OF this, of sample_disk] show ?thesis
    by (rule trans) code_simp
qed

text \<open>
  The body of a state change says the action and the force flag, and nothing else.
\<close>

lemma state_body_says:
  "map_option plain (read_document (state_body a force)) =
     Some (jobj [(''action'', JStr (to_valid (action_name a))), (''force'', JBool force)])"
proof (rule says_document[where h = 1])
  show "says (state_body a force)
      (jobj [(''action'', JStr (to_valid (action_name a))), (''force'', JBool force)]) 1"
    unfolding state_body_def enc_instance_state_def One_nat_def by (rule says_object) (simp add: says_string says_bool)
qed (simp add: max_depth_def)

text \<open>
  C34. The root disk taken from the default profile does not depend on the order in which Go
  iterates over the device map.
\<close>

theorem root_disk_order:
  assumes "mset devices = mset devices'"
  shows "select_profile_root_disk devices = select_profile_root_disk devices'"
  using assms by (rule select_profile_root_disk_mset)

lemma root_disk_order_witness:
  "select_profile_root_disk
     [(''eth0'', Some [(''type'', ''nic'')]),
      (''root'', Some [(''type'', ''disk''), (''path'', ''/''), (''pool'', ''p'')])]
   = select_profile_root_disk
     [(''root'', Some [(''type'', ''disk''), (''path'', ''/''), (''pool'', ''p'')]),
      (''eth0'', Some [(''type'', ''nic'')])]"
  by (rule root_disk_order) simp

subsection \<open>A cooperative Incus leads to success\<close>

text \<open>
  \<open>carries_out ans a name req\<close>: with the answers \<open>ans\<close>, the write \<open>req\<close> is accepted, its operation
  (if any) ends well, and a created instance can be read.
\<close>

definition carries_out ::
  "(proxy_request \<Rightarrow> proxy_response) \<Rightarrow> action \<Rightarrow> string \<Rightarrow> proxy_request \<Rightarrow> bool" where
  "carries_out ans a name req \<longleftrightarrow> is_success (resp_status (ans req)) \<and>
     (case operation_of (ans req) of (kind, op_id) \<Rightarrow>
        if kind = ''async'' then op_id \<noteq> [] \<and> operation_done (ans (wait_request op_id))
        else resp_status (ans req) \<noteq> 202)
     \<and> (a = Create \<longrightarrow> is_success (resp_status (ans (verify_request name))))"

lemma wait_verdict_done: "operation_done q \<Longrightarrow> wait_verdict (Some q) = no_result"
proof -
  assume d: "operation_done q"
  then have "res_err (wait_verdict (Some q)) = None" by (simp add: wait_verdict_ok)
  then show ?thesis by (auto simp: wait_verdict_def split: if_splits prod.splits option.splits)
qed

lemma verify_verdict_done: "is_success (resp_status v) \<Longrightarrow> verify_verdict (Some v) = no_result"
  by (auto simp: verify_verdict_def is_success_def)

context cooperative
begin

lemma profile_answer:
  assumes "is_success (resp_status (ans profile_request))"
  shows "gives (\<lambda>x. x = root_disk_from_profile (Some (ans profile_request)))
    (default_profile_root_disk env)"
  unfolding default_profile_root_disk_def
  by (rule gives_mono[OF guarded_read]) (simp add: assms)

lemma wait_answer:
  assumes "operation_done (ans (wait_request op_id))"
  shows "gives (\<lambda>x. x = no_result) (wait_for_operation env op_id)"
  unfolding wait_for_operation_def
  by (rule gives_mono[OF guarded_read]) (simp add: wait_verdict_done assms)

lemma verify_answer:
  assumes "instance_name_re name" and "is_success (resp_status (ans (verify_request name)))"
  shows "gives (\<lambda>x. x = no_result) (verify_created_instance env name)"
proof -
  have "validate_instance_name name = None" using assms(1) by (simp add: validate_instance_name_None)
  then show ?thesis unfolding verify_created_instance_def
    by (simp only: option.case, intro gives_mono[OF guarded_read]) (simp add: verify_verdict_done assms)
qed

lemma verify_and_finish_answer:
  assumes "instance_name_re name"
    and "a = Create \<Longrightarrow> is_success (resp_status (ans (verify_request name)))"
  shows "gives (\<lambda>x. x = finish a name kind op_id) (verify_and_finish env a name kind op_id)"
  using assms
  by (auto simp: verify_and_finish_def gives_ret intro!: gives_bind_via[OF verify_answer])

lemma normalize_answer:
  assumes "instance_name_re name" and "carries_out ans a name req"
  shows "gives (\<lambda>x. x = finish a name (fst (operation_of (ans req))) (snd (operation_of (ans req))))
    (normalize_response env a name (ans req))"
proof -
  obtain kind op_id where op: "operation_of (ans req) = (kind, op_id)" by fastforce
  show ?thesis
  proof (cases "kind = ''async''")
    case True
    with assms op show ?thesis
      unfolding normalize_response_def carries_out_def
      by (auto intro!: gives_bind_via[OF wait_answer] verify_and_finish_answer)
  next
    case False
    with assms op show ?thesis
      unfolding normalize_response_def carries_out_def
      by (auto intro!: verify_and_finish_answer)
  qed
qed

lemma execute_answer_finish:
  assumes "instance_name_re name" and "carries_out ans a name req"
  shows "gives (\<lambda>x. x = finish a name (fst (operation_of (ans req))) (snd (operation_of (ans req))))
    (execute_action env a name req)"
  unfolding execute_action_def
  by (rule gives_bind_via[OF execute_answer]) (simp add: normalize_answer[OF assms])

lemma create_completes:
  assumes "decode_create body = Inr req" and "is_success (resp_status (ans profile_request))"
    and "root_disk_from_profile (Some (ans profile_request)) = Inr disk"
    and "build_incus_request Create (cr_name req) (Create_Payload req disk) = Inr post"
    and "carries_out ans Create (cr_name req) post"
  shows "gives (\<lambda>x. x = finish Create (cr_name req) (fst (operation_of (ans post)))
      (snd (operation_of (ans post)))) (handle_lifecycle env ''POST'' path_create body)"
proof -
  have r: "parse_lifecycle_path path_create = Some \<lparr>route_action = Create, route_name = []\<rparr>"
    by (simp add: parse_lifecycle_path_def)
  have "gives (\<lambda>x. x = finish Create (cr_name req) (fst (operation_of (ans post)))
      (snd (operation_of (ans post)))) (handle_create env ''POST'' body)"
    unfolding handle_create_def using assms build_name[OF assms(4)]
    by (auto intro!: gives_bind_via[OF profile_answer] execute_answer_finish)
  then show ?thesis
    unfolding handle_lifecycle_def r by (intro gives_bind_via[OF ctx_clear]) simp
qed

end

text \<open>
  Create succeeds when it should: when the context is never done and Incus answers every
  request in a way that depends on the request only, a valid create body, a profile with one usable
  root disk, an accepted POST whose operation ends well and a readable instance lead to the
  normalized success, from every state of the world.
\<close>

lemma create_succeeds:
  assumes "\<And>s. \<not> fst (env_ctx_err env s)"
    and "\<And>s req. fst (env_execute env s req) = Some (ans req)"
    and "decode_create body = Inr req" and "is_success (resp_status (ans profile_request))"
    and "root_disk_from_profile (Some (ans profile_request)) = Inr disk"
    and "build_incus_request Create (cr_name req) (Create_Payload req disk) = Inr post"
    and "carries_out ans Create (cr_name req) post"
  shows "fst (run_state (handle_lifecycle env ''POST'' path_create body) w)
    = finish Create (cr_name req) (fst (operation_of (ans post))) (snd (operation_of (ans post)))"
proof -
  have "cooperative env ans" using assms(1,2) by (rule cooperative.intro)
  from cooperative.create_completes[OF this assms(3-7)] show ?thesis by (simp add: gives_def)
qed

definition sample_answers :: "proxy_request \<Rightarrow> proxy_response" where
  "sample_answers r =
     (if req_path r = ''/1.0/profiles/default'' then sample_profile
      else if req_path r = ''/1.0/instances'' then sample_accepted
      else if req_path r = ''/1.0/operations/op-1/wait'' then sample_waited
      else answer_with 200 ''{}'')"

definition sample_read_disk :: root_disk where
  "sample_read_disk = \<lparr>disk_name = ''root'',
     disk_device = [(''type'', ''disk''), (''path'', ''/''), (''pool'', ''default'')]\<rparr>"

definition sample_env :: "unit env" where
  "sample_env = \<lparr>env_execute = (\<lambda>s r. (Some (sample_answers r), s)), env_ctx_err = (\<lambda>s. (False, s))\<rparr>"

lemma create_succeeds_witness:
  "fst (run_state (handle_lifecycle sample_env ''POST'' path_create (Some sample_create))
      \<lparr>exchanges = [], outside = ()\<rparr>) = finish Create ''vm-1'' ''async'' ''op-1''"
proof -
  define post where "post = \<lparr>req_id = [], req_method = ''POST'', req_path = ''/1.0/instances'',
         req_body = Some (create_body sample_request sample_read_disk)\<rparr>"
  have d: "decode_create (Some sample_create) = Inr sample_request" by code_simp
  have p: "is_success (resp_status (sample_answers profile_request))" by code_simp
  have r: "root_disk_from_profile (Some (sample_answers profile_request)) = Inr sample_read_disk" by code_simp
  have b: "build_incus_request Create (cr_name sample_request) (Create_Payload sample_request sample_read_disk)
      = Inr post"
    unfolding post_def by code_simp
  have c: "carries_out sample_answers Create (cr_name sample_request) post"
    unfolding post_def by code_simp
  have o: "operation_of (sample_answers post) = (''async'', ''op-1'')"
    unfolding post_def by code_simp
  have n: "cr_name sample_request = ''vm-1''" by (simp add: sample_request_def)
  show ?thesis
    using create_succeeds[of sample_env sample_answers, OF _ _ d p r b c]
    by (simp add: sample_env_def o n)
qed

text \<open>
  A request whose context is done is refused before anything else: the answer is
  \<^verbatim>\<open>REQUEST_CANCELLED\<close> with status 503, and nothing is sent.
\<close>

lemma cancelled_first:
  assumes "fst (env_ctx_err env (outside w))"
  shows "run_state (handle_lifecycle env m p body) w =
    (\<lparr>res_status = 0, res_body = None, res_err = Some \<lparr>err_status = 503,
        err_code = ''REQUEST_CANCELLED'', err_message = ''request cancelled''\<rparr>\<rparr>,
     w\<lparr>outside := snd (env_ctx_err env (outside w))\<rparr>)"
  using handle_cancelled[OF assms]
  by (simp add: fail_with_def request_cancelled_def new_err_def)

lemma cancelled_first_witness:
  "exchanges (snd (run_state (handle_lifecycle (scripted\<lparr>env_ctx_err := (\<lambda>s. (True, s))\<rparr>)
      ''POST'' path_create (Some sample_create)) (script [sample_profile]))) = []"
  using cancelled_first[of "scripted\<lparr>env_ctx_err := (\<lambda>s. (True, s))\<rparr>" "script [sample_profile]"]
  by (simp add: script_def)

end
