(* ===== verification/Lifecycle_Writes.thy ===== *)
theory Lifecycle_Writes
  imports Lifecycle_Correct
begin

text \<open>
  Package \<^verbatim>\<open>lifecycle\<close>, what it writes: a request to the service changes at most one thing in
  Incus, and only the thing it asked for.
\<close>

subsection \<open>At most one write\<close>

text \<open>
  \<open>writes_once R W m\<close>: from any world, what \<open>m\<close> sends are requests of \<open>R\<close> and at most one of \<open>W\<close>.
\<close>

inductive once :: "(proxy_request \<Rightarrow> bool) \<Rightarrow> (proxy_request \<Rightarrow> bool) \<Rightarrow> exchange list \<Rightarrow> bool"
  for R W :: "proxy_request \<Rightarrow> bool" where
  never: "\<forall>x \<in> set tr. R (fst x) \<Longrightarrow> once R W tr"
| one: "\<forall>x \<in> set pre. R (fst x) \<Longrightarrow> W q \<Longrightarrow> \<forall>x \<in> set post. R (fst x) \<Longrightarrow> once R W (pre @ (q, r) # post)"

definition writes_once :: "(proxy_request \<Rightarrow> bool) \<Rightarrow> (proxy_request \<Rightarrow> bool) \<Rightarrow> ('s, 'a) act \<Rightarrow> bool" where
  "writes_once R W m \<longleftrightarrow> (\<forall>w. \<exists>tr. exchanges (snd (run_state m w)) = exchanges w @ tr \<and> once R W tr)"

lemma once_before:
  assumes "\<forall>x \<in> set pre. R (fst x)" and "once R W tr"
  shows "once R W (pre @ tr)"
  using assms(2)
proof cases
  case never
  with assms(1) show ?thesis by (intro once.never) auto
next
  case (one pre' q post r)
  with assms(1) have "once R W ((pre @ pre') @ (q, r) # post)" by (intro once.one) auto
  with one show ?thesis by simp
qed

lemma once_after:
  assumes "once R W tr" and "\<forall>x \<in> set post. R (fst x)"
  shows "once R W (tr @ post)"
  using assms(1)
proof cases
  case never
  with assms(2) show ?thesis by (intro once.never) auto
next
  case (one pre q post' r)
  with assms(2) have "once R W (pre @ (q, r) # (post' @ post))" by (intro once.one) auto
  with one show ?thesis by simp
qed

lemma once_mem: "once R W tr \<Longrightarrow> x \<in> set tr \<Longrightarrow> R (fst x) \<or> W (fst x)"
  by (erule once.cases) auto

lemma once_mono: "once R W tr \<Longrightarrow> (\<And>q. R q \<Longrightarrow> R' q) \<Longrightarrow> (\<And>q. W q \<Longrightarrow> W' q) \<Longrightarrow> once R' W' tr"
  by (erule once.cases) (auto intro: once.never intro!: once.one)

lemma writes_once_reads [intro]: "sends R n m \<Longrightarrow> writes_once R W m"
  unfolding sends_def writes_once_def by (metis once.never)

lemma writes_once_execute: "W q \<Longrightarrow> writes_once R W (incus_execute env q)"
  using once.one[of "[]" R W q "[]"] by (auto simp: writes_once_def incus_execute_def split: prod.split)

lemma writes_once_before:
  assumes "sends R n m" and "\<And>a. writes_once R W (f a)"
  shows "writes_once R W (State_Monad.bind m f)"
  unfolding writes_once_def
proof
  fix w
  obtain a w1 where m: "run_state m w = (a, w1)" by fastforce
  obtain pre where pre: "exchanges w1 = exchanges w @ pre" "\<forall>x \<in> set pre. R (fst x)"
    using assms(1) m unfolding sends_def by (metis snd_conv)
  obtain tr where "exchanges (snd (run_state (f a) w1)) = exchanges w1 @ tr" "once R W tr"
    using assms(2) unfolding writes_once_def by blast
  with m pre once_before[OF pre(2)] show "\<exists>tr. exchanges (snd (run_state (State_Monad.bind m f) w)) = exchanges w @ tr \<and> once R W tr"
    by (auto simp: run_state_bind)
qed

lemma writes_once_after:
  assumes "writes_once R W m" and "\<And>a. sends R n (f a)"
  shows "writes_once R W (State_Monad.bind m f)"
  unfolding writes_once_def
proof
  fix w
  obtain a w1 where m: "run_state m w = (a, w1)" by fastforce
  obtain tr where tr: "exchanges w1 = exchanges w @ tr" "once R W tr"
    using assms(1) m unfolding writes_once_def by (metis snd_conv)
  obtain post where "exchanges (snd (run_state (f a) w1)) = exchanges w1 @ post" "\<forall>x \<in> set post. R (fst x)"
    using assms(2) unfolding sends_def by blast
  with m tr once_after[OF tr(2)] show "\<exists>tr. exchanges (snd (run_state (State_Monad.bind m f) w)) = exchanges w @ tr \<and> once R W tr"
    by (auto simp: run_state_bind)
qed

lemma writes_once_mono:
  "writes_once R W m \<Longrightarrow> (\<And>q. R q \<Longrightarrow> R' q) \<Longrightarrow> (\<And>q. W q \<Longrightarrow> W' q) \<Longrightarrow> writes_once R' W' m"
  unfolding writes_once_def using once_mono[of R W _ R' W'] by metis

lemma writes_once_ret [intro]: "writes_once R W (ret x)"
  by (rule writes_once_reads[where n = 0]) simp

lemma writes_once_if: "writes_once R W m \<Longrightarrow> writes_once R W n \<Longrightarrow> writes_once R W (if b then m else n)"
  by simp

subsection \<open>The write a request asks for\<close>

text \<open>
  The abstract specification: a \<^verbatim>\<open>POST\<close> on a lifecycle path asks for one write, that of its action
  on its instance, with the body its own body decodes to.
\<close>

definition wanted_write :: "string \<Rightarrow> string \<Rightarrow> raw_message \<Rightarrow> proxy_request \<Rightarrow> bool" where
  "wanted_write m p body q \<longleftrightarrow> m = ''POST'' \<and> (\<exists>route. parse_lifecycle_path p = Some route \<and>
     (case route_action route of
        Create \<Rightarrow> \<exists>req disk. decode_create body = Inr req \<and> validate_create req = None
          \<and> q = \<lparr>req_id = [], req_method = ''POST'', req_path = ''/1.0/instances'', req_body = Some (create_body req disk)\<rparr>
      | Delete \<Rightarrow> \<exists>del. decode_strict delete_fields body zero_delete = Inr del \<and> dr_confirm del
          \<and> instance_name_re (route_name route)
          \<and> q = plain_request ''DELETE'' (''/1.0/instances/'' @ route_name route)
      | a \<Rightarrow> \<exists>st. (raw_bytes body = [] \<and> st = zero_state \<or> decode_strict state_fields body zero_state = Inr st)
          \<and> state_change a \<and> instance_name_re (route_name route)
          \<and> q = \<lparr>req_id = [], req_method = ''PUT'', req_path = ''/1.0/instances/'' @ route_name route @ ''/state'',
                 req_body = Some (state_body a (sr_force st))\<rparr>))"

text \<open>The reads around a write are those of an action without a write of its own.\<close>

lemma allowed_for_reads: "allowed_for (Other_Action []) q \<longleftrightarrow> allowed_read q"
  by (auto simp: allowed_for_def allowed_state_def state_change_def)

lemmas read_sends = sends_profile[where a = "Other_Action []", unfolded allowed_for_reads]

lemma normalize_reads: "sends allowed_read 2 (normalize_response env a name r)"
proof -
  have v: "sends allowed_read 1 (verify_and_finish env a name kind op_id)" for kind op_id
    unfolding verify_and_finish_def
    by (auto intro!: sends_bind[where k = 1 and l = 0] sends_verify[where a = "Other_Action []", unfolded allowed_for_reads])
  have v2: "sends allowed_read 2 (verify_and_finish env a name kind op_id)" for kind op_id
    by (rule sends_mono[OF v]) simp_all
  show ?thesis
  proof (rule operation_of_cases[of r], goal_cases)
    case 1
    with v2 show ?case by (auto simp: normalize_response_def)
  next
    case (2 s)
    with v show ?case
      by (auto simp: normalize_response_def
          intro!: sends_bind[where k = 1 and l = 1] sends_wait[where a = "Other_Action []", unfolded allowed_for_reads])
  qed
qed

lemma execute_once: "W q \<Longrightarrow> writes_once allowed_read W (execute_action env a name q)"
  unfolding execute_action_def
  by (rule writes_once_after[OF writes_once_execute, where n = 2])
     (use normalize_reads in \<open>auto split: option.split\<close>)

lemma create_once:
  assumes "parse_lifecycle_path p = Some route" and "route_action route = Create"
  shows "writes_once allowed_read (wanted_write m p body) (handle_create env m body)"
proof (cases "m = ''POST''")
  case True
  show ?thesis
  proof (cases "decode_create body")
    case (Inr req)
    have v: "validate_create req = None" using Inr by (rule decode_create_valid)
    then have "validate_instance_name (cr_name req) = None" by (simp add: validate_create_None)
    then have "wanted_write m p body q" if "build_incus_request Create (cr_name req) (Create_Payload req d) = Inr q" for q d
      using that v assms True Inr by (auto simp: wanted_write_def build_incus_request_def build_create_def)
    then show ?thesis
      by (auto simp: handle_create_def True Inr split: sum.split
          intro!: writes_once_before[OF read_sends] execute_once)
  qed (auto simp: handle_create_def True)
qed (auto simp: handle_create_def)

lemma state_once:
  assumes "parse_lifecycle_path p = Some route" and "state_change (route_action route)"
  shows "writes_once allowed_read (wanted_write m p body) (handle_state env m route body)"
proof (cases "m = ''POST'' \<and> validate_instance_name (route_name route) = None")
  case True
  then have n: "instance_name_re (route_name route)" by (simp add: validate_instance_name_None)
  have "wanted_write m p body q"
    if "(if raw_bytes body \<noteq> [] then decode_strict state_fields body zero_state else Inr zero_state) = Inr st"
      "build_incus_request (route_action route) (route_name route) (State_Payload st) = Inr q" for st q
    using that True n assms
    by (auto simp: wanted_write_def build_incus_request_def build_state_def instance_name_path_escape state_change_def
        split: if_splits)
  with True show ?thesis
    by (auto simp: handle_state_def split: sum.split intro!: execute_once)
qed (auto simp: handle_state_def split: sum.split option.split)

lemma delete_once:
  assumes "parse_lifecycle_path p = Some route" and "route_action route = Delete"
  shows "writes_once allowed_read (wanted_write m p body) (handle_delete env m route body)"
proof (cases "m = ''POST'' \<and> validate_instance_name (route_name route) = None")
  case True
  then have n: "instance_name_re (route_name route)" by (simp add: validate_instance_name_None)
  have "wanted_write m p body q"
    if "decode_strict delete_fields body zero_delete = Inr del" "dr_confirm del"
      "build_incus_request Delete (route_name route) (Delete_Payload del) = Inr q" for del q
    using that True n assms
    by (auto simp: wanted_write_def build_incus_request_def build_delete_def instance_name_path_escape)
  with True show ?thesis
    by (auto simp: handle_delete_def split: sum.split intro!: execute_once)
qed (auto simp: handle_delete_def split: sum.split option.split)

text \<open>Whatever a request asks, the service writes at most once, and what was asked.\<close>

lemma lifecycle_once: "writes_once allowed_read (wanted_write m p body) (handle_lifecycle env m p body)"
  unfolding handle_lifecycle_def
proof (rule writes_once_before[where n = 0], simp)
  fix done0
  show "writes_once allowed_read (wanted_write m p body)
    (if done0 then ret (fail_with request_cancelled)
     else case parse_lifecycle_path p of
       None \<Rightarrow> ret (fail_with unknown_path)
     | Some route \<Rightarrow>
         (case route_action route of
            Create \<Rightarrow> handle_create env m body
          | Start \<Rightarrow> handle_state env m route body
          | Stop \<Rightarrow> handle_state env m route body
          | Restart \<Rightarrow> handle_state env m route body
          | Delete \<Rightarrow> handle_delete env m route body
          | Other_Action s \<Rightarrow> ret (fail_with unknown_path)))"
    by (auto split: option.split action.split intro!: create_once state_once delete_once simp: state_change_def)
qed

text \<open>A change or a delete without an error: the write that was asked for was performed, and nothing else sent.\<close>

lemma change_success:
  assumes "parse_lifecycle_path p = Some route" and "route_action route \<noteq> Create"
    and "run_state (handle_lifecycle env m p body) w = (res, w')" and "res_err res = None"
  shows "\<exists>q tr. wanted_write m p body q \<and> exchanges w' = exchanges w @ tr
    \<and> performed (route_action route) (route_name route) q tr res"
proof -
  consider "state_change (route_action route)" | "route_action route = Delete" | s where "route_action route = Other_Action s"
    using assms(2) by (cases "route_action route") (auto simp: state_change_def)
  then show ?thesis
  proof cases
    case 1
    then have "wanted_write m p body \<lparr>req_id = [], req_method = ''PUT'', req_path = ''/1.0/instances/'' @ route_name route @ ''/state'',
        req_body = Some (state_body (route_action route) (sr_force st))\<rparr>"
      if "m = ''POST''" "decode_strict state_fields body zero_state = Inr st" "instance_name_re (route_name route)" for st
      using that assms(1) by (auto simp: wanted_write_def state_change_def)
    with state_success[OF assms(1) 1 assms(3,4)] show ?thesis by blast
  next
    case 2
    obtain w0 where w0: "exchanges w0 = exchanges w" and run: "run_state (handle_delete env m route body) w0 = (res, w')"
      using handle_enters[OF assms(1,3)] assms(4) 2 by auto
    obtain del q tr where h: "m = ''POST''" "decode_strict delete_fields body zero_delete = Inr del" "dr_confirm del"
      "build_incus_request Delete (route_name route) (Delete_Payload del) = Inr q"
      "exchanges w' = exchanges w0 @ tr" "performed Delete (route_name route) q tr res"
      using handle_delete_ok[OF run assms(4)] by blast
    have n: "instance_name_re (route_name route)" using h(4) by (rule build_name)
    then have "validate_instance_name (route_name route) = None" by (simp add: validate_instance_name_None)
    with h n 2 assms(1) have "wanted_write m p body q"
      by (auto simp: wanted_write_def build_incus_request_def build_delete_def instance_name_path_escape)
    with h(5,6) w0 2 show ?thesis by auto
  next
    case 3
    with handle_enters[OF assms(1,3)] assms(4) show ?thesis by auto
  qed
qed

end
