(* ===== verification/Proxy_Validation.thy ===== *)
theory Proxy_Validation
  imports Incus
begin

text \<open>
  Package \<^verbatim>\<open>proxy\<close>, the gate: which requests a WebSocket client may make. The abstract
  specification of a read is \<open>confined_target\<close>, a set of HTTP request targets; the lemmas relate
  what the gate accepts (it parses with \<^verbatim>\<open>url.ParseRequestURI\<close>) to what the client then sends
  (it parses with \<^verbatim>\<open>url.Parse\<close>, which cuts a fragment first).
\<close>

definition is_allowed_method :: "string \<Rightarrow> bool" where
  [svc_defs]: "is_allowed_method m \<longleftrightarrow>
     m \<in> set [''GET'', ''POST'', ''PUT'', ''PATCH'', ''DELETE'']"

definition values_get :: "string list go_map \<Rightarrow> string \<Rightarrow> string list" where
  [svc_defs]: "values_get vs k = (case map_of vs k of None \<Rightarrow> [] | Some l \<Rightarrow> l)"

definition is_recursion_one_query :: "string list go_map \<Rightarrow> bool" where
  [svc_defs]: "is_recursion_one_query vs \<longleftrightarrow>
     length vs = 1 \<and> length (values_get vs ''recursion'') = 1
     \<and> hd (values_get vs ''recursion'') = ''1''"

definition has_allowed_detail_read_shape :: "string \<Rightarrow> bool" where
  [svc_defs]: "has_allowed_detail_read_shape escaped =
     (case split_char CHR ''/'' escaped of
        [s0, s1, s2, segment] \<Rightarrow>
          if s0 \<noteq> [] \<or> s1 \<noteq> ''1.0'' then False
          else if s2 \<notin> set [''instances'', ''images'', ''operations''] then False
          else if segment = [] \<or> segment = ''.'' \<or> segment = ''..'' \<or> contains_str segment ''/''
            then False
          else (case path_unescape segment of None \<Rightarrow> False
                | Some d \<Rightarrow> d \<noteq> [] \<and> d \<noteq> ''.'' \<and> d \<noteq> ''..'' \<and> \<not> contains_str d ''/'')
      | _ \<Rightarrow> False)"

definition is_allowed_incus_read_path :: "string \<Rightarrow> bool" where
  [svc_defs]: "is_allowed_incus_read_path raw =
     (case parse_rooted_uri raw of None \<Rightarrow> False
      | Some u \<Rightarrow>
          (let p = escaped_path u
           in if p = ''/1.0'' \<or> p = ''/1.0/instances'' then url_raw_query u = []
              else if p = ''/1.0/images''
                then url_raw_query u = [] \<or> is_recursion_one_query (parse_query (url_raw_query u))
              else if p = ''/1.0/operations'' then url_raw_query u = []
              else if url_raw_query u \<noteq> [] then False
              else has_allowed_detail_read_shape p))"

text \<open>The text of the error, or \<open>None\<close>.\<close>

definition validate_proxy_request :: "proxy_request \<Rightarrow> string option" where
  [svc_defs]: "validate_proxy_request req =
     (if req_id req = [] then Some ''missing id''
      else if req_method req = [] then Some ''missing method''
      else if \<not> is_allowed_method (req_method req) then Some ''unsupported method''
      else if req_path req = [] then Some ''missing path''
      else if req_path req = ''/agent/v1/state'' \<or> has_prefix (req_path req) ''/agent/v1/'' then None
      else if req_path req \<noteq> ''/1.0'' \<and> \<not> has_prefix (req_path req) ''/1.0/''
        then Some ''path outside incus api''
      else if req_method req \<noteq> ''GET'' then Some ''incus write method not allowed''
      else if \<not> is_allowed_incus_read_path (req_path req) then Some ''incus read path not allowed''
      else None)"

subsection \<open>What an accepted read may become\<close>

definition agent_path :: "string \<Rightarrow> bool" where
  "agent_path p \<longleftrightarrow> has_prefix p ''/agent/v1/''"

lemma agent_path_state [simp]: "agent_path ''/agent/v1/state''"
  by (simp add: agent_path_def has_prefix_def)

text \<open>
  A resource below one of three collections: one segment, which also after unescaping is neither
  empty nor a dot segment and holds no slash.
\<close>

definition detail_path :: "string \<Rightarrow> bool" where
  "detail_path p \<longleftrightarrow> (\<exists>coll seg d. p = ''/1.0/'' @ coll @ ''/'' @ seg
     \<and> coll \<in> set [''instances'', ''images'', ''operations''] \<and> CHR ''/'' \<notin> set seg
     \<and> path_unescape seg = Some d \<and> d \<notin> {[], ''.'', ''..''} \<and> CHR ''/'' \<notin> set d)"

definition listing_path :: "string \<Rightarrow> bool" where
  "listing_path p \<longleftrightarrow>
     p \<in> set [''/1.0'', ''/1.0/instances'', ''/1.0/images'', ''/1.0/operations'']"

definition confined_target :: "string \<Rightarrow> bool" where
  "confined_target t \<longleftrightarrow> (\<exists>p q. t = p @ q \<and> (listing_path p \<or> detail_path p)
     \<and> (q = [] \<or> q = ''?''
        \<or> (p = ''/1.0/images''
           \<and> (\<exists>raw. q = CHR ''?'' # raw \<and> is_recursion_one_query (parse_query raw)))))"

lemma detail_shape:
  "has_allowed_detail_read_shape p \<longleftrightarrow> detail_path p"
proof
  assume h: "has_allowed_detail_read_shape p"
  then obtain s0 s1 s2 seg where s: "split_char CHR ''/'' p = [s0, s1, s2, seg]"
    by (auto simp: has_allowed_detail_read_shape_def split: list.splits)
  with h obtain d where c: "s0 = []" "s1 = ''1.0''" "s2 \<in> set [''instances'', ''images'', ''operations'']"
    "seg \<noteq> []" "path_unescape seg = Some d" "d \<noteq> []" "d \<noteq> ''.''" "d \<noteq> ''..''" "CHR ''/'' \<notin> set d"
    "CHR ''/'' \<notin> set seg"
    by (auto simp: has_allowed_detail_read_shape_def split: if_splits option.splits)
  from s c(1,2) have "p = ''/1.0/'' @ s2 @ ''/'' @ seg"
    by (auto simp: split_char_more split_char_one)
  with c show "detail_path p" unfolding detail_path_def by blast
next
  assume "detail_path p"
  then obtain coll seg d where p: "p = ''/1.0/'' @ coll @ ''/'' @ seg"
    and c: "coll \<in> set [''instances'', ''images'', ''operations'']" "CHR ''/'' \<notin> set seg"
    "path_unescape seg = Some d" "d \<notin> {[], ''.'', ''..''}" "CHR ''/'' \<notin> set d"
    unfolding detail_path_def by blast
  have nc: "CHR ''/'' \<notin> set coll" using c(1) by auto
  have "split_char CHR ''/'' p = [[], ''1.0'', coll, seg]"
    unfolding p split_char_more split_char_one using c(2) nc
    by (intro exI[of _ "''1.0/'' @ coll @ ''/'' @ seg"] exI[of _ "coll @ ''/'' @ seg"] exI[of _ seg] conjI) auto
  moreover have "seg \<noteq> []" "seg \<noteq> ''.''" "seg \<noteq> ''..''" using c(3,4) by auto
  ultimately show "has_allowed_detail_read_shape p"
    using c by (auto simp: has_allowed_detail_read_shape_def)
qed

lemma allowed_read_target:
  assumes "is_allowed_incus_read_path raw" and "CHR ''#'' \<notin> set raw"
  shows "\<exists>t. request_target raw = Some t \<and> confined_target t"
proof -
  obtain u where u: "parse_rooted_uri raw = Some u"
    using assms(1) by (auto simp: is_allowed_incus_read_path_def split: option.splits)
  let ?q = "if url_force_query u \<or> url_raw_query u \<noteq> [] then CHR ''?'' # url_raw_query u else []"
  have t: "request_target raw = Some (escaped_path u @ ?q)"
    by (rule request_target_no_fragment[OF assms(2) u])
  have a: "(let p = escaped_path u in
      if p = ''/1.0'' \<or> p = ''/1.0/instances'' then url_raw_query u = []
      else if p = ''/1.0/images''
        then url_raw_query u = [] \<or> is_recursion_one_query (parse_query (url_raw_query u))
      else if p = ''/1.0/operations'' then url_raw_query u = []
      else if url_raw_query u \<noteq> [] then False
      else has_allowed_detail_read_shape p)"
    using assms(1) by (simp add: is_allowed_incus_read_path_def u)
  then have "listing_path (escaped_path u) \<or> detail_path (escaped_path u)"
    unfolding listing_path_def detail_shape[symmetric] by (auto simp: Let_def split: if_splits)
  moreover have "url_raw_query u = [] \<or> (escaped_path u = ''/1.0/images''
      \<and> is_recursion_one_query (parse_query (url_raw_query u)))"
    using a by (simp add: Let_def split: if_splits)
  ultimately have "confined_target (escaped_path u @ ?q)"
    unfolding confined_target_def by (intro exI[of _ "escaped_path u"] exI[of _ ?q]) auto
  with t show ?thesis by blast
qed

lemma validate_None:
  "validate_proxy_request req = None \<longleftrightarrow>
     req_id req \<noteq> [] \<and> is_allowed_method (req_method req)
     \<and> (agent_path (req_path req)
        \<or> (req_method req = ''GET'' \<and> (req_path req = ''/1.0'' \<or> has_prefix (req_path req) ''/1.0/'')
           \<and> is_allowed_incus_read_path (req_path req)))"
proof -
  have m: "is_allowed_method (req_method req) \<Longrightarrow> req_method req \<noteq> []"
    by (auto simp: is_allowed_method_def)
  have p: "agent_path (req_path req) \<Longrightarrow> req_path req \<noteq> []"
    by (auto simp: agent_path_def has_prefix_def)
  have q: "req_path req = ''/1.0'' \<or> has_prefix (req_path req) ''/1.0/'' \<Longrightarrow> req_path req \<noteq> []"
    by (auto simp: has_prefix_def)
  have s: "req_path req = ''/agent/v1/state'' \<Longrightarrow> agent_path (req_path req)" by simp
  have "validate_proxy_request req = None \<longleftrightarrow>
     req_id req \<noteq> [] \<and> req_method req \<noteq> [] \<and> is_allowed_method (req_method req) \<and> req_path req \<noteq> []
     \<and> (req_path req = ''/agent/v1/state'' \<or> agent_path (req_path req)
        \<or> (\<not> (req_path req \<noteq> ''/1.0'' \<and> \<not> has_prefix (req_path req) ''/1.0/'')
           \<and> req_method req = ''GET'' \<and> is_allowed_incus_read_path (req_path req)))"
    unfolding validate_proxy_request_def agent_path_def no_error_iffs by simp
  with m p q s show ?thesis by blast
qed

text \<open>
  C6. A request that passes the gate and is not for the agent itself is a GET without side door:
  unless its path holds a hash sign, the HTTP request line the client then builds is one of the
  four listings (images with exactly one recursion parameter of value 1, else no query) or one
  instance, image or operation whose name segment, also when unescaped, is not empty, no dot
  segment and without a slash.
\<close>

theorem read_confined:
  assumes "validate_proxy_request req = None" and "\<not> agent_path (req_path req)"
    and "CHR ''#'' \<notin> set (req_path req)"
  shows "req_id req \<noteq> [] \<and> req_method req = ''GET''
    \<and> (\<exists>t. request_target (req_path req) = Some t \<and> confined_target t)"
  using assms allowed_read_target[of "req_path req"] by (auto simp: validate_None)

lemma read_confined_witness:
  "\<exists>t. request_target ''/1.0/instances/a%20b'' = Some t \<and> confined_target t"
proof -
  let ?r = "\<lparr>req_id = ''1'', req_method = ''GET'', req_path = ''/1.0/instances/a%20b'', req_body = None\<rparr>"
  have "validate_proxy_request ?r = None" by code_simp
  moreover have "\<not> agent_path (req_path ?r)" by code_simp
  moreover have "CHR ''#'' \<notin> set (req_path ?r)" by simp
  ultimately show ?thesis using read_confined[of ?r] by simp
qed

text \<open>
  The condition on the hash sign is needed: the gate takes it for a character of the name, the
  client for the start of a fragment, and the request line ends in a dot segment.
\<close>

lemma hash_escapes_confinement:
  "validate_proxy_request \<lparr>req_id = ''1'', req_method = ''GET'', req_path = ''/1.0/instances/..#x'',
      req_body = None\<rparr> = None
    \<and> request_target ''/1.0/instances/..#x'' = Some ''/1.0/instances/..''"
  by code_simp

text \<open>
  C31. The gate accepts exactly: a non-empty id, one of the five methods, and either an agent path
  or a GET of an allowed Incus read path. No other request gets a handler.
\<close>

theorem gate_characterization:
  "validate_proxy_request req = None \<longleftrightarrow>
     req_id req \<noteq> [] \<and> req_method req \<in> {''GET'', ''POST'', ''PUT'', ''PATCH'', ''DELETE''}
     \<and> (agent_path (req_path req)
        \<or> (req_method req = ''GET'' \<and> (req_path req = ''/1.0'' \<or> has_prefix (req_path req) ''/1.0/'')
           \<and> is_allowed_incus_read_path (req_path req)))"
  by (simp add: validate_None is_allowed_method_def)

end
