(* ===== verification/Go_Cidr.thy ===== *)
theory Go_Cidr
  imports Go_Json
begin

text \<open>
  \<^verbatim>\<open>net.ParseCIDR\<close>: the address half is \<^verbatim>\<open>netip.ParseAddr\<close>, dotted IPv4 without
  leading zeros or IPv6 with at most one ellipsis and an optional trailing IPv4, no zone; the
  mask half is a decimal number up to 32 or 128. An address is the list of its 4 or 16 bytes.
  Loops over the text are structural or bounded by the number of groups.
\<close>

subsection \<open>IPv4\<close>

text \<open>
  The loop of \<^verbatim>\<open>parseIPv4Fields\<close>: fields done (in reverse), value and number of digits of
  the current octet, whether the previous byte was a dot (or there is none).
\<close>

fun ipv4_fields :: "nat list \<Rightarrow> nat \<Rightarrow> nat \<Rightarrow> bool \<Rightarrow> string \<Rightarrow> nat list option" where
  "ipv4_fields acc val digs dot [] = (if length acc < 3 then None else Some (rev (val # acc)))"
| "ipv4_fields acc val digs dot (c # s) =
     (if is_digit c then
        (if digs = 1 \<and> val = 0 then None
         else let v = val * 10 + digit_val c
              in if 255 < v then None else ipv4_fields acc v (digs + 1) False s)
      else if c = CHR ''.'' then
        (if dot \<or> s = [] then None
         else if length acc = 3 then None
         else ipv4_fields (val # acc) 0 0 True s)
      else None)"

definition parse_ipv4 :: "string \<Rightarrow> nat list option" where
  [go_defs]: "parse_ipv4 s = ipv4_fields [] 0 0 True s"

subsection \<open>IPv6\<close>

text \<open>One hexadecimal group: its value, its digits and the rest. More than four digits fail.\<close>

definition hex_group :: "string \<Rightarrow> (nat \<times> nat \<times> string) option" where
  [go_defs]: "hex_group s =
     (let ds = takeWhile (\<lambda>c. hex_val c \<noteq> None) s
      in if ds = [] \<or> 4 < length ds then None
         else Some (foldl (\<lambda>n c. 16 * n + (case hex_val c of None \<Rightarrow> 0 | Some d \<Rightarrow> d)) 0 ds,
                    length ds, drop (length ds) s))"

text \<open>
  The loop of \<^verbatim>\<open>parseIPv6\<close>: groups left in the 16 bytes, bytes so far, position of the
  ellipsis, and the text. The result is the bytes, the ellipsis and the unread text.
\<close>

fun ipv6_groups ::
  "nat \<Rightarrow> nat list \<Rightarrow> nat option \<Rightarrow> string \<Rightarrow> (nat list \<times> nat option \<times> string) option" where
  "ipv6_groups 0 bs ell s = Some (bs, ell, s)"
| "ipv6_groups (Suc k) bs ell s =
     (case hex_group s of None \<Rightarrow> None
      | Some (acc, n, r) \<Rightarrow>
          if r \<noteq> [] \<and> hd r = CHR ''.'' then
            (if ell = None \<and> length bs \<noteq> 12 then None
             else if 16 < length bs + 4 then None
             else case parse_ipv4 s of None \<Rightarrow> None | Some v4 \<Rightarrow> Some (bs @ v4, ell, []))
          else
            (let bs' = bs @ [acc div 256, acc mod 256]
             in case r of [] \<Rightarrow> Some (bs', ell, [])
                | c # r1 \<Rightarrow>
                    if c \<noteq> CHR '':'' \<or> r1 = [] then None
                    else if hd r1 = CHR '':'' then
                      (if ell \<noteq> None then None
                       else if tl r1 = [] then Some (bs', Some (length bs'), [])
                       else ipv6_groups k bs' (Some (length bs')) (tl r1))
                    else ipv6_groups k bs' ell r1))"

definition expand_ellipsis :: "nat list \<Rightarrow> nat option \<Rightarrow> nat list option" where
  [go_defs]: "expand_ellipsis bs ell =
     (if length bs < 16 then
        (case ell of None \<Rightarrow> None
         | Some e \<Rightarrow> Some (take e bs @ replicate (16 - length bs) 0 @ drop e bs))
      else if ell \<noteq> None then None else Some bs)"

definition parse_ipv6 :: "string \<Rightarrow> nat list option" where
  [go_defs]: "parse_ipv6 s =
     (if take 2 s = ''::'' then
        (if drop 2 s = [] then Some (replicate 16 0)
         else case ipv6_groups 8 [] (Some 0) (drop 2 s) of
                Some (bs, ell, []) \<Rightarrow> expand_ellipsis bs ell
              | _ \<Rightarrow> None)
      else case ipv6_groups 8 [] None s of
             Some (bs, ell, []) \<Rightarrow> expand_ellipsis bs ell
           | _ \<Rightarrow> None)"

subsection \<open>Addresses and prefixes\<close>

text \<open>
  \<^verbatim>\<open>ParseAddr\<close> decides by the first of \<^verbatim>\<open>.\<close>, \<^verbatim>\<open>:\<close> and \<^verbatim>\<open>%\<close>. An address with a
  zone is refused by \<^verbatim>\<open>ParseCIDR\<close>, an empty zone by \<^verbatim>\<open>ParseAddr\<close>: no text with a
  percent sign gets through.
\<close>

definition parse_addr :: "string \<Rightarrow> nat list option" where
  [go_defs]: "parse_addr s =
     (case find (\<lambda>c. c = CHR ''.'' \<or> c = CHR '':'' \<or> c = CHR ''%'') s of
        None \<Rightarrow> None
      | Some c \<Rightarrow>
          if c = CHR ''.'' then parse_ipv4 s
          else if c = CHR '':'' then (if CHR ''%'' \<in> set s then None else parse_ipv6 s)
          else None)"

text \<open>\<^verbatim>\<open>dtoi\<close> on the whole mask: \<open>None\<close> unless it is all digits and below 0xFFFFFF.\<close>

definition parse_mask :: "string \<Rightarrow> nat option" where
  [go_defs]: "parse_mask s =
     (if s = [] \<or> \<not> list_all is_digit s then None
      else if 16777215 \<le> digits_val s then None else Some (digits_val s))"

definition parse_cidr :: "string \<Rightarrow> (nat list \<times> nat) option" where
  [go_defs]: "parse_cidr s =
     (case cut_char CHR ''/'' s of None \<Rightarrow> None
      | Some (a, m) \<Rightarrow>
          (case parse_addr a of None \<Rightarrow> None
           | Some ip \<Rightarrow>
               (case parse_mask m of None \<Rightarrow> None
                | Some n \<Rightarrow> if n \<le> 8 * length ip then Some (ip, n) else None)))"

subsection \<open>What is accepted\<close>

lemma ipv4_fields_length:
  "ipv4_fields acc val digs dot s = Some bs \<Longrightarrow> length acc \<le> 3 \<Longrightarrow> length bs = 4"
  by (induction acc val digs dot s rule: ipv4_fields.induct) (auto simp: Let_def split: if_splits)

lemma ipv4_fields_bytes:
  "ipv4_fields acc val digs dot s = Some bs \<Longrightarrow> val \<le> 255 \<Longrightarrow> list_all (\<lambda>b. b \<le> 255) acc \<Longrightarrow>
     list_all (\<lambda>b. b \<le> 255) bs"
  by (induction acc val digs dot s rule: ipv4_fields.induct) (auto simp: Let_def split: if_splits)

lemma parse_ipv4_length: "parse_ipv4 s = Some bs \<Longrightarrow> length bs = 4"
  by (auto simp: parse_ipv4_def dest: ipv4_fields_length)

lemma ipv6_groups_length:
  "ipv6_groups k bs ell s = Some (bs', ell', r) \<Longrightarrow> length bs + 2 * k \<le> 16 \<Longrightarrow>
     length bs' \<le> 16"
proof (induction k bs ell s arbitrary: bs' ell' r rule: ipv6_groups.induct)
  case (1 bs ell s)
  then show ?case by simp
next
  case (2 k bs ell s)
  then obtain acc n t where g: "hex_group s = Some (acc, n, t)" by (auto split: option.splits)
  let ?bs = "bs @ [acc div 256, acc mod 256]"
  show ?case
  proof (cases "t \<noteq> [] \<and> hd t = CHR ''.''")
    case True
    with "2.prems" g show ?thesis by (auto split: if_splits option.splits dest: parse_ipv4_length)
  next
    case False
    show ?thesis
    proof (cases t)
      case Nil
      with "2.prems" g show ?thesis by auto
    next
      case (Cons c t1)
      note IH = "2.IH"[OF g refl refl False refl Cons]
      have l: "length ?bs + 2 * k \<le> 16" using "2.prems"(2) by simp
      show ?thesis
      proof (cases "c = CHR '':'' \<and> t1 \<noteq> []")
        case True
        then have nc: "\<not> (c \<noteq> CHR '':'' \<or> t1 = [])" by simp
        show ?thesis
        proof (cases "hd t1 = CHR '':''")
          case True
          with "2.prems" g False Cons nc show ?thesis
            using IH(1)[OF nc True] l by (auto simp: Let_def split: if_splits)
        next
          case False
          with "2.prems" g \<open>\<not> (t \<noteq> [] \<and> hd t = CHR ''.'')\<close> Cons nc show ?thesis
            using IH(2)[OF nc False] l by (auto simp: Let_def split: if_splits)
        qed
      next
        case c: False
        with "2.prems" g False Cons show ?thesis by (auto simp: Let_def)
      qed
    qed
  qed
qed

lemma expand_ellipsis_length:
  "expand_ellipsis bs ell = Some bs' \<Longrightarrow> length bs \<le> 16 \<Longrightarrow> length bs' = 16"
  by (auto simp: expand_ellipsis_def split: option.splits if_splits)

lemma parse_ipv6_length: "parse_ipv6 s = Some bs \<Longrightarrow> length bs = 16"
  by (auto simp: parse_ipv6_def split: if_splits option.splits list.splits prod.splits
      dest!: ipv6_groups_length intro: expand_ellipsis_length)

lemma parse_addr_length: "parse_addr s = Some ip \<Longrightarrow> length ip = 4 \<or> length ip = 16"
  by (auto simp: parse_addr_def split: option.splits if_splits
      dest: parse_ipv4_length parse_ipv6_length)

lemma parse_cidr_bounds:
  "parse_cidr s = Some (ip, n) \<Longrightarrow>
     (length ip = 4 \<and> n \<le> 32 \<or> length ip = 16 \<and> n \<le> 128) \<and> CHR ''/'' \<in> set s"
  by (auto simp: parse_cidr_def split: option.splits prod.splits if_splits
      dest!: parse_addr_length cut_char_Some)

text \<open>Every byte of an accepted address prefix comes from a fixed alphabet.\<close>

definition is_addr_char :: "char \<Rightarrow> bool" where
  [go_defs]: "is_addr_char c \<longleftrightarrow> hex_val c \<noteq> None \<or> c = CHR ''.'' \<or> c = CHR '':'' "

lemma ipv4_fields_chars:
  "ipv4_fields acc val digs dot s = Some bs \<Longrightarrow> c \<in> set s \<Longrightarrow> is_digit c \<or> c = CHR ''.''"
  by (induction acc val digs dot s rule: ipv4_fields.induct) (auto simp: Let_def split: if_splits)

end
