(* ===== verification/Network_Apply.thy ===== *)
theory Network_Apply
  imports Go_Cidr Go_Json_Decode Go_Json_Encode
begin

text \<open>
  Package \<^verbatim>\<open>network\<close>, the applier: strict decoding, validation and planning of a network
  apply request. \<open>acceptable\<close> is the specification of a valid request, written as bounds and
  quantifiers instead of the code's early returns. Nothing here reaches the host.
\<close>

subsection \<open>Types\<close>

definition mode_dry_run :: string where [svc_defs]: "mode_dry_run = ''DRY_RUN''"
definition mode_apply :: string where [svc_defs]: "mode_apply = ''APPLY''"
definition status_validated :: string where [svc_defs]: "status_validated = ''VALIDATED''"
definition status_apply_planned :: string where [svc_defs]: "status_apply_planned = ''APPLY_PLANNED''"

definition max_peers :: nat where [svc_defs]: "max_peers = 256"
definition max_addresses :: nat where [svc_defs]: "max_addresses = 32"
definition max_allowed_ips :: nat where [svc_defs]: "max_allowed_ips = 64"
definition max_field_bytes :: nat where [svc_defs]: "max_field_bytes = 2 ^ 14"
definition max_peer_public_key :: nat where [svc_defs]: "max_peer_public_key = 64"
definition max_apply_body_bytes :: nat where [svc_defs]: "max_apply_body_bytes = 2 ^ 20"

record interface_spec =
  is_name :: string
  is_listen_port :: int
  is_addresses :: "string slice"

record peer_spec =
  ps_public_key :: string
  ps_preshared_key :: string
  ps_allowed_ips :: "string slice"

record routing_spec =
  rt_ipv4 :: bool
  rt_ipv6 :: bool

record apply_request =
  aq_mode :: string
  aq_interface :: interface_spec
  aq_peers :: "peer_spec slice"
  aq_routing :: routing_spec

record apply_interface_summary =
  as_name :: string
  as_listen_port :: int
  as_addresses :: "string list"

record apply_response =
  ar_mode :: string
  ar_status :: string
  ar_interface :: apply_interface_summary
  ar_peer_count :: nat
  ar_routing :: routing_spec
  ar_summary :: string

record apply_error =
  ae_code :: int
  ae_message :: string

definition new_apply_error :: "int \<Rightarrow> string \<Rightarrow> apply_error" where
  [svc_defs]: "new_apply_error status message = \<lparr>ae_code = status, ae_message = message\<rparr>"

text \<open>\<^verbatim>\<open>NewApplier\<close> (and \<^verbatim>\<open>NewDetector\<close>): a blank prefix is replaced.\<close>

definition applier_prefix :: "string \<Rightarrow> string" where
  [svc_defs]: "applier_prefix prefix = (if trim_space prefix = [] then ''anvilwg'' else prefix)"

subsection \<open>Decoding\<close>

definition zero_interface :: interface_spec where
  [svc_defs]: "zero_interface = \<lparr>is_name = [], is_listen_port = 0, is_addresses = Nil_Slice\<rparr>"

definition zero_peer_spec :: peer_spec where
  [svc_defs]: "zero_peer_spec =
     \<lparr>ps_public_key = [], ps_preshared_key = [], ps_allowed_ips = Nil_Slice\<rparr>"

definition zero_apply_request :: apply_request where
  [svc_defs]: "zero_apply_request =
     \<lparr>aq_mode = [], aq_interface = zero_interface, aq_peers = Nil_Slice,
      aq_routing = \<lparr>rt_ipv4 = False, rt_ipv6 = False\<rparr>\<rparr>"

definition interface_fields :: "interface_spec field_table" where
  [svc_defs]: "interface_fields =
     [(''name'', at_field is_name is_name_update dec_string),
      (''listenPort'', at_field is_listen_port is_listen_port_update dec_int),
      (''addresses'', at_field is_addresses is_addresses_update (dec_slice dec_string []))]"

definition peer_fields :: "peer_spec field_table" where
  [svc_defs]: "peer_fields =
     [(''publicKey'', at_field ps_public_key ps_public_key_update dec_string),
      (''presharedKey'', at_field ps_preshared_key ps_preshared_key_update dec_string),
      (''allowedIps'', at_field ps_allowed_ips ps_allowed_ips_update (dec_slice dec_string []))]"

definition routing_fields :: "routing_spec field_table" where
  [svc_defs]: "routing_fields =
     [(''ipv4Forwarding'', at_field rt_ipv4 rt_ipv4_update dec_bool),
      (''ipv6Forwarding'', at_field rt_ipv6 rt_ipv6_update dec_bool)]"

definition apply_fields :: "apply_request field_table" where
  [svc_defs]: "apply_fields =
     [(''mode'', at_field aq_mode aq_mode_update dec_string),
      (''interface'', at_field aq_interface aq_interface_update (dec_struct True interface_fields)),
      (''peers'', at_field aq_peers aq_peers_update
         (dec_slice (dec_struct True peer_fields) zero_peer_spec)),
      (''routing'', at_field aq_routing aq_routing_update (dec_struct True routing_fields))]"

subsection \<open>Validation\<close>

definition is_managed_interface_name :: "string \<Rightarrow> string \<Rightarrow> bool" where
  [svc_defs]: "is_managed_interface_name prefix name =
     (if name = [] \<or> \<not> has_prefix name prefix then False
      else let rest = drop (length prefix) name in rest \<noteq> [] \<and> list_all is_alnum rest)"

definition is_valid_cidr :: "string \<Rightarrow> bool" where
  [svc_defs]: "is_valid_cidr v = (case parse_cidr v of None \<Rightarrow> False | Some _ \<Rightarrow> True)"

fun check_addresses :: "string list \<Rightarrow> apply_error option" where
  "check_addresses [] = None"
| "check_addresses (a # as0) =
     (if max_field_bytes < length a
        then Some (new_apply_error 400 ''interface address is too long'')
      else if \<not> is_valid_cidr a
        then Some (new_apply_error 400 ''interface address is not a valid CIDR'')
      else check_addresses as0)"

definition validate_interface :: "string \<Rightarrow> interface_spec \<Rightarrow> apply_error option" where
  [svc_defs]: "validate_interface prefix spec =
     (if \<not> is_managed_interface_name prefix (is_name spec)
        then Some (new_apply_error 400 ''interface name is not Anvil-managed'')
      else if is_listen_port spec < 1 \<or> 65535 < is_listen_port spec
        then Some (new_apply_error 400 ''listenPort out of range'')
      else if max_addresses < length (slice_elems (is_addresses spec))
        then Some (new_apply_error 400 ''too many interface addresses'')
      else check_addresses (slice_elems (is_addresses spec)))"

definition peer_error :: "nat \<Rightarrow> string \<Rightarrow> apply_error" where
  [svc_defs]: "peer_error i what = new_apply_error 400 (''peer '' @ itoa (int i) @ what)"

fun check_allowed_ips :: "nat \<Rightarrow> string list \<Rightarrow> apply_error option" where
  "check_allowed_ips i [] = None"
| "check_allowed_ips i (c # cs) =
     (if max_field_bytes < length c then Some (peer_error i '' allowed IP is too long'')
      else if \<not> is_valid_cidr c then Some (peer_error i '' allowed IP is not a valid CIDR'')
      else check_allowed_ips i cs)"

text \<open>The loop over the peers: the index and the keys seen so far.\<close>

fun check_peers :: "nat \<Rightarrow> string list \<Rightarrow> peer_spec list \<Rightarrow> apply_error option" where
  "check_peers i seen [] = None"
| "check_peers i seen (p # ps) =
     (if ps_public_key p = [] then Some (peer_error i '' missing public key'')
      else if max_peer_public_key < length (ps_public_key p)
        then Some (peer_error i '' public key too long'')
      else if ps_public_key p \<in> set seen
        then Some (new_apply_error 400 ''duplicate peer public key'')
      else if max_allowed_ips < length (slice_elems (ps_allowed_ips p))
        then Some (peer_error i '' has too many allowed IPs'')
      else case check_allowed_ips i (slice_elems (ps_allowed_ips p)) of
             Some e \<Rightarrow> Some e
           | None \<Rightarrow> check_peers (Suc i) (ps_public_key p # seen) ps)"

definition validate_peers :: "peer_spec list \<Rightarrow> apply_error option" where
  [svc_defs]: "validate_peers peers =
     (if max_peers < length peers then Some (new_apply_error 400 ''too many peers'')
      else check_peers 0 [] peers)"

definition validate_request :: "string \<Rightarrow> apply_request \<Rightarrow> apply_error option" where
  [svc_defs]: "validate_request prefix req =
     (if aq_mode req \<noteq> mode_dry_run \<and> aq_mode req \<noteq> mode_apply
        then Some (new_apply_error 400 ''unsupported mode'')
      else case validate_interface prefix (aq_interface req) of
             Some e \<Rightarrow> Some e
           | None \<Rightarrow> validate_peers (slice_elems (aq_peers req)))"

definition validate_apply :: "string \<Rightarrow> raw_message \<Rightarrow> apply_error + apply_request" where
  [svc_defs]: "validate_apply prefix m =
     (let raw = (case m of None \<Rightarrow> [] | Some b \<Rightarrow> b)
      in if raw = [] then Inl (new_apply_error 400 ''missing request body'')
         else if max_apply_body_bytes < length raw
           then Inl (new_apply_error 400 ''request body too large'')
         else case decode_stream (dec_struct True apply_fields) raw zero_apply_request of
                ((req, Some (Unknown_Field k)), _) \<Rightarrow>
                  Inl (new_apply_error 400 ''request body contains an unknown field'')
              | ((req, Some _), _) \<Rightarrow> Inl (new_apply_error 400 ''request body is not valid JSON'')
              | ((req, None), again) \<Rightarrow>
                  if again then Inl (new_apply_error 400 ''request body must be a single object'')
                  else (case validate_request prefix req of Some e \<Rightarrow> Inl e | None \<Rightarrow> Inr req))"

subsection \<open>Planning\<close>

definition plan_of :: "apply_request \<Rightarrow> apply_response" where
  [svc_defs]: "plan_of req =
     (let peer_count = length (slice_elems (aq_peers req));
          name = is_name (aq_interface req);
          applying = (aq_mode req = mode_apply)
      in \<lparr>ar_mode = aq_mode req,
          ar_status = (if applying then status_apply_planned else status_validated),
          ar_interface =
            \<lparr>as_name = name, as_listen_port = is_listen_port (aq_interface req),
             as_addresses = slice_elems (is_addresses (aq_interface req))\<rparr>,
          ar_peer_count = peer_count,
          ar_routing = aq_routing req,
          ar_summary =
            (if applying
             then ''validated and planned '' @ name @ '' with '' @ itoa (int peer_count)
               @ '' peer(s); apply execution deferred to managed service''
             else ''validated '' @ name @ '' with '' @ itoa (int peer_count)
               @ '' peer(s); dry-run, no host mutation'')\<rparr>)"

text \<open>\<open>cancelled\<close> is whether the context is done when \<^verbatim>\<open>Apply\<close> is called.\<close>

definition apply_network :: "string \<Rightarrow> bool \<Rightarrow> raw_message \<Rightarrow> apply_error + apply_response" where
  [svc_defs]: "apply_network prefix cancelled raw =
     (if cancelled then Inl (new_apply_error 503 ''request cancelled'')
      else case validate_apply prefix raw of Inl e \<Rightarrow> Inl e | Inr req \<Rightarrow> Inr (plan_of req))"

definition enc_routing :: "routing_spec \<Rightarrow> string" where
  [svc_defs]: "enc_routing r = enc_object
     [(''ipv4Forwarding'', enc_bool (rt_ipv4 r)), (''ipv6Forwarding'', enc_bool (rt_ipv6 r))]"

definition enc_apply_response :: "apply_response \<Rightarrow> bytes" where
  [svc_defs]: "enc_apply_response r = enc_object
     [(''mode'', enc_string (ar_mode r)),
      (''status'', enc_string (ar_status r)),
      (''interface'', enc_object
         [(''name'', enc_string (as_name (ar_interface r))),
          (''listenPort'', itoa (as_listen_port (ar_interface r))),
          (''addresses'', enc_array (map enc_string (as_addresses (ar_interface r))))]),
      (''peerCount'', itoa (int (ar_peer_count r))),
      (''routing'', enc_routing (ar_routing r)),
      (''summary'', enc_string (ar_summary r))]"

subsection \<open>The specification of a valid request\<close>

definition field_cidr :: "string \<Rightarrow> bool" where
  "field_cidr s \<longleftrightarrow> length s \<le> 16384 \<and> parse_cidr s \<noteq> None"

definition acceptable_peer :: "peer_spec \<Rightarrow> bool" where
  "acceptable_peer p \<longleftrightarrow> ps_public_key p \<noteq> [] \<and> length (ps_public_key p) \<le> 64
     \<and> length (slice_elems (ps_allowed_ips p)) \<le> 64
     \<and> list_all field_cidr (slice_elems (ps_allowed_ips p))"

definition managed_name :: "string \<Rightarrow> string \<Rightarrow> bool" where
  "managed_name prefix name \<longleftrightarrow> (\<exists>rest. name = prefix @ rest \<and> rest \<noteq> [] \<and> list_all is_alnum rest)"

definition acceptable :: "string \<Rightarrow> apply_request \<Rightarrow> bool" where
  "acceptable prefix req \<longleftrightarrow> aq_mode req \<in> {''DRY_RUN'', ''APPLY''}
     \<and> managed_name prefix (is_name (aq_interface req))
     \<and> is_listen_port (aq_interface req) \<in> {1..65535}
     \<and> length (slice_elems (is_addresses (aq_interface req))) \<le> 32
     \<and> list_all field_cidr (slice_elems (is_addresses (aq_interface req)))
     \<and> length (slice_elems (aq_peers req)) \<le> 256
     \<and> list_all acceptable_peer (slice_elems (aq_peers req))
     \<and> distinct (map ps_public_key (slice_elems (aq_peers req)))"

lemma field_cidr_iff: "field_cidr s \<longleftrightarrow> \<not> max_field_bytes < length s \<and> is_valid_cidr s"
  by (auto simp: field_cidr_def max_field_bytes_def is_valid_cidr_def split: option.split)

lemma check_addresses_None: "check_addresses as0 = None \<longleftrightarrow> list_all field_cidr as0"
  by (induction as0) (auto simp: field_cidr_iff)

lemma check_allowed_ips_None: "check_allowed_ips i cs = None \<longleftrightarrow> list_all field_cidr cs"
  by (induction cs) (auto simp: field_cidr_iff)

lemma check_peers_None:
  "check_peers i seen ps = None \<longleftrightarrow> list_all acceptable_peer ps
     \<and> distinct (map ps_public_key ps) \<and> set (map ps_public_key ps) \<inter> set seen = {}"
proof (induction ps arbitrary: i seen)
  case (Cons p ps)
  have "check_peers i seen (p # ps) = None \<longleftrightarrow> acceptable_peer p \<and> ps_public_key p \<notin> set seen
      \<and> check_peers (Suc i) (ps_public_key p # seen) ps = None"
    unfolding check_peers.simps no_error_iffs check_allowed_ips_None acceptable_peer_def
      max_peer_public_key_def max_allowed_ips_def by auto
  then show ?case unfolding Cons.IH by auto
qed simp

lemma managed_name_iff: "is_managed_interface_name prefix name \<longleftrightarrow> managed_name prefix name"
  by (auto simp: is_managed_interface_name_def managed_name_def has_prefix_iff Let_def)

lemma validate_interface_None:
  "validate_interface prefix spec = None \<longleftrightarrow> managed_name prefix (is_name spec)
     \<and> is_listen_port spec \<in> {1..65535} \<and> length (slice_elems (is_addresses spec)) \<le> 32
     \<and> list_all field_cidr (slice_elems (is_addresses spec))"
  unfolding validate_interface_def no_error_iffs managed_name_iff max_addresses_def
    check_addresses_None by auto

lemma validate_request_None: "validate_request prefix req = None \<longleftrightarrow> acceptable prefix req"
  unfolding validate_request_def validate_peers_def no_error_iffs validate_interface_None
    check_peers_None acceptable_def mode_dry_run_def mode_apply_def max_peers_def
  by auto

text \<open>
  C30. The validation accepts exactly the requests of the specification: a known mode, a managed
  interface name, a port from 1 to 65535, at most 32 CIDR addresses, at most 256 peers with
  non-empty, bounded, pairwise different public keys and at most 64 CIDR allowed IPs each.
\<close>

theorem validation_characterization:
  "validate_request prefix req = None \<longleftrightarrow> acceptable prefix req"
  by (rule validate_request_None)

text \<open>
  An apply that succeeds answers with the plan of a request that was decoded from the body
  and satisfies the specification; its peer count, interface and status follow from it.
\<close>

lemma apply_success:
  assumes "apply_network prefix cancelled raw = Inr resp"
  shows "\<not> cancelled \<and> (\<exists>req. validate_apply prefix raw = Inr req \<and> acceptable prefix req \<and> resp = plan_of req
    \<and> ar_peer_count resp \<le> 256 \<and> managed_name prefix (as_name (ar_interface resp))
    \<and> ar_status resp = (if ar_mode resp = ''APPLY'' then ''APPLY_PLANNED'' else ''VALIDATED''))"
proof -
  obtain req where v: "validate_apply prefix raw = Inr req" and r: "resp = plan_of req" "\<not> cancelled"
    using assms by (auto simp: apply_network_def split: if_splits sum.splits)
  have "validate_request prefix req = None"
    using v by (auto simp: validate_apply_def Let_def split: if_splits option.splits prod.splits json_error.splits)
  then have a: "acceptable prefix req" by (simp add: validate_request_None)
  then have "ar_peer_count resp \<le> 256" "managed_name prefix (as_name (ar_interface resp))"
    by (simp_all add: r plan_of_def Let_def acceptable_def)
  moreover have "ar_status resp = (if ar_mode resp = ''APPLY'' then ''APPLY_PLANNED'' else ''VALIDATED'')"
    by (simp add: r plan_of_def Let_def mode_apply_def status_apply_planned_def status_validated_def)
  ultimately show ?thesis using v a r by blast
qed

definition sample_apply :: bytes where
  "sample_apply = ''{\"mode\":\"APPLY\",\"interface\":{\"name\":\"anvilwg0\",\"listenPort\":51820,\"addresses\":[\"10.42.0.1/24\"]},\"peers\":[{\"publicKey\":\"k\",\"presharedKey\":\"s\",\"allowedIps\":[\"fd00::2/128\"]}],\"routing\":{\"ipv4Forwarding\":true}}''"

definition sample_plan :: apply_response where
  "sample_plan = \<lparr>ar_mode = ''APPLY'', ar_status = ''APPLY_PLANNED'',
     ar_interface = \<lparr>as_name = ''anvilwg0'', as_listen_port = 51820, as_addresses = [''10.42.0.1/24'']\<rparr>,
     ar_peer_count = 1, ar_routing = \<lparr>rt_ipv4 = True, rt_ipv6 = False\<rparr>,
     ar_summary = ''validated and planned anvilwg0 with 1 peer(s); apply execution deferred to managed service''\<rparr>"

lemma apply_success_witness:
  "\<exists>req. validate_apply ''anvilwg'' (Some sample_apply) = Inr req \<and> acceptable ''anvilwg'' req
     \<and> sample_plan = plan_of req"
proof -
  have "apply_network ''anvilwg'' False (Some sample_apply) = Inr sample_plan" by code_simp
  from apply_success[OF this] show ?thesis by blast
qed

subsection \<open>Errors\<close>

definition fixed_apply_messages :: "string list" where
  "fixed_apply_messages =
     [''request cancelled'', ''missing request body'', ''request body too large'',
      ''request body is not valid JSON'', ''request body contains an unknown field'',
      ''request body must be a single object'', ''unsupported mode'',
      ''interface name is not Anvil-managed'', ''listenPort out of range'',
      ''too many interface addresses'', ''interface address is too long'',
      ''interface address is not a valid CIDR'', ''too many peers'', ''duplicate peer public key'']"

definition peer_messages :: "string list" where
  "peer_messages =
     ['' missing public key'', '' public key too long'', '' has too many allowed IPs'',
      '' allowed IP is too long'', '' allowed IP is not a valid CIDR'']"

definition safe_apply_error :: "apply_error \<Rightarrow> bool" where
  "safe_apply_error e \<longleftrightarrow> ae_code e \<in> {400, 503} \<and>
     (ae_message e \<in> set fixed_apply_messages
      \<or> (\<exists>i < 256. \<exists>what \<in> set peer_messages. ae_message e = ''peer '' @ itoa (int i) @ what))"

lemma safe_fixed_apply:
  "m \<in> set fixed_apply_messages \<Longrightarrow> c = 400 \<or> c = 503 \<Longrightarrow> safe_apply_error (new_apply_error c m)"
  by (auto simp: safe_apply_error_def new_apply_error_def)

lemma safe_peer_error:
  "i < 256 \<Longrightarrow> what \<in> set peer_messages \<Longrightarrow> safe_apply_error (peer_error i what)"
  by (auto simp: safe_apply_error_def peer_error_def new_apply_error_def)

lemma safe_addresses: "check_addresses as0 = Some e \<Longrightarrow> safe_apply_error e"
  by (induction as0) (auto simp: fixed_apply_messages_def intro!: safe_fixed_apply split: if_splits)

lemma safe_allowed_ips: "check_allowed_ips i cs = Some e \<Longrightarrow> i < 256 \<Longrightarrow> safe_apply_error e"
  by (induction cs) (auto simp: peer_messages_def intro!: safe_peer_error split: if_splits)

lemma safe_check_peers:
  "check_peers i seen ps = Some e \<Longrightarrow> i + length ps \<le> 256 \<Longrightarrow> safe_apply_error e"
proof (induction ps arbitrary: i seen)
  case (Cons p ps)
  have i: "i < 256" using Cons.prems(2) by simp
  have pe: "safe_apply_error (peer_error i what)" if "what \<in> set peer_messages" for what
    using i that by (rule safe_peer_error)
  have msgs: "'' missing public key'' \<in> set peer_messages" "'' public key too long'' \<in> set peer_messages"
    "'' has too many allowed IPs'' \<in> set peer_messages"
    by (simp_all add: peer_messages_def)
  have dup: "safe_apply_error (new_apply_error 400 ''duplicate peer public key'')"
    by (rule safe_fixed_apply) (simp_all add: fixed_apply_messages_def)
  have ips: "safe_apply_error e'" if "check_allowed_ips i (slice_elems (ps_allowed_ips p)) = Some e'" for e'
    using that i by (rule safe_allowed_ips)
  have rest: "safe_apply_error e" if "check_peers (Suc i) (ps_public_key p # seen) ps = Some e"
    using Cons.IH[OF that] Cons.prems(2) by simp
  show ?case
    using Cons.prems(1) pe[OF msgs(1)] pe[OF msgs(2)] pe[OF msgs(3)] dup ips rest
    unfolding check_peers.simps by (simp split: if_split_asm option.split_asm)
qed simp

lemma safe_validate_interface: "validate_interface prefix spec = Some e \<Longrightarrow> safe_apply_error e"
  using safe_addresses[of "slice_elems (is_addresses spec)" e]
  by (auto simp: validate_interface_def fixed_apply_messages_def intro!: safe_fixed_apply
      split: if_splits)

lemma safe_validate_peers: "validate_peers peers = Some e \<Longrightarrow> safe_apply_error e"
  using safe_check_peers[of 0 "[]" peers e]
  by (auto simp: validate_peers_def max_peers_def fixed_apply_messages_def intro!: safe_fixed_apply
      split: if_splits)

lemma safe_validate: "validate_request prefix req = Some e \<Longrightarrow> safe_apply_error e"
  using safe_validate_interface[of prefix "aq_interface req" e]
    safe_validate_peers[of "slice_elems (aq_peers req)" e]
  by (auto simp: validate_request_def fixed_apply_messages_def intro!: safe_fixed_apply
      split: if_splits option.splits)

text \<open>
  C33. Every error of an apply has status 400 or 503 and one of a fixed list of messages, up to
  the index of a peer below 256: no submitted value can be in it.
\<close>

theorem apply_errors_safe:
  assumes "apply_network prefix cancelled raw = Inl e"
  shows "safe_apply_error e"
proof (cases "validate_apply prefix raw")
  case (Inr req)
  with assms have "cancelled" "e = new_apply_error 503 ''request cancelled''"
    by (auto simp: apply_network_def split: if_splits)
  then show ?thesis by (auto simp: fixed_apply_messages_def intro!: safe_fixed_apply)
next
  case (Inl e')
  have "safe_apply_error e'"
    using Inl safe_validate[of prefix _ e']
    by (auto simp: validate_apply_def Let_def fixed_apply_messages_def intro!: safe_fixed_apply
        split: if_splits option.splits prod.splits json_error.splits)
  moreover have "e = e' \<or> e = new_apply_error 503 ''request cancelled''"
    using assms Inl by (auto simp: apply_network_def split: if_splits)
  ultimately show ?thesis by (auto simp: fixed_apply_messages_def intro!: safe_fixed_apply)
qed

lemma apply_errors_safe_witness:
  "safe_apply_error (new_apply_error 400 ''request body is not valid JSON'')"
proof -
  have "apply_network ''anvilwg'' False (Some ''{'') = Inl (new_apply_error 400 ''request body is not valid JSON'')"
    by code_simp
  then show ?thesis by (rule apply_errors_safe)
qed

end
