(* ===== verification/Network_Parsers.thy ===== *)
theory Network_Parsers
  imports Go_Json_Decode
begin

text \<open>
  Package \<^verbatim>\<open>network\<close>, parsers: the output of \<^verbatim>\<open>wg show all dump\<close> and of
  \<^verbatim>\<open>ip -json addr\<close>. The lemmas show what is reported (managed names only, each once), that
  the secret fields of the documented format never influence the report, and that a printed list
  of interfaces is read back.
\<close>

subsection \<open>Types\<close>

text \<open>A handshake is the Unix time in seconds of \<^verbatim>\<open>LatestHandshakeAt\<close>; \<open>None\<close> is nil.\<close>

record peer =
  peer_public_key :: string
  peer_handshake :: "int option"
  peer_rx :: int
  peer_tx :: int

record managed_interface =
  mi_name :: string
  mi_status :: string
  mi_public_key :: string
  mi_listen_port :: int
  mi_addresses :: "string list"
  mi_peers :: "peer list"

record address_entry =
  ae_status :: string
  ae_addresses :: "string list"

subsection \<open>The WireGuard dump\<close>

definition parse_int_or_zero :: "string \<Rightarrow> int" where
  [svc_defs]: "parse_int_or_zero v = (case parse_int64 (trim_space v) of None \<Rightarrow> 0 | Some n \<Rightarrow> n)"

definition parse_peer :: "string list \<Rightarrow> peer" where
  [svc_defs]: "parse_peer cols =
     (let handshake = parse_int_or_zero (cols ! 6)
      in \<lparr>peer_public_key = cols ! 2,
          peer_handshake = (if handshake > 0 then Some handshake else None),
          peer_rx = parse_int_or_zero (cols ! 7),
          peer_tx = parse_int_or_zero (cols ! 8)\<rparr>)"

text \<open>The loop's state: the interfaces by name, and the names in order of appearance.\<close>

record dump_state =
  ds_interfaces :: "managed_interface go_map"
  ds_order :: "string list"

definition interface_of :: "string list \<Rightarrow> managed_interface" where
  [svc_defs]: "interface_of cols =
     \<lparr>mi_name = cols ! 0, mi_status = [], mi_public_key = cols ! 2,
      mi_listen_port = parse_int_or_zero (cols ! 3), mi_addresses = [], mi_peers = []\<rparr>"

definition placeholder :: "string \<Rightarrow> managed_interface" where
  [svc_defs]: "placeholder name =
     \<lparr>mi_name = name, mi_status = [], mi_public_key = [], mi_listen_port = 0, mi_addresses = [],
      mi_peers = []\<rparr>"

definition note_name :: "string \<Rightarrow> dump_state \<Rightarrow> string list" where
  [svc_defs]: "note_name name st =
     (if map_of (ds_interfaces st) name = None then ds_order st @ [name] else ds_order st)"

definition dump_fields :: "string \<Rightarrow> string list \<Rightarrow> dump_state \<Rightarrow> dump_state" where
  [svc_defs]: "dump_fields prefix cols st =
     (if length cols < 2 then st
      else if \<not> has_prefix (cols ! 0) prefix then st
      else if 5 \<le> length cols \<and> cols ! 1 \<noteq> ''peer'' then
        \<lparr>ds_interfaces = AList.update (cols ! 0) (interface_of cols) (ds_interfaces st),
         ds_order = note_name (cols ! 0) st\<rparr>
      else if 10 \<le> length cols \<and> cols ! 1 = ''peer'' then
        (let iface = (case map_of (ds_interfaces st) (cols ! 0) of
                        None \<Rightarrow> placeholder (cols ! 0) | Some i \<Rightarrow> i)
         in \<lparr>ds_interfaces = AList.update (cols ! 0)
               (iface\<lparr>mi_peers := mi_peers iface @ [parse_peer cols]\<rparr>) (ds_interfaces st),
             ds_order = note_name (cols ! 0) st\<rparr>)
      else st)"

definition tab_char :: char where [svc_defs]: "tab_char = CHR 0x09"
definition newline_char :: char where [svc_defs]: "newline_char = CHR 0x0A"

definition dump_line :: "string \<Rightarrow> string \<Rightarrow> dump_state \<Rightarrow> dump_state" where
  [svc_defs]: "dump_line prefix line st =
     (if line = [] then st else dump_fields prefix (split_char tab_char line) st)"

definition dump_init :: dump_state where
  [svc_defs]: "dump_init = \<lparr>ds_interfaces = [], ds_order = []\<rparr>"

definition parse_wireguard_dump :: "string \<Rightarrow> string \<Rightarrow> managed_interface list" where
  [svc_defs]: "parse_wireguard_dump prefix data =
     (let st = fold (dump_line prefix) (split_char newline_char data) dump_init
      in map (\<lambda>name. the (map_of (ds_interfaces st) name)) (ds_order st))"

subsection \<open>The address table\<close>

text \<open>
  \<^verbatim>\<open>strings.ToUpper\<close>: bytes when the text is ASCII; otherwise the Unicode tables, which are
  the parameter \<open>upper\<close>.
\<close>

definition to_upper :: "(string \<Rightarrow> string) \<Rightarrow> string \<Rightarrow> string" where
  [svc_defs]: "to_upper upper s =
     (if list_all (\<lambda>c. byte c < 128) s then map to_upper_ascii s else upper s)"

record addr_info =
  ai_local :: string
  ai_prefix_len :: int
  ai_family :: string

record ip_entry =
  ip_if_name :: string
  ip_oper_state :: string
  ip_addr_info :: "addr_info slice"

definition addr_info_fields :: "addr_info field_table" where
  [svc_defs]: "addr_info_fields =
     [(''local'', at_field ai_local ai_local_update dec_string),
      (''prefixlen'', at_field ai_prefix_len ai_prefix_len_update dec_int),
      (''family'', at_field ai_family ai_family_update dec_string)]"

definition zero_addr_info :: addr_info where
  [svc_defs]: "zero_addr_info = \<lparr>ai_local = [], ai_prefix_len = 0, ai_family = []\<rparr>"

definition ip_entry_fields :: "ip_entry field_table" where
  [svc_defs]: "ip_entry_fields =
     [(''ifname'', at_field ip_if_name ip_if_name_update dec_string),
      (''operstate'', at_field ip_oper_state ip_oper_state_update dec_string),
      (''addr_info'', at_field ip_addr_info ip_addr_info_update
         (dec_slice (dec_struct False addr_info_fields) zero_addr_info))]"

definition zero_ip_entry :: ip_entry where
  [svc_defs]: "zero_ip_entry =
     \<lparr>ip_if_name = [], ip_oper_state = [], ip_addr_info = Nil_Slice\<rparr>"

definition add_entry ::
  "(string \<Rightarrow> string) \<Rightarrow> string \<Rightarrow> ip_entry \<Rightarrow> address_entry go_map \<Rightarrow> address_entry go_map" where
  [svc_defs]: "add_entry upper prefix entry table =
     (if \<not> has_prefix (ip_if_name entry) prefix then table
      else
        (let addresses = map (\<lambda>a. ai_local a @ ''/'' @ itoa (ai_prefix_len a))
                           (slice_elems (ip_addr_info entry));
             status = to_upper upper (ip_oper_state entry)
         in AList.update (ip_if_name entry)
              \<lparr>ae_status = (if status = [] then ''UNKNOWN'' else status), ae_addresses = addresses\<rparr>
              table))"

text \<open>\<open>None\<close> is the parse error, whose text no caller looks at.\<close>

definition parse_ip_addr_json ::
  "(string \<Rightarrow> string) \<Rightarrow> string \<Rightarrow> string \<Rightarrow> address_entry go_map option" where
  [svc_defs]: "parse_ip_addr_json upper data prefix =
     (case unmarshal (dec_slice (dec_struct False ip_entry_fields) zero_ip_entry) data Nil_Slice of
        (entries, Some e) \<Rightarrow> None
      | (entries, None) \<Rightarrow> Some (fold (add_entry upper prefix) (slice_elems entries) []))"

subsection \<open>The state of the loop\<close>

text \<open>Order and map agree, names are distinct and managed, and every interface has its name.\<close>

definition dump_ok :: "string \<Rightarrow> dump_state \<Rightarrow> bool" where
  "dump_ok prefix st \<longleftrightarrow> distinct (ds_order st) \<and> set (ds_order st) = dom (map_of (ds_interfaces st))
     \<and> (\<forall>n i. map_of (ds_interfaces st) n = Some i \<longrightarrow> mi_name i = n \<and> has_prefix n prefix
          \<and> mi_status i = [] \<and> mi_addresses i = [])"

lemma dump_ok_init: "dump_ok prefix dump_init"
  by (simp add: dump_ok_def dump_init_def)

lemma dump_ok_update:
  assumes "dump_ok prefix st" and "mi_name i = n" and "has_prefix n prefix" and "mi_status i = []"
    and "mi_addresses i = []"
  shows "dump_ok prefix \<lparr>ds_interfaces = AList.update n i (ds_interfaces st), ds_order = note_name n st\<rparr>"
proof -
  have d: "dom (map_of (AList.update n i (ds_interfaces st))) = insert n (dom (map_of (ds_interfaces st)))"
    by (simp add: update_conv')
  have "distinct (note_name n st) \<and> set (note_name n st) = insert n (dom (map_of (ds_interfaces st)))"
    using assms(1) by (auto simp: dump_ok_def note_name_def)
  with assms d show ?thesis
    unfolding dump_ok_def by (auto simp: update_conv' split: if_splits)
qed

lemma dump_ok_fields:
  assumes "dump_ok prefix st"
  shows "dump_ok prefix (dump_fields prefix cols st)"
proof -
  have i: "mi_name (interface_of cols) = cols ! 0" "mi_status (interface_of cols) = []"
    "mi_addresses (interface_of cols) = []"
    by (simp_all add: interface_of_def)
  let ?i = "case map_of (ds_interfaces st) (cols ! 0) of None \<Rightarrow> placeholder (cols ! 0) | Some i \<Rightarrow> i"
  have p: "mi_name ?i = cols ! 0" "mi_status ?i = []" "mi_addresses ?i = []"
    using assms by (auto simp: dump_ok_def placeholder_def split: option.split)
  show ?thesis
    using assms i p by (auto simp: dump_fields_def Let_def intro!: dump_ok_update)
qed

lemma dump_ok_fold: "dump_ok prefix st \<Longrightarrow> dump_ok prefix (fold (dump_line prefix) lines st)"
  by (induction lines arbitrary: st) (auto simp: dump_line_def dump_ok_fields)

lemma parse_dump_ok:
  obtains st where "dump_ok prefix st"
    "parse_wireguard_dump prefix data = map (\<lambda>name. the (map_of (ds_interfaces st) name)) (ds_order st)"
  using dump_ok_fold[OF dump_ok_init] by (auto simp: parse_wireguard_dump_def Let_def)

lemma map_name_order:
  assumes "dump_ok prefix st"
  shows "map mi_name (map (\<lambda>name. the (map_of (ds_interfaces st) name)) (ds_order st)) = ds_order st"
proof (rule nth_equalityI)
  fix k assume "k < length (map mi_name (map (\<lambda>name. the (map_of (ds_interfaces st) name)) (ds_order st)))"
  then have k: "k < length (ds_order st)" by simp
  then have "ds_order st ! k \<in> dom (map_of (ds_interfaces st))"
    using assms by (auto simp: dump_ok_def)
  then obtain i where "map_of (ds_interfaces st) (ds_order st ! k) = Some i" by blast
  with assms k show "map mi_name (map (\<lambda>name. the (map_of (ds_interfaces st) name)) (ds_order st)) ! k
      = ds_order st ! k"
    by (simp add: dump_ok_def)
qed simp

lemma parse_dump_managed:
  "distinct (map mi_name (parse_wireguard_dump prefix data))
   \<and> list_all (\<lambda>i. has_prefix (mi_name i) prefix \<and> mi_status i = [] \<and> mi_addresses i = [])
       (parse_wireguard_dump prefix data)"
proof -
  obtain st where ok: "dump_ok prefix st"
    and p: "parse_wireguard_dump prefix data = map (\<lambda>name. the (map_of (ds_interfaces st) name)) (ds_order st)"
    by (rule parse_dump_ok)
  have "list_all (\<lambda>i. has_prefix (mi_name i) prefix \<and> mi_status i = [] \<and> mi_addresses i = [])
      (map (\<lambda>name. the (map_of (ds_interfaces st) name)) (ds_order st))"
    using ok by (fastforce simp: dump_ok_def list_all_iff)
  moreover have "distinct (ds_order st)" using ok by (simp add: dump_ok_def)
  ultimately show ?thesis unfolding p map_name_order[OF ok] by simp
qed

text \<open>
  The dump parser reports managed interfaces only, each name once, with no status and no
  address of its own making.
\<close>

lemma dump_reports_managed:
  "distinct (map mi_name (parse_wireguard_dump prefix data))
   \<and> list_all (\<lambda>i. has_prefix (mi_name i) prefix \<and> mi_status i = [] \<and> mi_addresses i = [])
       (parse_wireguard_dump prefix data)"
  by (rule parse_dump_managed)

subsection \<open>Secrets\<close>

text \<open>
  Two lines that differ at most in a secret column of the documented format: the private key of an
  interface line, the preshared key of a peer line.
\<close>

definition secret_column :: "string list \<Rightarrow> nat" where
  "secret_column cols = (if cols ! 1 = ''peer'' then 3 else 1)"

definition same_public :: "string \<Rightarrow> string \<Rightarrow> bool" where
  "same_public a b \<longleftrightarrow> a = b
     \<or> (\<exists>s. 5 \<le> length (split_char tab_char a)
          \<and> split_char tab_char b = (split_char tab_char a)[secret_column (split_char tab_char a) := s]
          \<and> (secret_column (split_char tab_char a) = 1 \<longrightarrow> s \<noteq> ''peer''))"

lemma split_long: "5 \<le> length (split_char c s) \<Longrightarrow> s \<noteq> []"
  by auto

lemma same_public_line:
  assumes "same_public a b"
  shows "dump_line prefix a st = dump_line prefix b st"
proof (cases "a = b")
  case False
  define cols where "cols = split_char tab_char a"
  obtain s where l: "5 \<le> length cols" and b: "split_char tab_char b = cols[secret_column cols := s]"
    and s: "secret_column cols = 1 \<longrightarrow> s \<noteq> ''peer''"
    using assms False unfolding same_public_def cols_def by blast
  have ne: "a \<noteq> []" "b \<noteq> []"
    using split_long[of tab_char a] split_long[of tab_char b] l b by (auto simp: cols_def)
  have "dump_fields prefix (cols[secret_column cols := s]) st = dump_fields prefix cols st"
  proof (cases "cols ! 1 = ''peer''")
    case True
    then show ?thesis using l
      by (simp add: secret_column_def dump_fields_def parse_peer_def note_name_def nth_list_update
          cong: option.case_cong)
  next
    case False
    then have "s \<noteq> ''peer''" using s by (simp add: secret_column_def)
    with False l show ?thesis
      by (simp add: secret_column_def dump_fields_def interface_of_def note_name_def nth_list_update)
  qed
  with ne b show ?thesis by (simp add: dump_line_def cols_def)
qed simp

lemma same_public_dump:
  assumes "list_all2 same_public (split_char newline_char data) (split_char newline_char data')"
  shows "parse_wireguard_dump prefix data = parse_wireguard_dump prefix data'"
proof -
  have "fold (dump_line prefix) ls st = fold (dump_line prefix) ls' st" if "list_all2 same_public ls ls'"
    for ls ls' st
    using that
  proof (induction arbitrary: st rule: list_all2_induct)
    case (Cons a as b bs)
    then show ?case using same_public_line[of a b prefix st] by simp
  qed simp
  with assms show ?thesis by (simp add: parse_wireguard_dump_def)
qed

text \<open>
  What is reported does not depend on the secrets: two dumps in the documented format whose
  lines differ only in private keys and preshared keys give the same report.
\<close>

lemma dump_hides_secrets:
  assumes "list_all2 same_public (split_char newline_char data) (split_char newline_char data')"
  shows "parse_wireguard_dump prefix data = parse_wireguard_dump prefix data'"
  using assms by (rule same_public_dump)

definition sample_dump :: "string \<Rightarrow> string \<Rightarrow> string" where
  "sample_dump private psk = join_with [newline_char]
     [join_with [tab_char] [''anvilwg0'', private, ''pub'', ''51820'', ''off''],
      join_with [tab_char] [''anvilwg0'', ''peer'', ''peerpub'', psk, ''1.2.3.4:5'', ''10.0.0.2/32'',
         ''1700000000'', ''10'', ''20'', ''off'']]"

lemma sample_dumps_same:
  "list_all2 same_public (split_char newline_char (sample_dump ''k1'' ''p1''))
     (split_char newline_char (sample_dump ''k2'' ''p2''))"
proof -
  let ?i = "\<lambda>k. join_with [tab_char] [''anvilwg0'', k, ''pub'', ''51820'', ''off'']"
  let ?p = "\<lambda>k. join_with [tab_char] [''anvilwg0'', ''peer'', ''peerpub'', k, ''1.2.3.4:5'', ''10.0.0.2/32'',
         ''1700000000'', ''10'', ''20'', ''off'']"
  have s: "split_char newline_char (sample_dump ''k1'' ''p1'') = [?i ''k1'', ?p ''p1'']"
    "split_char newline_char (sample_dump ''k2'' ''p2'') = [?i ''k2'', ?p ''p2'']"
    by code_simp+
  have "same_public (?i ''k1'') (?i ''k2'')"
    unfolding same_public_def by (intro disjI2 exI[of _ "''k2''"]) code_simp
  moreover have "same_public (?p ''p1'') (?p ''p2'')"
    unfolding same_public_def by (intro disjI2 exI[of _ "''p2''"]) code_simp
  ultimately show ?thesis unfolding s by simp
qed

lemma dump_hides_secrets_witness:
  "parse_wireguard_dump ''anvilwg'' (sample_dump ''k1'' ''p1'')
   = parse_wireguard_dump ''anvilwg'' (sample_dump ''k2'' ''p2'')"
  using sample_dumps_same by (rule dump_hides_secrets)

text \<open>
  The format documented by wg(8) for \<^verbatim>\<open>show all dump\<close> has no literal \<^verbatim>\<open>peer\<close>
  column: a peer line there is the interface name, the peer's public key, its preshared key, and
  six more columns. Such a line is taken for an interface line, and the preshared key is reported
  as a public key.
\<close>

lemma real_peer_line_leaks_psk:
  "map mi_public_key (parse_wireguard_dump ''anvilwg'' (join_with [newline_char]
     [join_with [tab_char] [''anvilwg0'', ''PRIVATE'', ''PUBLIC'', ''51820'', ''off''],
      join_with [tab_char] [''anvilwg0'', ''PEERPUB'', ''PSK'', ''1.2.3.4:5'', ''10.0.0.2/32'',
         ''1700000000'', ''10'', ''20'', ''off'']])) = [''PSK'']"
  by code_simp

text \<open>A peer that comes before its interface line is lost, whatever the placeholder is for.\<close>

lemma early_peer_is_lost:
  "map (\<lambda>i. length (mi_peers i)) (parse_wireguard_dump ''anvilwg'' (join_with [newline_char]
     [join_with [tab_char] [''anvilwg0'', ''peer'', ''peerpub'', ''psk'', ''1.2.3.4:5'', ''10.0.0.2/32'',
         ''1700000000'', ''10'', ''20'', ''off''],
      join_with [tab_char] [''anvilwg0'', ''k'', ''pub'', ''51820'', ''off'']])) = [0]"
  by code_simp

subsection \<open>Round trip\<close>

text \<open>The documented format, written out; the secrets are placeholders.\<close>

definition print_interface :: "managed_interface \<Rightarrow> string" where
  "print_interface i = join_with [tab_char]
     [mi_name i, ''(hidden)'', mi_public_key i, itoa (mi_listen_port i), ''off'']"

definition print_peer :: "string \<Rightarrow> peer \<Rightarrow> string" where
  "print_peer name p = join_with [tab_char]
     [name, ''peer'', peer_public_key p, ''(none)'', ''(none)'', ''(none)'',
      itoa (case peer_handshake p of None \<Rightarrow> 0 | Some h \<Rightarrow> h), itoa (peer_rx p), itoa (peer_tx p), ''off'']"

definition print_block :: "managed_interface \<Rightarrow> string list" where
  "print_block i = print_interface i # map (print_peer (mi_name i)) (mi_peers i)"

definition print_dump :: "managed_interface list \<Rightarrow> string" where
  "print_dump is = join_with [newline_char] (concat (map print_block is))"

definition int64 :: "int \<Rightarrow> bool" where
  "int64 n \<longleftrightarrow> - (2 ^ 63) \<le> n \<and> n < 2 ^ 63"

definition clean :: "string \<Rightarrow> bool" where
  "clean s \<longleftrightarrow> tab_char \<notin> set s \<and> newline_char \<notin> set s"

definition peer_printable :: "peer \<Rightarrow> bool" where
  "peer_printable p \<longleftrightarrow> clean (peer_public_key p) \<and> int64 (peer_rx p) \<and> int64 (peer_tx p)
     \<and> (case peer_handshake p of None \<Rightarrow> True | Some h \<Rightarrow> 0 < h \<and> int64 h)"

definition printable :: "string \<Rightarrow> managed_interface \<Rightarrow> bool" where
  "printable prefix i \<longleftrightarrow> has_prefix (mi_name i) prefix \<and> clean (mi_name i) \<and> clean (mi_public_key i)
     \<and> int64 (mi_listen_port i) \<and> mi_status i = [] \<and> mi_addresses i = []
     \<and> list_all peer_printable (mi_peers i)"

lemma clean_itoa: "clean (itoa n)"
  using itoa_chars by (fastforce simp: clean_def is_digit_def tab_char_def newline_char_def)

lemma clean_literals [simp]:
  "clean ''(hidden)''" "clean ''(none)''" "clean ''off''" "clean ''peer''"
  by (simp_all add: clean_def tab_char_def newline_char_def)

lemma split_clean:
  "ps \<noteq> [] \<Longrightarrow> list_all clean ps \<Longrightarrow> split_char tab_char (join_with [tab_char] ps) = ps"
  by (rule split_join) (auto simp: list_all_iff clean_def)

lemma newline_join: "list_all clean ps \<Longrightarrow> newline_char \<notin> set (join_with [tab_char] ps)"
  by (induction ps rule: induct_list012) (auto simp: clean_def tab_char_def newline_char_def)

subsection \<open>The format of the wg tool\<close>

text \<open>
  What wg(8) documents for \<^verbatim>\<open>show all dump\<close>, which is not what the code takes it to be: the columns of a
  line after the interface name are private key, public key, port and mark for an interface, and public
  key, preshared key, endpoint, allowed addresses, handshake, counters and keepalive for a peer.
\<close>

record wg_peer =
  wp_public :: string
  wp_preshared :: string
  wp_endpoint :: string
  wp_allowed_ips :: string
  wp_handshake :: string
  wp_rx :: string
  wp_tx :: string
  wp_keepalive :: string

record wg_interface =
  wi_name :: string
  wi_private :: string
  wi_public :: string
  wi_port :: string
  wi_mark :: string
  wi_peers :: "wg_peer list"

definition wg_columns :: "wg_interface \<Rightarrow> string list" where
  "wg_columns i = [wi_name i, wi_private i, wi_public i, wi_port i, wi_mark i]"

definition wg_peer_columns :: "string \<Rightarrow> wg_peer \<Rightarrow> string list" where
  "wg_peer_columns name p = [name, wp_public p, wp_preshared p, wp_endpoint p, wp_allowed_ips p, wp_handshake p,
     wp_rx p, wp_tx p, wp_keepalive p]"

definition wg_lines :: "wg_interface \<Rightarrow> string list" where
  "wg_lines i = map (join_with [tab_char]) (wg_columns i # map (wg_peer_columns (wi_name i)) (wi_peers i))"

definition wg_dump :: "wg_interface list \<Rightarrow> bytes" where
  "wg_dump is = join_with [newline_char] (concat (map wg_lines is) @ [[]])"

text \<open>No column holds a tab or a newline, and no key is the word the parser looks for.\<close>

definition wg_ok :: "wg_interface \<Rightarrow> bool" where
  "wg_ok i \<longleftrightarrow> list_all clean (wg_columns i) \<and> wi_private i \<noteq> ''peer''
     \<and> list_all (\<lambda>p. list_all clean (wg_peer_columns (wi_name i) p) \<and> wp_public p \<noteq> ''peer'') (wi_peers i)"

text \<open>Two configurations that differ in the private key at most, and dumps of such.\<close>

definition rekeyed :: "wg_interface \<Rightarrow> wg_interface \<Rightarrow> bool" where
  "rekeyed i j \<longleftrightarrow> wg_ok i \<and> wg_ok j \<and> j = i\<lparr>wi_private := wi_private j\<rparr>"

definition rekeyed_dumps :: "bytes \<Rightarrow> bytes \<Rightarrow> bool" where
  "rekeyed_dumps a b \<longleftrightarrow> (\<exists>is js. list_all2 rekeyed is js \<and> a = wg_dump is \<and> b = wg_dump js)"

lemma wg_split: "wg_ok i \<Longrightarrow> split_char tab_char (join_with [tab_char] (wg_columns i)) = wg_columns i"
  by (rule split_clean) (simp_all add: wg_ok_def wg_columns_def)

lemma wg_peer_split:
  "wg_ok i \<Longrightarrow> p \<in> set (wi_peers i) \<Longrightarrow>
     split_char tab_char (join_with [tab_char] (wg_peer_columns (wi_name i) p)) = wg_peer_columns (wi_name i) p"
  by (rule split_clean) (auto simp: wg_ok_def list_all_iff wg_peer_columns_def)

lemma wg_dump_lines: "list_all wg_ok is \<Longrightarrow> split_char newline_char (wg_dump is) = concat (map wg_lines is) @ [[]]"
  unfolding wg_dump_def by (rule split_join) (auto simp: wg_lines_def list_all_iff wg_ok_def newline_join)

lemma rekeyed_lines:
  assumes "rekeyed i j"
  shows "list_all2 same_public (wg_lines i) (wg_lines j)"
proof -
  have ok: "wg_ok i" "wg_ok j" and j: "j = i\<lparr>wi_private := wi_private j\<rparr>" using assms by (auto simp: rekeyed_def)
  have "wi_peers j = wi_peers i" "wi_name j = wi_name i" by (subst j, simp)+
  moreover have "same_public (join_with [tab_char] (wg_columns i)) (join_with [tab_char] (wg_columns j))"
  proof -
    have c: "wg_columns j = (wg_columns i)[1 := wi_private j]" by (subst j) (simp add: wg_columns_def)
    have "secret_column (wg_columns i) = 1" "wi_private j \<noteq> ''peer''" "5 \<le> length (wg_columns i)"
      using ok by (simp_all add: wg_ok_def secret_column_def wg_columns_def)
    with c show ?thesis unfolding same_public_def wg_split[OF ok(1)] wg_split[OF ok(2)] by metis
  qed
  ultimately show ?thesis by (simp add: wg_lines_def list_all2_same same_public_def)
qed

lemma rekeyed_same:
  assumes "rekeyed_dumps a b"
  shows "list_all2 same_public (split_char newline_char a) (split_char newline_char b)"
proof -
  obtain xs js where k: "list_all2 rekeyed xs js" "a = wg_dump xs" "b = wg_dump js" using assms by (auto simp: rekeyed_dumps_def)
  from k(1) have ok: "list_all wg_ok xs" "list_all wg_ok js" by (induction rule: list_all2_induct) (auto simp: rekeyed_def)
  from k(1) have "list_all2 same_public (concat (map wg_lines xs)) (concat (map wg_lines js))"
    by (induction rule: list_all2_induct) (auto intro: list_all2_appendI rekeyed_lines)
  then show ?thesis
    unfolding k(2,3) wg_dump_lines[OF ok(1)] wg_dump_lines[OF ok(2)] by (intro list_all2_appendI) (simp_all add: same_public_def)
qed

text \<open>
  In this format the preshared key of the last peer of an interface is reported as the public key of the
  interface, whatever the keys are.
\<close>

lemma wg_preshared_key_reported:
  assumes "wg_ok i" and "has_prefix (wi_name i) prefix" and "wi_peers i = ps @ [p]"
  shows "parse_wireguard_dump prefix (wg_dump [i]) =
    [\<lparr>mi_name = wi_name i, mi_status = [], mi_public_key = wp_preshared p,
      mi_listen_port = parse_int_or_zero (wp_endpoint p), mi_addresses = [], mi_peers = []\<rparr>]"
proof -
  define known where "known = (\<lambda>x. \<lparr>ds_interfaces = [(wi_name i, x)], ds_order = [wi_name i]\<rparr>)"
  have line: "dump_line prefix (join_with [tab_char] cols) st = known (interface_of cols)"
    if "split_char tab_char (join_with [tab_char] cols) = cols" "cols = wi_name i # k # rest" "3 \<le> length rest" "k \<noteq> ''peer''"
      "st = dump_init \<or> (\<exists>x. st = known x)" for cols k rest st
  proof -
    have "join_with [tab_char] cols \<noteq> []" using that(1,2) by auto
    moreover have "dump_fields prefix cols st = known (interface_of cols)"
      using that(2-5) assms(2) by (auto simp: dump_fields_def dump_init_def known_def note_name_def)
    ultimately show ?thesis using that(1) by (simp add: dump_line_def)
  qed
  have first: "dump_line prefix (join_with [tab_char] (wg_columns i)) dump_init = known (interface_of (wg_columns i))"
    by (rule line[OF wg_split[OF assms(1)], of "wi_private i" "[wi_public i, wi_port i, wi_mark i]"])
       (use assms(1) in \<open>simp_all add: wg_columns_def wg_ok_def\<close>)
  have step: "dump_line prefix (join_with [tab_char] (wg_peer_columns (wi_name i) q)) (known x)
      = known (interface_of (wg_peer_columns (wi_name i) q))" if "q \<in> set (wi_peers i)" for q x
    by (rule line[OF wg_peer_split[OF assms(1) that], of "wp_public q" "[wp_preshared q, wp_endpoint q, wp_allowed_ips q,
          wp_handshake q, wp_rx q, wp_tx q, wp_keepalive q]"])
       (use assms(1) that in \<open>auto simp: wg_peer_columns_def wg_ok_def list_all_iff\<close>)
  have "\<exists>x. fold (dump_line prefix) (map (join_with [tab_char]) (map (wg_peer_columns (wi_name i)) qs)) (known y) = known x"
    if "set qs \<subseteq> set (wi_peers i)" for qs y
    using that by (induction qs arbitrary: y) (auto simp: step)
  then obtain x where "fold (dump_line prefix) (map (join_with [tab_char]) (map (wg_peer_columns (wi_name i)) ps))
      (known (interface_of (wg_columns i))) = known x"
    using assms(3) by (metis Un_upper1 set_append)
  then have "fold (dump_line prefix) (wg_lines i @ [[]]) dump_init = known (interface_of (wg_peer_columns (wi_name i) p))"
    using first step[of p] assms(3) by (simp add: wg_lines_def dump_line_def)
  moreover have "split_char newline_char (wg_dump [i]) = wg_lines i @ [[]]" using wg_dump_lines[of "[i]"] assms(1) by simp
  ultimately show ?thesis
    by (simp add: parse_wireguard_dump_def known_def interface_of_def wg_peer_columns_def)
qed

subsection \<open>The round trip of the documented format\<close>

lemma parse_int_itoa: "int64 n \<Longrightarrow> parse_int_or_zero (itoa n) = n"
  by (simp add: parse_int_or_zero_def trim_space_itoa parse_int64_itoa int64_def)

lemma print_interface_line:
  assumes "printable prefix i"
  shows "dump_line prefix (print_interface i) st =
    \<lparr>ds_interfaces = AList.update (mi_name i) (i\<lparr>mi_peers := []\<rparr>) (ds_interfaces st),
     ds_order = note_name (mi_name i) st\<rparr>"
proof -
  let ?c = "[mi_name i, ''(hidden)'', mi_public_key i, itoa (mi_listen_port i), ''off'']"
  have s: "split_char tab_char (print_interface i) = ?c"
    unfolding print_interface_def using assms by (intro split_clean) (auto simp: printable_def clean_itoa)
  then have ne: "print_interface i \<noteq> []" by auto
  have "interface_of ?c = i\<lparr>mi_peers := []\<rparr>"
    using assms by (simp add: interface_of_def printable_def parse_int_itoa)
  with assms show ?thesis
    by (simp add: dump_line_def ne s dump_fields_def printable_def)
qed

lemma print_peer_line:
  assumes "clean name" and "has_prefix name prefix" and "peer_printable p"
    and "map_of (ds_interfaces st) name = Some i"
  shows "dump_line prefix (print_peer name p) st =
    \<lparr>ds_interfaces = AList.update name (i\<lparr>mi_peers := mi_peers i @ [p]\<rparr>) (ds_interfaces st),
     ds_order = ds_order st\<rparr>"
proof -
  let ?c = "[name, ''peer'', peer_public_key p, ''(none)'', ''(none)'', ''(none)'',
      itoa (case peer_handshake p of None \<Rightarrow> 0 | Some h \<Rightarrow> h), itoa (peer_rx p), itoa (peer_tx p), ''off'']"
  have s: "split_char tab_char (print_peer name p) = ?c"
    unfolding print_peer_def using assms by (intro split_clean) (auto simp: peer_printable_def clean_itoa)
  then have ne: "print_peer name p \<noteq> []" by auto
  have h: "parse_int_or_zero (itoa (case peer_handshake p of None \<Rightarrow> 0 | Some h \<Rightarrow> h))
      = (case peer_handshake p of None \<Rightarrow> 0 | Some h \<Rightarrow> h)"
    using assms(3) by (intro parse_int_itoa) (auto simp: peer_printable_def int64_def split: option.splits)
  have "parse_peer ?c = p"
    using assms(3) h
    by (auto simp: parse_peer_def peer_printable_def parse_int_itoa Let_def split: option.splits)
  with assms show ?thesis
    by (simp add: dump_line_def ne s dump_fields_def note_name_def Let_def)
qed

text \<open>Reading one block into a state that does not know the name yet.\<close>

lemma print_peers_fold:
  assumes "clean name" and "has_prefix name prefix" and "list_all peer_printable ps"
    and "map_of (ds_interfaces st) name = Some i"
  shows "\<exists>st'. fold (dump_line prefix) (map (print_peer name) ps) st = st' \<and> ds_order st' = ds_order st
    \<and> map_of (ds_interfaces st') = (map_of (ds_interfaces st))(name \<mapsto> i\<lparr>mi_peers := mi_peers i @ ps\<rparr>)"
  using assms(3,4)
proof (induction ps arbitrary: st i)
  case Nil
  then show ?case by (auto simp: fun_eq_iff)
next
  case (Cons p ps)
  let ?i = "i\<lparr>mi_peers := mi_peers i @ [p]\<rparr>"
  let ?st = "\<lparr>ds_interfaces = AList.update name ?i (ds_interfaces st), ds_order = ds_order st\<rparr>"
  have "dump_line prefix (print_peer name p) st = ?st"
    using Cons.prems by (intro print_peer_line[OF assms(1,2)]) simp_all
  moreover have "map_of (ds_interfaces ?st) name = Some ?i" by (simp add: update_conv')
  ultimately show ?case
    using Cons.IH[of ?st ?i] Cons.prems by (auto simp: update_conv' fun_eq_iff)
qed

lemma print_block_fold:
  assumes "printable prefix i" and "mi_name i \<notin> dom (map_of (ds_interfaces st))"
  shows "\<exists>st'. fold (dump_line prefix) (print_block i) st = st'
    \<and> ds_order st' = ds_order st @ [mi_name i]
    \<and> map_of (ds_interfaces st') = (map_of (ds_interfaces st))(mi_name i \<mapsto> i)"
proof -
  let ?st = "\<lparr>ds_interfaces = AList.update (mi_name i) (i\<lparr>mi_peers := []\<rparr>) (ds_interfaces st),
     ds_order = note_name (mi_name i) st\<rparr>"
  have l: "dump_line prefix (print_interface i) st = ?st" by (rule print_interface_line[OF assms(1)])
  have "map_of (ds_interfaces ?st) (mi_name i) = Some (i\<lparr>mi_peers := []\<rparr>)" by (simp add: update_conv')
  from print_peers_fold[OF _ _ _ this, of prefix "mi_peers i"] assms(1)
  obtain st' where "fold (dump_line prefix) (map (print_peer (mi_name i)) (mi_peers i)) ?st = st'"
    "ds_order st' = note_name (mi_name i) st"
    "map_of (ds_interfaces st') = (map_of (ds_interfaces st))(mi_name i \<mapsto> i)"
    by (auto simp: printable_def update_conv')
  moreover have "note_name (mi_name i) st = ds_order st @ [mi_name i]"
    using assms(2) by (simp add: note_name_def domIff)
  ultimately show ?thesis using l by (simp add: print_block_def)
qed

lemma print_blocks_fold:
  assumes "list_all (printable prefix) is" and "distinct (map mi_name is)"
    and "set (map mi_name is) \<inter> dom (map_of (ds_interfaces st)) = {}"
  shows "\<exists>st'. fold (dump_line prefix) (concat (map print_block is)) st = st'
    \<and> ds_order st' = ds_order st @ map mi_name is
    \<and> map_of (ds_interfaces st') = map_of (ds_interfaces st) ++ map_of (map (\<lambda>i. (mi_name i, i)) is)"
  using assms
proof (induction "is" arbitrary: st)
  case (Cons i "is")
  obtain st' where s: "fold (dump_line prefix) (print_block i) st = st'"
    "ds_order st' = ds_order st @ [mi_name i]"
    "map_of (ds_interfaces st') = (map_of (ds_interfaces st))(mi_name i \<mapsto> i)"
    using print_block_fold[of prefix i st] Cons.prems by auto
  have "set (map mi_name is) \<inter> dom (map_of (ds_interfaces st')) = {}"
    unfolding s(3) using Cons.prems by auto
  with Cons.IH[of st'] Cons.prems obtain st'' where
    "fold (dump_line prefix) (concat (map print_block is)) st' = st''"
    "ds_order st'' = ds_order st' @ map mi_name is"
    "map_of (ds_interfaces st'') = map_of (ds_interfaces st') ++ map_of (map (\<lambda>i. (mi_name i, i)) is)"
    by auto
  moreover have "mi_name i \<notin> dom (map_of (map (\<lambda>i. (mi_name i, i)) is))"
    using Cons.prems(2) by (simp add: dom_map_of_conv_image_fst image_image)
  then have "(map_of (ds_interfaces st))(mi_name i \<mapsto> i) ++ map_of (map (\<lambda>i. (mi_name i, i)) is)
      = map_of (ds_interfaces st) ++ map_of (map (\<lambda>i. (mi_name i, i)) (i # is))"
    by (auto simp: map_add_def fun_eq_iff split: option.split)
  ultimately show ?case using s by (auto simp: fun_eq_iff map_add_def split: option.split)
qed simp

lemma print_block_newline:
  assumes "printable prefix i" and "l \<in> set (print_block i)"
  shows "newline_char \<notin> set l"
proof -
  have "newline_char \<notin> set (print_interface i)"
    unfolding print_interface_def
    by (rule newline_join) (use assms(1) in \<open>simp add: printable_def clean_itoa\<close>)
  moreover have "newline_char \<notin> set (print_peer (mi_name i) p)" if "p \<in> set (mi_peers i)" for p
    unfolding print_peer_def
    by (rule newline_join)
       (use assms(1) that in \<open>simp add: printable_def list_all_iff peer_printable_def clean_itoa\<close>)
  ultimately show ?thesis using assms(2) by (auto simp: print_block_def)
qed

text \<open>
  C29. A list of managed interfaces with distinct names, written in the documented format, is read
  back exactly: public keys, ports, peers with their handshake times and counters, in order.
\<close>

theorem dump_roundtrip:
  assumes "list_all (printable prefix) is" and "distinct (map mi_name is)" and "is \<noteq> []"
  shows "parse_wireguard_dump prefix (print_dump is) = is"
proof -
  have "concat (map print_block is) \<noteq> []" using assms(3) by (cases "is") (auto simp: print_block_def)
  then have s: "split_char newline_char (print_dump is) = concat (map print_block is)"
    unfolding print_dump_def
    by (rule split_join) (use assms(1) print_block_newline in \<open>auto simp: list_all_iff\<close>)
  obtain st where st: "fold (dump_line prefix) (concat (map print_block is)) dump_init = st"
    "ds_order st = map mi_name is" "map_of (ds_interfaces st) = map_of (map (\<lambda>i. (mi_name i, i)) is)"
    using print_blocks_fold[OF assms(1,2), of dump_init] by (auto simp: dump_init_def)
  have "map_of (map (\<lambda>i. (mi_name i, i)) is) (mi_name i) = Some i" if "i \<in> set is" for i
    using that assms(2) by (intro map_of_is_SomeI) (simp_all add: comp_def)
  then have "map (\<lambda>name. the (map_of (ds_interfaces st) name)) (ds_order st) = is"
    unfolding st(2,3) by (simp add: comp_def map_idI)
  then show ?thesis by (simp add: parse_wireguard_dump_def s st(1))
qed

definition sample_interfaces :: "managed_interface list" where
  "sample_interfaces =
     [\<lparr>mi_name = ''anvilwg0'', mi_status = [], mi_public_key = ''pub'', mi_listen_port = 51820,
       mi_addresses = [], mi_peers =
         [\<lparr>peer_public_key = ''p1'', peer_handshake = Some 1700000000, peer_rx = 10, peer_tx = 20\<rparr>,
          \<lparr>peer_public_key = ''p2'', peer_handshake = None, peer_rx = 0, peer_tx = 0\<rparr>]\<rparr>,
      \<lparr>mi_name = ''anvilwg1'', mi_status = [], mi_public_key = ''pub1'', mi_listen_port = 51821,
       mi_addresses = [], mi_peers = []\<rparr>]"

lemma dump_roundtrip_witness:
  "parse_wireguard_dump ''anvilwg'' (print_dump sample_interfaces) = sample_interfaces"
  by (rule dump_roundtrip) code_simp+

end
