(* ===== verification/Go_Time.thy ===== *)
theory Go_Time
  imports Go_Strings
begin

text \<open>
  Instants of package \<^verbatim>\<open>time\<close> in UTC, their text in RFC 3339 with nanoseconds
  (\<^verbatim>\<open>Time.MarshalJSON\<close>) and the reading of that text (the strict parser behind
  \<^verbatim>\<open>Time.UnmarshalJSON\<close>). The calendar is the proleptic Gregorian one: days are counted
  from 0000-01-01, and the year of a day is found from an estimate that is off by at most one. The
  main result is that a written instant is read back.
\<close>

subsection \<open>The calendar\<close>

text \<open>Seconds since 1970-01-01T00:00:00Z and nanoseconds.\<close>

record instant =
  in_secs :: int
  in_nanos :: nat

definition leap_year :: "int \<Rightarrow> bool" where
  [go_defs]: "leap_year y \<longleftrightarrow> y mod 4 = 0 \<and> (y mod 100 \<noteq> 0 \<or> y mod 400 = 0)"

definition days_before_year :: "int \<Rightarrow> int" where
  [go_defs]: "days_before_year y =
     365 * y + (y + 3) div 4 - (y + 99) div 100 + (y + 399) div 400"

definition year_of_day :: "int \<Rightarrow> int" where
  [go_defs]: "year_of_day d =
     (let y = (400 * d) div 146097
      in if days_before_year (y + 1) \<le> d then y + 1
         else if d < days_before_year y then y - 1 else y)"

definition month_lengths :: "int \<Rightarrow> int list" where
  [go_defs]: "month_lengths y =
     [31, if leap_year y then 29 else 28, 31, 30, 31, 30, 31, 31, 30, 31, 30, 31]"

text \<open>The month (from 1) and the day (from 1) of a day of the year (from 0).\<close>

fun month_walk :: "int list \<Rightarrow> int \<Rightarrow> nat \<times> int" where
  "month_walk [] yd = (1, yd + 1)"
| "month_walk (n # ns) yd =
     (if yd < n then (1, yd + 1) else (let (m, d) = month_walk ns (yd - n) in (Suc m, d)))"

definition date_of_day :: "int \<Rightarrow> int \<times> nat \<times> int" where
  [go_defs]: "date_of_day d =
     (let y = year_of_day d in (y, month_walk (month_lengths y) (d - days_before_year y)))"

definition day_of_date :: "int \<Rightarrow> nat \<Rightarrow> int \<Rightarrow> int" where
  [go_defs]: "day_of_date y m d =
     days_before_year y + sum_list (take (m - 1) (month_lengths y)) + d - 1"

text \<open>Days from 0000-01-01 to 1970-01-01.\<close>

definition unix_epoch_day :: int where
  [go_defs]: "unix_epoch_day = 719528"

lemma div_bounds: "0 < k \<Longrightarrow> k * (x div k) \<le> x \<and> x < k * (x div k) + k" for k x :: int
  using mult_div_mod_eq[of k x] pos_mod_bound[of k x] pos_mod_sign[of k x] by linarith

text \<open>The count of multiples grows exactly at a multiple.\<close>

lemma div_step:
  fixes k y :: int
  assumes "0 < k"
  shows "(y + k) div k = (y + (k - 1)) div k + (if y mod k = 0 then 1 else 0)"
proof -
  define q r where "q = y div k" and "r = y mod k"
  have y: "y = r + k * q" by (simp add: q_def r_def)
  have r: "0 \<le> r" "r < k" using assms by (simp_all add: r_def)
  have "(y + k) div k = q + 1" using assms by (simp add: q_def div_add_self2)
  moreover have "(y + (k - 1)) div k = q + (r + (k - 1)) div k"
  proof -
    have e: "y + (k - 1) = (r + (k - 1)) + k * q" by (simp add: y)
    have "((r + (k - 1)) + k * q) div k = q + (r + (k - 1)) div k"
      using assms by (intro div_mult_self2) simp
    with e show ?thesis by (simp only:)
  qed
  moreover have "(r + (k - 1)) div k = (if r = 0 then 0 else 1)"
  proof (cases "r = 0")
    case False
    have "(r - 1 + k) div k = (r - 1) div k + 1" using assms by (simp add: div_add_self2)
    moreover have "(r - 1) div k = 0" using False r by (intro div_pos_pos_trivial) auto
    ultimately show ?thesis using False by (simp add: algebra_simps)
  qed (use assms in \<open>simp add: div_pos_pos_trivial\<close>)
  ultimately show ?thesis by (simp add: r_def[symmetric])
qed

lemma days_before_year_bounds:
  "146097 * y - 396 \<le> 400 * days_before_year y \<and> 400 * days_before_year y \<le> 146097 * y + 699"
proof -
  define a b c where "a = (y + 3) div 4" and "b = (y + 99) div 100" and "c = (y + 399) div 400"
  have "4 * a \<le> y + 3 \<and> y + 3 < 4 * a + 4" unfolding a_def using div_bounds[of 4] by simp
  moreover have "100 * b \<le> y + 99 \<and> y + 99 < 100 * b + 100" unfolding b_def using div_bounds[of 100] by simp
  moreover have "400 * c \<le> y + 399 \<and> y + 399 < 400 * c + 400" unfolding c_def using div_bounds[of 400] by simp
  moreover have "days_before_year y = 365 * y + a - b + c"
    by (simp add: days_before_year_def a_def b_def c_def)
  ultimately show ?thesis by linarith
qed

lemma year_of_day_bounds:
  "days_before_year (year_of_day d) \<le> d \<and> d < days_before_year (year_of_day d + 1)"
proof -
  define y where "y = (400 * d) div 146097"
  have y: "146097 * y \<le> 400 * d" "400 * d < 146097 * y + 146097" unfolding y_def using div_bounds[of 146097 "400 * d"] by simp_all
  have "days_before_year (y - 1) \<le> d" using days_before_year_bounds[of "y - 1", THEN conjunct2] y(1) unfolding right_diff_distrib by linarith
  moreover have "d < days_before_year (y + 2)" using days_before_year_bounds[of "y + 2", THEN conjunct1] y(2) unfolding distrib_left by linarith
  ultimately show ?thesis
    unfolding year_of_day_def Let_def y_def[symmetric] by (auto simp: add.commute[of y 2])
qed

lemma sum_month_lengths: "sum_list (month_lengths y) = (if leap_year y then 366 else 365)"
  by (simp add: month_lengths_def)

lemma leap_count:
  "(r \<longrightarrow> q) \<Longrightarrow> (q \<longrightarrow> p) \<Longrightarrow>
     (if p then 1 else 0) - (if q then 1 else 0) + (if r then 1 else 0)
     = (if p \<and> (\<not> q \<or> r) then 1 else (0 :: int))"
  by (cases p; cases q; cases r) simp_all

lemma days_of_year: "days_before_year (y + 1) = days_before_year y + sum_list (month_lengths y)"
proof -
  define a b c where "a = (y + 3) div 4" and "b = (y + 99) div 100" and "c = (y + 399) div 400"
  have a: "(y + 1 + 3) div 4 = a + (if y mod 4 = 0 then 1 else 0)"
    using div_step[of 4 y] by (simp add: a_def add.assoc)
  have b: "(y + 1 + 99) div 100 = b + (if y mod 100 = 0 then 1 else 0)"
    using div_step[of 100 y] by (simp add: b_def add.assoc)
  have c: "(y + 1 + 399) div 400 = c + (if y mod 400 = 0 then 1 else 0)"
    using div_step[of 400 y] by (simp add: c_def add.assoc)
  have d: "days_before_year y = 365 * y + a - b + c"
    by (simp add: days_before_year_def a_def b_def c_def)
  have "(4 :: int) dvd 100" "(100 :: int) dvd 400" by simp_all
  then have m: "y mod 400 = 0 \<longrightarrow> y mod 100 = 0" "y mod 100 = 0 \<longrightarrow> y mod 4 = 0"
    unfolding mod_eq_0_iff_dvd by (blast intro: dvd_trans)+
  have "days_before_year (y + 1) = days_before_year y + 365 + (if y mod 4 = 0 then 1 else 0)
      - (if y mod 100 = 0 then 1 else 0) + (if y mod 400 = 0 then 1 else 0)"
    unfolding days_before_year_def[of "y + 1"] a b c d by simp
  also have "\<dots> = days_before_year y + 365 + (if leap_year y then 1 else 0)"
    using leap_count[OF m] unfolding leap_year_def by linarith
  also have "\<dots> = days_before_year y + sum_list (month_lengths y)" by (simp add: sum_month_lengths)
  finally show ?thesis .
qed

lemma month_walk_inverse:
  "month_walk ns yd = (m, d) \<Longrightarrow> 1 \<le> m \<and> sum_list (take (m - 1) ns) + d - 1 = yd"
proof (induction ns arbitrary: yd m d)
  case (Cons n ns)
  show ?case
  proof (cases "yd < n")
    case False
    obtain m' d' where w: "month_walk ns (yd - n) = (m', d')" by fastforce
    from Cons.IH[OF w] have "1 \<le> m'" "sum_list (take (m' - 1) ns) + d' - 1 = yd - n" by auto
    moreover have "m = Suc m'" "d = d'" using Cons.prems False w by auto
    ultimately show ?thesis by (cases m') auto
  qed (use Cons.prems in auto)
qed auto

lemma month_walk_range:
  "0 \<le> yd \<Longrightarrow> yd < sum_list ns \<Longrightarrow> month_walk ns yd = (m, d) \<Longrightarrow>
     1 \<le> m \<and> m \<le> length ns \<and> 1 \<le> d \<and> d \<le> ns ! (m - 1)"
proof (induction ns arbitrary: yd m d)
  case (Cons n ns)
  show ?case
  proof (cases "yd < n")
    case False
    obtain m' d' where w: "month_walk ns (yd - n) = (m', d')" by fastforce
    have "1 \<le> m' \<and> m' \<le> length ns \<and> 1 \<le> d' \<and> d' \<le> ns ! (m' - 1)"
      by (rule Cons.IH[OF _ _ w]) (use Cons.prems False in auto)
    moreover have "m = Suc m'" "d = d'" using Cons.prems False w by auto
    ultimately show ?thesis by (cases m') auto
  qed (use Cons.prems in auto)
qed simp

lemma date_of_day_inverse:
  assumes "date_of_day d = (y, m, dd)"
  shows "day_of_date y m dd = d" and "1 \<le> m" and "m \<le> 12" and "1 \<le> dd"
    and "dd \<le> month_lengths y ! (m - 1)"
proof -
  have y: "y = year_of_day d" and w: "month_walk (month_lengths y) (d - days_before_year y) = (m, dd)"
    using assms by (auto simp: date_of_day_def Let_def)
  have "0 \<le> d - days_before_year y" "d - days_before_year y < sum_list (month_lengths y)"
    using year_of_day_bounds[of d] days_of_year[of y] by (simp_all add: y)
  from month_walk_range[OF this w]
  show "1 \<le> m" "m \<le> 12" "1 \<le> dd" "dd \<le> month_lengths y ! (m - 1)"
    by (simp_all add: month_lengths_def)
  show "day_of_date y m dd = d" using month_walk_inverse[OF w] by (simp add: day_of_date_def)
qed

subsection \<open>Text\<close>

text \<open>The \<open>w\<close> lowest decimal digits of a number.\<close>

fun fixed_digits :: "nat \<Rightarrow> nat \<Rightarrow> string" where
  "fixed_digits 0 n = []"
| "fixed_digits (Suc w) n = fixed_digits w (n div 10) @ [digit_char (n mod 10)]"

lemma length_fixed_digits [simp]: "length (fixed_digits w n) = w"
  by (induction w arbitrary: n) auto

lemma fixed_digits_digits [simp]: "list_all is_digit (fixed_digits w n)"
  by (induction w arbitrary: n) (auto simp: is_digit_def)

lemma digits_val_fixed: "digits_val (fixed_digits w n) = n mod 10 ^ w"
proof (induction w arbitrary: n)
  case (Suc w)
  have "digit_val (digit_char (n mod 10)) = n mod 10" by (simp add: digit_val_def)
  with Suc show ?case by (simp add: mod_mult2_eq)
qed (simp add: digits_val_def)

text \<open>The fraction: nothing, or a dot and the nine digits without trailing zeros.\<close>

definition trim_zeros :: "string \<Rightarrow> string" where
  [go_defs]: "trim_zeros s = rev (dropWhile (\<lambda>c. c = CHR ''0'') (rev s))"

definition fraction :: "nat \<Rightarrow> string" where
  [go_defs]: "fraction n = (if n = 0 then [] else CHR ''.'' # trim_zeros (fixed_digits 9 n))"

definition format_time :: "instant \<Rightarrow> string option" where
  [go_defs]: "format_time t =
     (let total = in_secs t + unix_epoch_day * 86400;
          tod = total mod 86400;
          (y, m, d) = date_of_day (total div 86400)
      in if y < 0 \<or> 9999 < y then None
         else Some (fixed_digits 4 (nat y) @ ''-'' @ fixed_digits 2 m @ ''-'' @ fixed_digits 2 (nat d)
           @ ''T'' @ fixed_digits 2 (nat (tod div 3600)) @ '':'' @ fixed_digits 2 (nat (tod div 60 mod 60))
           @ '':'' @ fixed_digits 2 (nat (tod mod 60)) @ fraction (in_nanos t) @ ''Z''))"

text \<open>A field of fixed width within bounds.\<close>

definition parse_field :: "nat \<Rightarrow> nat \<Rightarrow> string \<Rightarrow> nat option" where
  [go_defs]: "parse_field lo hi s =
     (if list_all is_digit s \<and> lo \<le> digits_val s \<and> digits_val s \<le> hi then Some (digits_val s) else None)"

definition sub_str :: "nat \<Rightarrow> nat \<Rightarrow> string \<Rightarrow> string" where
  [go_defs]: "sub_str i n s = take n (drop i s)"

definition parse_fraction :: "string \<Rightarrow> nat \<times> string" where
  [go_defs]: "parse_fraction s =
     (case s of
        p # c # r \<Rightarrow>
          if p = CHR ''.'' \<and> is_digit c
          then (digits_val (take 9 (takeWhile is_digit (c # r) @ replicate 9 CHR ''0'')),
                dropWhile is_digit (c # r))
          else (0, s)
      | _ \<Rightarrow> (0, s))"

text \<open>The zone: \<^verbatim>\<open>Z\<close> or a signed offset, in seconds east of UTC.\<close>

definition parse_zone :: "string \<Rightarrow> int option" where
  [go_defs]: "parse_zone s =
     (if s = ''Z'' then Some 0
      else if length s \<noteq> 6 \<or> s ! 3 \<noteq> CHR '':'' \<or> (s ! 0 \<noteq> CHR ''+'' \<and> s ! 0 \<noteq> CHR ''-'') then None
      else case (parse_field 0 23 (sub_str 1 2 s), parse_field 0 59 (sub_str 4 2 s)) of
             (Some h, Some m) \<Rightarrow>
               (let off = int ((h * 60 + m) * 60) in Some (if s ! 0 = CHR ''-'' then - off else off))
           | _ \<Rightarrow> None)"

definition parse_date :: "string \<Rightarrow> int option" where
  [go_defs]: "parse_date s =
     (case (parse_field 0 9999 (sub_str 0 4 s), parse_field 1 12 (sub_str 5 2 s)) of
        (Some y, Some m) \<Rightarrow>
          (case parse_field 1 (nat (month_lengths (int y) ! (m - 1))) (sub_str 8 2 s) of
             Some d \<Rightarrow> Some (day_of_date (int y) m (int d))
           | None \<Rightarrow> None)
      | _ \<Rightarrow> None)"

definition parse_clock :: "string \<Rightarrow> int option" where
  [go_defs]: "parse_clock s =
     (case (parse_field 0 23 (sub_str 11 2 s), parse_field 0 59 (sub_str 14 2 s),
            parse_field 0 59 (sub_str 17 2 s)) of
        (Some h, Some m, Some sec) \<Rightarrow> Some (int (h * 3600 + m * 60 + sec))
      | _ \<Rightarrow> None)"

definition parse_rfc3339 :: "string \<Rightarrow> instant option" where
  [go_defs]: "parse_rfc3339 s =
     (if length s < 19 then None
      else if s ! 4 \<noteq> CHR ''-'' \<or> s ! 7 \<noteq> CHR ''-'' \<or> s ! 10 \<noteq> CHR ''T'' \<or> s ! 13 \<noteq> CHR '':''
        \<or> s ! 16 \<noteq> CHR '':'' then None
      else
        (let (nanos, z) = parse_fraction (drop 19 s)
         in case (parse_date s, parse_clock s, parse_zone z) of
              (Some day, Some clock, Some off) \<Rightarrow>
                Some \<lparr>in_secs = (day - unix_epoch_day) * 86400 + clock - off, in_nanos = nanos\<rparr>
            | _ \<Rightarrow> None))"

lemma parse_field_fixed:
  assumes "lo \<le> n" and "n \<le> hi" and "n < 10 ^ w"
  shows "parse_field lo hi (fixed_digits w n) = Some n"
  using assms by (simp add: parse_field_def digits_val_fixed)

lemma is_digit_facts [simp]: "\<not> is_digit CHR ''Z''" "\<not> is_digit CHR ''.''" "is_digit CHR ''0''"
  by (simp_all add: is_digit_def)

lemma trim_zeros_pad: "\<exists>k. s = trim_zeros s @ replicate k CHR ''0''"
proof -
  have "takeWhile (\<lambda>c. c = CHR ''0'') (rev s)
      = replicate (length (takeWhile (\<lambda>c. c = CHR ''0'') (rev s))) CHR ''0''"
    by (rule replicate_eqI) (auto dest: set_takeWhileD)
  then obtain k where k: "takeWhile (\<lambda>c. c = CHR ''0'') (rev s) = replicate k CHR ''0''" by blast
  have "takeWhile (\<lambda>c. c = CHR ''0'') (rev s) @ dropWhile (\<lambda>c. c = CHR ''0'') (rev s) = rev s"
    by simp
  then have "rev (replicate k CHR ''0'' @ dropWhile (\<lambda>c. c = CHR ''0'') (rev s)) = rev (rev s)"
    unfolding k by (rule arg_cong)
  then have "s = trim_zeros s @ replicate k CHR ''0''"
    unfolding trim_zeros_def rev_append rev_replicate rev_rev_ident by (rule sym)
  then show ?thesis by blast
qed

lemma parse_fraction_fraction:
  assumes "n < 10 ^ 9"
  shows "parse_fraction (fraction n @ ''Z'') = (n, ''Z'')"
proof (cases "n = 0")
  case False
  let ?f = "fixed_digits 9 n"
  obtain k where k: "?f = trim_zeros ?f @ replicate k CHR ''0''" using trim_zeros_pad by blast
  have d: "list_all is_digit (trim_zeros ?f)"
    using fixed_digits_digits[of 9 n] by (subst (asm) k) simp
  have v: "digits_val ?f = n" using assms by (simp add: digits_val_fixed)
  have ne: "trim_zeros ?f \<noteq> []"
  proof
    assume "trim_zeros ?f = []"
    then have "?f = replicate k CHR ''0''" using k by simp
    moreover have "digits_val (replicate k CHR ''0'') = 0"
    proof (induction k)
      case (Suc k)
      have "replicate (Suc k) CHR ''0'' = replicate k CHR ''0'' @ [CHR ''0'']"
        by (simp add: replicate_append_same)
      with Suc show ?case by (simp del: replicate.simps add: digit_val_def)
    qed (simp add: digits_val_def)
    ultimately show False using v False by simp
  qed
  then obtain c r where cr: "trim_zeros ?f = c # r" by (cases "trim_zeros ?f") auto
  have c: "is_digit c" "list_all is_digit r" using d cr by simp_all
  have tw: "takeWhile is_digit ((c # r) @ ''Z'') = c # r" "dropWhile is_digit ((c # r) @ ''Z'') = ''Z''"
    using c by (simp_all add: takeWhile_append2 dropWhile_append2 list_all_iff)
  have "length (c # r) + k = 9" using k cr by (metis length_append length_fixed_digits length_replicate)
  from this have "take 9 ((c # r) @ replicate 9 CHR ''0'') = (c # r) @ replicate k CHR ''0''"
  proof -
    assume "length (c # r) + k = 9"
    then have "length (c # r) \<le> 9" "9 - length (c # r) = k" "k \<le> 9" by auto
    then show ?thesis
      by (simp only: take_append take_all take_replicate min.absorb1 length_replicate)
  qed
  also have "\<dots> = ?f" using k cr by simp
  finally have "digits_val (take 9 (takeWhile is_digit ((c # r) @ ''Z'') @ replicate 9 CHR ''0'')) = n"
    unfolding tw using v by (simp del: append_Cons)
  with False tw c(1) show ?thesis by (simp add: fraction_def cr parse_fraction_def)
qed (simp add: fraction_def parse_fraction_def)

text \<open>A written instant is read back.\<close>

lemma parse_format_time:
  assumes "format_time t = Some s" and "in_nanos t < 10 ^ 9"
  shows "parse_rfc3339 s = Some t"
proof -
  define total where "total = in_secs t + unix_epoch_day * 86400"
  define tod where "tod = total mod 86400"
  obtain y m d where date: "date_of_day (total div 86400) = (y, m, d)"
    by (metis prod_cases3)
  have y: "0 \<le> y" "y \<le> 9999"
    and s: "s = fixed_digits 4 (nat y) @ ''-'' @ fixed_digits 2 m @ ''-'' @ fixed_digits 2 (nat d)
           @ ''T'' @ fixed_digits 2 (nat (tod div 3600)) @ '':'' @ fixed_digits 2 (nat (tod div 60 mod 60))
           @ '':'' @ fixed_digits 2 (nat (tod mod 60)) @ fraction (in_nanos t) @ ''Z''"
    using assms(1) date
    by (auto simp: format_time_def total_def[symmetric] tod_def Let_def split: if_splits)
  note inv = date_of_day_inverse[OF date]
  have ml: "month_lengths y ! (m - 1) \<le> 31"
  proof -
    have "m - 1 < length (month_lengths y)" using inv(2,3) by (simp add: month_lengths_def)
    then have "month_lengths y ! (m - 1) \<in> set (month_lengths y)" by (rule nth_mem)
    then show ?thesis by (auto simp: month_lengths_def split: if_splits)
  qed
  have tod: "0 \<le> tod" "tod < 86400" by (simp_all add: tod_def)
  have pos: "length s \<ge> 19" "s ! 4 = CHR ''-''" "s ! 7 = CHR ''-''" "s ! 10 = CHR ''T''"
    "s ! 13 = CHR '':''" "s ! 16 = CHR '':''" "drop 19 s = fraction (in_nanos t) @ ''Z''"
    by (simp_all add: s nth_append)
  have subs: "sub_str 0 4 s = fixed_digits 4 (nat y)" "sub_str 5 2 s = fixed_digits 2 m"
    "sub_str 8 2 s = fixed_digits 2 (nat d)" "sub_str 11 2 s = fixed_digits 2 (nat (tod div 3600))"
    "sub_str 14 2 s = fixed_digits 2 (nat (tod div 60 mod 60))"
    "sub_str 17 2 s = fixed_digits 2 (nat (tod mod 60))"
    by (simp_all add: sub_str_def s)
  have pd: "parse_date s = Some (total div 86400)"
  proof -
    have "parse_field 0 9999 (sub_str 0 4 s) = Some (nat y)"
      unfolding subs using y by (intro parse_field_fixed) auto
    moreover have "parse_field 1 12 (sub_str 5 2 s) = Some m"
      unfolding subs using inv(2,3) by (intro parse_field_fixed) auto
    moreover have "parse_field 1 (nat (month_lengths y ! (m - 1))) (sub_str 8 2 s) = Some (nat d)"
      unfolding subs using inv(4,5) ml by (intro parse_field_fixed) auto
    ultimately show ?thesis using y inv(1,4) by (simp add: parse_date_def)
  qed
  define h mi se where "h = tod div 3600" and "mi = tod div 60 mod 60" and "se = tod mod 60"
  have bounds: "0 \<le> h" "h \<le> 23" "0 \<le> mi" "mi \<le> 59" "0 \<le> se" "se \<le> 59"
    using tod by (simp_all add: h_def mi_def se_def pos_imp_zdiv_nonneg_iff)
  have clock: "h * 3600 + mi * 60 + se = tod"
  proof -
    have "h = tod div 60 div 60" by (simp add: h_def zdiv_zmult2_eq[symmetric])
    moreover have "tod = 60 * (tod div 60) + se" by (simp add: se_def)
    moreover have "tod div 60 = 60 * (tod div 60 div 60) + mi" by (simp add: mi_def)
    ultimately show ?thesis by linarith
  qed
  have pc: "parse_clock s = Some tod"
  proof -
    have "parse_field 0 23 (sub_str 11 2 s) = Some (nat h)"
      unfolding subs h_def[symmetric] using bounds by (intro parse_field_fixed) auto
    moreover have "parse_field 0 59 (sub_str 14 2 s) = Some (nat mi)"
      unfolding subs mi_def[symmetric] using bounds by (intro parse_field_fixed) auto
    moreover have "parse_field 0 59 (sub_str 17 2 s) = Some (nat se)"
      unfolding subs se_def[symmetric] using bounds by (intro parse_field_fixed) auto
    moreover have "int (nat h * 3600 + nat mi * 60 + nat se) = tod"
      using bounds clock by simp
    ultimately show ?thesis unfolding parse_clock_def by (simp only: prod.case option.case)
  qed
  have "(total div 86400 - unix_epoch_day) * 86400 + tod = in_secs t"
    using mult_div_mod_eq[of 86400 total] by (simp add: tod_def total_def algebra_simps)
  with pos pd pc parse_fraction_fraction[OF assms(2)] show ?thesis
    by (simp add: parse_rfc3339_def parse_zone_def)
qed

text \<open>The text of an instant is digits and five punctuation marks.\<close>

definition time_char :: "char \<Rightarrow> bool" where
  "time_char c \<longleftrightarrow> is_digit c \<or> c \<in> set ''-:.TZ''"

lemma digits_time_chars: "list_all is_digit s \<Longrightarrow> list_all time_char s"
  by (auto simp: list_all_iff time_char_def)

lemma trim_zeros_digits: "list_all is_digit s \<Longrightarrow> list_all is_digit (trim_zeros s)"
  unfolding trim_zeros_def by (auto simp: list_all_iff dest: set_dropWhileD)

lemma time_marks [simp]:
  "time_char CHR ''-''" "time_char CHR '':''" "time_char CHR ''.''" "time_char CHR ''T''" "time_char CHR ''Z''"
  by (simp_all add: time_char_def)

lemma format_time_chars:
  assumes "format_time t = Some s"
  shows "list_all time_char s"
proof -
  have "list_all time_char (fraction n)" for n
    by (simp add: fraction_def digits_time_chars trim_zeros_digits)
  with assms show ?thesis
    by (auto simp: format_time_def Let_def digits_time_chars split: prod.splits if_splits)
qed

lemma time_char_ascii: "time_char c \<Longrightarrow> byte c < 128"
  by (auto simp: time_char_def is_digit_def)

lemma format_time_ascii: "format_time t = Some s \<Longrightarrow> list_all (\<lambda>c. byte c < 128) s"
  by (drule format_time_chars) (auto simp: list_all_iff time_char_ascii)

end
