(* ===== verification/Network_Detector.thy ===== *)
theory Network_Detector
  imports Network_Parsers Go_Time Incus
begin

text \<open>
  Package \<^verbatim>\<open>network\<close>, detection and the trusted network state report
  (\<^verbatim>\<open>capabilities.go\<close>, \<^verbatim>\<open>reporter.go\<close>). The host is reached through the four operations of
  \<^verbatim>\<open>Probe\<close> only, which are a record of state transformers here: an answer may depend on
  everything that happened before. The lemmas show which questions are asked, what a report
  contains, that it does not depend on secrets, and that its JSON text says what it says.
\<close>

subsection \<open>Types\<close>

record forwarding_state =
  fw_ipv4 :: bool
  fw_ipv6 :: bool

record host_capabilities =
  hc_wire_guard :: bool
  hc_ip_command :: bool
  hc_iptables :: bool
  hc_ip6tables :: bool
  hc_sysctl :: bool
  hc_tun :: bool
  hc_forwarding :: forwarding_state

record network_summary =
  ns_wire_guard :: bool
  ns_ip_command :: bool
  ns_iptables :: bool
  ns_ip6tables :: bool
  ns_forwarding :: forwarding_state
  ns_interfaces :: "managed_interface list"

record network_agent =
  na_id :: string
  na_schema_version :: int

record network_state =
  nst_agent :: network_agent
  nst_network :: network_summary

text \<open>A successful lookup or stat is looked at for its error only; \<open>None\<close> is a failed read or run.\<close>

record 's host_probe =
  probe_look_path :: "string \<Rightarrow> ('s, bool) state"
  probe_stat :: "string \<Rightarrow> ('s, bool) state"
  probe_read_file :: "string \<Rightarrow> ('s, bytes option) state"
  probe_run :: "string \<Rightarrow> string list \<Rightarrow> ('s, bytes option) state"

record 's detector =
  det_probe :: "'s host_probe"
  det_prefix :: string

subsection \<open>The real host\<close>

text \<open>
  What \<^verbatim>\<open>hostProbe\<close> calls: \<^verbatim>\<open>exec.LookPath\<close>, \<^verbatim>\<open>os.Stat\<close> (its error), \<^verbatim>\<open>os.ReadFile\<close>, and running a
  binary at a path to its end, with what it wrote to its standard output.
\<close>

record 's host_os =
  os_look_path :: "string \<Rightarrow> ('s, string + string) state"
  os_stat :: "string \<Rightarrow> ('s, string option) state"
  os_read_file :: "string \<Rightarrow> ('s, string + bytes) state"
  os_run_binary :: "string \<Rightarrow> string list \<Rightarrow> ('s, string + bytes) state"

text \<open>
  \<^verbatim>\<open>exec.Command\<close> looks a name without a path separator up, once, and \<^verbatim>\<open>Output\<close> fails when that failed.
\<close>

definition command_output :: "'s host_os \<Rightarrow> string \<Rightarrow> string list \<Rightarrow> ('s, string + bytes) state" where
  [svc_defs]: "command_output os name args = do {
     found \<leftarrow> (if CHR ''/'' \<in> set name then State_Monad.return (Inr name) else os_look_path os name);
     case found of Inl e \<Rightarrow> State_Monad.return (Inl e)
     | Inr path \<Rightarrow> os_run_binary os path args }"

definition host_probe_of :: "'s host_os \<Rightarrow> 's host_probe" where
  [svc_defs]: "host_probe_of os =
     \<lparr>probe_look_path = (\<lambda>file. do { r \<leftarrow> os_look_path os file; State_Monad.return (to_option r \<noteq> None) }),
      probe_stat = (\<lambda>name. do { err \<leftarrow> os_stat os name; State_Monad.return (err = None) }),
      probe_read_file = (\<lambda>name. do { r \<leftarrow> os_read_file os name; State_Monad.return (to_option r) }),
      probe_run = (\<lambda>name args. do { r \<leftarrow> command_output os name args; State_Monad.return (to_option r) })\<rparr>"

text \<open>A command whose binary is not found is not run.\<close>

lemma host_runs_found_only:
  assumes "CHR ''/'' \<notin> set name" and "run_state (os_look_path os name) s = (Inl e, s')"
  shows "run_state (probe_run (host_probe_of os) name args) s = (None, s')"
  using assms by (simp add: host_probe_of_def command_output_def run_state_bind)

subsection \<open>Detection\<close>

definition new_detector :: "'s host_probe \<Rightarrow> string \<Rightarrow> 's host_probe option \<Rightarrow> 's detector" where
  [svc_defs]: "new_detector host prefix probe =
     \<lparr>det_probe = (case probe of None \<Rightarrow> host | Some p \<Rightarrow> p),
      det_prefix = (if trim_space prefix = [] then ''anvilwg'' else prefix)\<rparr>"

definition managed_prefix :: "'s detector \<Rightarrow> string" where
  [svc_defs]: "managed_prefix d = det_prefix d"

definition binary_available :: "'s detector \<Rightarrow> string \<Rightarrow> ('s, bool) state" where
  [svc_defs]: "binary_available d name = probe_look_path (det_probe d) name"

definition file_exists :: "'s detector \<Rightarrow> string \<Rightarrow> ('s, bool) state" where
  [svc_defs]: "file_exists d path = probe_stat (det_probe d) path"

definition bool_of_file :: "bytes option \<Rightarrow> bool" where
  [svc_defs]: "bool_of_file data =
     (case data of None \<Rightarrow> False
      | Some text \<Rightarrow> (case parse_int64 (trim_space text) of None \<Rightarrow> False | Some n \<Rightarrow> n \<noteq> 0))"

definition read_bool_file :: "'s detector \<Rightarrow> string \<Rightarrow> ('s, bool) state" where
  [svc_defs]: "read_bool_file d path = do {
     data \<leftarrow> probe_read_file (det_probe d) path;
     State_Monad.return (bool_of_file data) }"

definition detect_forwarding :: "'s detector \<Rightarrow> ('s, forwarding_state) state" where
  [svc_defs]: "detect_forwarding d = do {
     v4 \<leftarrow> read_bool_file d ''/proc/sys/net/ipv4/ip_forward'';
     v6 \<leftarrow> read_bool_file d ''/proc/sys/net/ipv6/conf/all/forwarding'';
     State_Monad.return \<lparr>fw_ipv4 = v4, fw_ipv6 = v6\<rparr> }"

text \<open>\<open>ctx\<close> is \<^verbatim>\<open>ctx.Err()\<close>: the error text when the context is done.\<close>

type_synonym 's context_err = "('s, string option) state"

definition detect :: "'s context_err \<Rightarrow> 's detector \<Rightarrow> ('s, string + host_capabilities) state" where
  [svc_defs]: "detect ctx d = do {
     err \<leftarrow> ctx;
     case err of Some e \<Rightarrow> State_Monad.return (Inl e)
     | None \<Rightarrow> do {
         wg \<leftarrow> binary_available d ''wg'';
         ip \<leftarrow> binary_available d ''ip'';
         iptables \<leftarrow> binary_available d ''iptables'';
         ip6tables \<leftarrow> binary_available d ''ip6tables'';
         sysctl \<leftarrow> binary_available d ''sysctl'';
         tun \<leftarrow> file_exists d ''/dev/net/tun'';
         fwd \<leftarrow> detect_forwarding d;
         State_Monad.return (Inr \<lparr>hc_wire_guard = wg, hc_ip_command = ip, hc_iptables = iptables,
           hc_ip6tables = ip6tables, hc_sysctl = sysctl, hc_tun = tun, hc_forwarding = fwd\<rparr>) } }"

subsection \<open>Managed interfaces\<close>

text \<open>\<open>upper\<close> is \<^verbatim>\<open>strings.ToUpper\<close> on text that is not ASCII.\<close>

definition read_address_table ::
  "(string \<Rightarrow> string) \<Rightarrow> 's detector \<Rightarrow> ('s, address_entry go_map option) state" where
  [svc_defs]: "read_address_table upper d = do {
     out \<leftarrow> probe_run (det_probe d) ''ip'' [''-json'', ''addr''];
     State_Monad.return (case out of None \<Rightarrow> None
       | Some text \<Rightarrow> parse_ip_addr_json upper text (det_prefix d)) }"

definition enrich :: "address_entry go_map \<Rightarrow> managed_interface \<Rightarrow> managed_interface" where
  [svc_defs]: "enrich table i =
     (case map_of table (mi_name i) of None \<Rightarrow> i
      | Some entry \<Rightarrow>
          i\<lparr>mi_addresses := ae_addresses entry,
            mi_status := (if mi_status i = [] then ae_status entry else mi_status i)\<rparr>)"

definition list_managed_interfaces ::
  "(string \<Rightarrow> string) \<Rightarrow> 's detector \<Rightarrow> ('s, string + managed_interface list) state" where
  [svc_defs]: "list_managed_interfaces upper d = do {
     dump \<leftarrow> probe_run (det_probe d) ''wg'' [''show'', ''all'', ''dump''];
     case dump of None \<Rightarrow> State_Monad.return (Inr [])
     | Some text \<Rightarrow>
         (let interfaces = parse_wireguard_dump (det_prefix d) text
          in if interfaces = [] then State_Monad.return (Inr interfaces)
             else do {
               table \<leftarrow> read_address_table upper d;
               State_Monad.return (case table of None \<Rightarrow> Inr interfaces
                 | Some t \<Rightarrow> Inr (map (enrich t) interfaces)) }) }"

definition summary_of :: "host_capabilities \<Rightarrow> network_summary" where
  [svc_defs]: "summary_of caps =
     \<lparr>ns_wire_guard = hc_wire_guard caps, ns_ip_command = hc_ip_command caps,
      ns_iptables = hc_iptables caps, ns_ip6tables = hc_ip6tables caps,
      ns_forwarding = hc_forwarding caps, ns_interfaces = []\<rparr>"

definition detector_network_state ::
  "(string \<Rightarrow> string) \<Rightarrow> 's context_err \<Rightarrow> 's detector \<Rightarrow> network_agent
     \<Rightarrow> ('s, string + network_state) state" where
  [svc_defs]: "detector_network_state upper ctx d agent = do {
     detected \<leftarrow> detect ctx d;
     case detected of Inl e \<Rightarrow> State_Monad.return (Inl e)
     | Inr caps \<Rightarrow>
         if hc_wire_guard caps then do {
           listed \<leftarrow> list_managed_interfaces upper d;
           State_Monad.return (case listed of
             Inl e \<Rightarrow> Inl (''list managed wireguard interfaces: '' @ e)
           | Inr interfaces \<Rightarrow> Inr \<lparr>nst_agent = agent,
               nst_network = (summary_of caps)\<lparr>ns_interfaces := interfaces\<rparr>\<rparr>) }
         else State_Monad.return (Inr \<lparr>nst_agent = agent, nst_network = summary_of caps\<rparr>) }"

definition wire_guard_available ::
  "'s context_err \<Rightarrow> 's detector \<Rightarrow> ('s, string + bool) state" where
  [svc_defs]: "wire_guard_available ctx d = do {
     err \<leftarrow> ctx;
     case err of Some e \<Rightarrow> State_Monad.return (Inl e)
     | None \<Rightarrow> do { available \<leftarrow> binary_available d ''wg''; State_Monad.return (Inr available) } }"

text \<open>\<^verbatim>\<open>StateReporter\<close>: a detector with the identity it reports for.\<close>

record 's state_reporter =
  sr_detector :: "'s detector"
  sr_identity :: network_agent

definition new_state_reporter :: "'s detector \<Rightarrow> network_agent \<Rightarrow> 's state_reporter" where
  [svc_defs]: "new_state_reporter d agent = \<lparr>sr_detector = d, sr_identity = agent\<rparr>"

definition reporter_network_state ::
  "(string \<Rightarrow> string) \<Rightarrow> 's context_err \<Rightarrow> 's state_reporter \<Rightarrow> ('s, string + network_state) state" where
  [svc_defs]: "reporter_network_state upper ctx r =
     detector_network_state upper ctx (sr_detector r) (sr_identity r)"

subsection \<open>The report as JSON\<close>

text \<open>
  \<^verbatim>\<open>*time.Time\<close>: \<^verbatim>\<open>null\<close> or the quoted RFC 3339 text of
  \<^verbatim>\<open>time.Unix(h, 0).UTC()\<close>, whose characters are never escaped; \<open>None\<close> is the error of
  \<^verbatim>\<open>MarshalJSON\<close> on a year above 9999.
\<close>

definition enc_handshake :: "int option \<Rightarrow> string option" where
  [svc_defs]: "enc_handshake h =
     (case h of None \<Rightarrow> Some ''null''
      | Some seconds \<Rightarrow> map_option enc_string (format_time \<lparr>in_secs = seconds, in_nanos = 0\<rparr>))"

definition enc_peer :: "peer \<Rightarrow> string option" where
  [svc_defs]: "enc_peer p = map_option (\<lambda>h. enc_object
     [(''publicKey'', enc_string (peer_public_key p)),
      (''latestHandshakeAt'', h),
      (''rxBytes'', itoa (peer_rx p)),
      (''txBytes'', itoa (peer_tx p))]) (enc_handshake (peer_handshake p))"

definition enc_managed_interface :: "managed_interface \<Rightarrow> string option" where
  [svc_defs]: "enc_managed_interface i = map_option (\<lambda>peers. enc_object
     [(''name'', enc_string (mi_name i)),
      (''status'', enc_string (mi_status i)),
      (''publicKey'', enc_string (mi_public_key i)),
      (''listenPort'', itoa (mi_listen_port i)),
      (''addresses'', enc_array (map enc_string (mi_addresses i))),
      (''peers'', enc_array peers)]) (those (map enc_peer (mi_peers i)))"

definition enc_forwarding :: "forwarding_state \<Rightarrow> string" where
  [svc_defs]: "enc_forwarding f = enc_object
     [(''ipv4'', enc_bool (fw_ipv4 f)), (''ipv6'', enc_bool (fw_ipv6 f))]"

definition enc_network_summary :: "network_summary \<Rightarrow> string option" where
  [svc_defs]: "enc_network_summary n = map_option (\<lambda>interfaces. enc_object
     [(''wireGuardAvailable'', enc_bool (ns_wire_guard n)),
      (''ipCommandAvailable'', enc_bool (ns_ip_command n)),
      (''iptablesAvailable'', enc_bool (ns_iptables n)),
      (''ip6tablesAvailable'', enc_bool (ns_ip6tables n)),
      (''forwarding'', enc_forwarding (ns_forwarding n)),
      (''managedInterfaces'', enc_array interfaces)]) (those (map enc_managed_interface (ns_interfaces n)))"

definition enc_network_agent :: "network_agent \<Rightarrow> string" where
  [svc_defs]: "enc_network_agent a = enc_object
     [(''id'', enc_string (na_id a)), (''stateSchemaVersion'', itoa (na_schema_version a))]"

definition enc_network_state :: "network_state \<Rightarrow> string option" where
  [svc_defs]: "enc_network_state n = map_option (\<lambda>network. enc_object
     [(''agent'', enc_network_agent (nst_agent n)), (''network'', network)])
     (enc_network_summary (nst_network n))"

subsection \<open>Running the report\<close>

lemmas detector_runs = detect_def detect_forwarding_def read_bool_file_def binary_available_def
  file_exists_def list_managed_interfaces_def read_address_table_def

lemma enrich_name [simp]: "mi_name (enrich t i) = mi_name i"
  by (simp add: enrich_def split: option.split)

lemma enrich_names: "map mi_name (map (enrich t) is) = map mi_name is"
  by simp

lemma parse_dump_names:
  "distinct (map mi_name (parse_wireguard_dump prefix data))
   \<and> list_all (\<lambda>n. has_prefix n prefix) (map mi_name (parse_wireguard_dump prefix data))"
  using parse_dump_managed[of prefix data] by (simp add: list_all_iff)

text \<open>A listing never fails, and lists what the dump names.\<close>

lemma list_managed_interfaces_run:
  assumes "run_state (list_managed_interfaces upper d) s = (r, s')"
  shows "\<exists>l. r = Inr l
    \<and> (l = [] \<or> (\<exists>text. map mi_name l = map mi_name (parse_wireguard_dump (det_prefix d) text)))"
  using assms enrich_names unfolding list_managed_interfaces_def
  by (fastforce simp: run_bind_iff Let_def simp del: map_map split: option.splits if_splits)

lemma summary_of_simps [simp]:
  "ns_wire_guard (summary_of caps) = hc_wire_guard caps" "ns_interfaces (summary_of caps) = []"
  by (simp_all add: summary_of_def)

text \<open>What detection asks when the context is not done.\<close>

lemma detect_run:
  assumes "run_state ctx s = (None, s1)"
  shows "\<exists>caps s2. run_state (detect ctx d) s = (Inr caps, s2)"
  unfolding detect_def by (simp add: run_state_bind assms split_beta)


lemma detect_done:
  assumes "run_state ctx s = (Some e, s1)"
  shows "run_state (detect ctx d) s = (Inl e, s1)"
  unfolding detect_def by (simp add: run_state_bind assms)

text \<open>
  C36. A report names managed interfaces only, each once, carries the agent's identity unchanged, and
  lists nothing when \<^verbatim>\<open>wg\<close> is not installed.
\<close>

theorem network_state_reports:
  assumes "run_state (detector_network_state upper ctx d agent) s = (Inr report, s')"
  shows "nst_agent report = agent
    \<and> distinct (map mi_name (ns_interfaces (nst_network report)))
    \<and> list_all (\<lambda>i. has_prefix (mi_name i) (det_prefix d)) (ns_interfaces (nst_network report))
    \<and> (ns_wire_guard (nst_network report) \<or> ns_interfaces (nst_network report) = [])"
proof -
  obtain detected s1 where "run_state (detect ctx d) s = (detected, s1)" by fastforce
  with assms obtain caps where caps: "detected = Inr caps"
    by (cases detected) (auto simp: detector_network_state_def run_bind_iff)
  have r: "run_state (detect ctx d) s = (Inr caps, s1)" using \<open>_ = (detected, s1)\<close> caps by simp
  show ?thesis
  proof (cases "hc_wire_guard caps")
    case False
    with assms r show ?thesis by (auto simp: detector_network_state_def run_bind_iff)
  next
    case True
    obtain listed s2 where l: "run_state (list_managed_interfaces upper d) s1 = (listed, s2)" by fastforce
    from list_managed_interfaces_run[OF this] obtain interfaces where i: "listed = Inr interfaces"
      "interfaces = [] \<or> (\<exists>text. map mi_name interfaces = map mi_name (parse_wireguard_dump (det_prefix d) text))"
      by blast
    have report: "report = \<lparr>nst_agent = agent, nst_network = (summary_of caps)\<lparr>ns_interfaces := interfaces\<rparr>\<rparr>"
      using assms r l i(1) True by (simp add: detector_network_state_def run_state_bind)
    have "distinct (map mi_name interfaces) \<and> list_all (\<lambda>n. has_prefix n (det_prefix d)) (map mi_name interfaces)"
      using i(2) parse_dump_names[of "det_prefix d"] by (elim disjE exE) (simp, simp only: simp_thms)
    with True show ?thesis by (simp add: report list.pred_map comp_def)
  qed
qed

definition sample_host :: "bytes \<Rightarrow> 's host_probe" where
  "sample_host dump =
     \<lparr>probe_look_path = (\<lambda>f. State_Monad.return (f \<noteq> ''iptables'')),
      probe_stat = (\<lambda>f. State_Monad.return True),
      probe_read_file = (\<lambda>f. State_Monad.return (Some ''1'')),
      probe_run = (\<lambda>n args. State_Monad.return
        (if n = ''wg'' then Some dump
         else if n = ''ip'' then Some ''[{\"ifname\":\"anvilwg0\",\"operstate\":\"up\",\"addr_info\":[{\"local\":\"10.0.0.1\",\"prefixlen\":24}]}]''
         else None))\<rparr>"

lemma state_eqI: "(\<And>s. run_state m s = run_state n s) \<Longrightarrow> m = n"
  by (cases m; cases n) auto

text \<open>The host under the probe.\<close>

definition sample_os :: "bytes \<Rightarrow> 's host_os" where
  "sample_os dump =
     \<lparr>os_look_path = (\<lambda>f. State_Monad.return (if f = ''iptables'' then Inl ''not found'' else Inr f)),
      os_stat = (\<lambda>f. State_Monad.return None),
      os_read_file = (\<lambda>f. State_Monad.return (Inr ''1'')),
      os_run_binary = (\<lambda>path args. State_Monad.return
        (case fst (run_state (probe_run (sample_host dump) path args) ()) of None \<Rightarrow> Inl ''exit status 1'' | Some out \<Rightarrow> Inr out))\<rparr>"

lemma sample_os_probe: "host_probe_of (sample_os dump) = sample_host dump"
  by (auto simp: host_probe_of_def sample_os_def sample_host_def command_output_def
      intro!: ext state_eqI)

definition sample_agent :: network_agent where
  "sample_agent = \<lparr>na_id = ''agent-1'', na_schema_version = 1\<rparr>"

definition sample_network_run :: "(string + network_state) \<times> unit" where
  "sample_network_run = run_state (detector_network_state (\<lambda>s. s) (State_Monad.return None)
     \<lparr>det_probe = sample_host (sample_dump ''k1'' ''p1''), det_prefix = ''anvilwg''\<rparr> sample_agent) ()"

definition sample_network_report :: network_state where
  "sample_network_report =
     \<lparr>nst_agent = sample_agent,
      nst_network =
        \<lparr>ns_wire_guard = True, ns_ip_command = True, ns_iptables = False, ns_ip6tables = True,
         ns_forwarding = \<lparr>fw_ipv4 = True, fw_ipv6 = True\<rparr>,
         ns_interfaces =
           [\<lparr>mi_name = ''anvilwg0'', mi_status = ''UP'', mi_public_key = ''pub'', mi_listen_port = 51820,
             mi_addresses = [''10.0.0.1/24''],
             mi_peers = [\<lparr>peer_public_key = ''peerpub'', peer_handshake = Some 1700000000,
               peer_rx = 10, peer_tx = 20\<rparr>]\<rparr>]\<rparr>\<rparr>"

lemma network_state_reports_witness:
  "list_all (\<lambda>i. has_prefix (mi_name i) ''anvilwg'') (ns_interfaces (nst_network sample_network_report))
   \<and> map mi_name (ns_interfaces (nst_network sample_network_report)) = [''anvilwg0'']"
proof -
  have "sample_network_run = (Inr sample_network_report, ())" by code_simp
  from network_state_reports[OF this[unfolded sample_network_run_def]]
  show ?thesis by (simp add: sample_network_report_def)
qed

text \<open>
  Detection always answers while the context lives, and its only failure is that of the
  context: a missing binary, a failing command or an unreadable file is an honest absence.
\<close>

lemma network_state_fails_iff:
  "(\<exists>e s'. run_state (detector_network_state upper ctx d agent) s = (Inl e, s'))
   \<longleftrightarrow> fst (run_state ctx s) \<noteq> None"
proof -
  obtain err s1 where c: "run_state ctx s = (err, s1)" by fastforce
  show ?thesis
  proof (cases err)
    case (Some e)
    with c show ?thesis by (simp add: detector_network_state_def run_state_bind detect_done)
  next
    case None
    with c have "run_state ctx s = (None, s1)" by simp
    from detect_run[OF this] obtain caps s2 where d: "run_state (detect ctx d) s = (Inr caps, s2)"
      by blast
    show ?thesis
      using None c d by (auto simp: detector_network_state_def run_bind_iff dest!: list_managed_interfaces_run
          split: if_splits)
  qed
qed


subsection \<open>What is asked, and what does not matter\<close>

text \<open>
  Two probes that answer the fixed questions of detection in the same way: six lookups, two files
  and two commands with fixed arguments. They may differ on everything else.
\<close>

definition same_answers :: "'s host_probe \<Rightarrow> 's host_probe \<Rightarrow> bool" where
  "same_answers p q \<longleftrightarrow>
     list_all (\<lambda>f. probe_look_path p f = probe_look_path q f)
       [''wg'', ''ip'', ''iptables'', ''ip6tables'', ''sysctl'']
     \<and> probe_stat p ''/dev/net/tun'' = probe_stat q ''/dev/net/tun''
     \<and> list_all (\<lambda>f. probe_read_file p f = probe_read_file q f)
       [''/proc/sys/net/ipv4/ip_forward'', ''/proc/sys/net/ipv6/conf/all/forwarding'']
     \<and> probe_run p ''wg'' [''show'', ''all'', ''dump''] = probe_run q ''wg'' [''show'', ''all'', ''dump'']
     \<and> probe_run p ''ip'' [''-json'', ''addr''] = probe_run q ''ip'' [''-json'', ''addr'']"

text \<open>
  C35. The host is touched by the fixed questions only: two probes that agree on them leave the same
  report and the same host behind, whatever any other path, file or command would do.
\<close>

theorem network_state_questions:
  assumes "same_answers p q"
  shows "detector_network_state upper ctx \<lparr>det_probe = p, det_prefix = prefix\<rparr> agent
    = detector_network_state upper ctx \<lparr>det_probe = q, det_prefix = prefix\<rparr> agent"
proof -
  let ?p = "\<lparr>det_probe = p, det_prefix = prefix\<rparr>" and ?q = "\<lparr>det_probe = q, det_prefix = prefix\<rparr>"
  have "detect ctx ?p = detect ctx ?q"
    using assms by (simp add: detector_runs same_answers_def cong: option.case_cong)
  moreover have "list_managed_interfaces upper ?p = list_managed_interfaces upper ?q"
  proof -
    have "read_address_table upper ?p = read_address_table upper ?q"
      using assms by (simp add: read_address_table_def same_answers_def cong: option.case_cong)
    with assms show ?thesis by (simp add: list_managed_interfaces_def same_answers_def cong: option.case_cong if_cong)
  qed
  ultimately show ?thesis by (simp add: detector_network_state_def cong: sum.case_cong if_cong)
qed

definition other_host :: "unit host_probe" where
  "other_host = (sample_host [])\<lparr>probe_stat := \<lambda>f. State_Monad.return (f = ''/dev/net/tun''),
     probe_run := \<lambda>n args. State_Monad.return
       (if n = ''sh'' then Some ''root'' else fst (run_state (probe_run (sample_host []) n args) ()))\<rparr>"

lemma network_state_questions_witness:
  "detector_network_state (\<lambda>s. s) (State_Monad.return None) \<lparr>det_probe = sample_host [], det_prefix = ''anvilwg''\<rparr> sample_agent
   = detector_network_state (\<lambda>s. s) (State_Monad.return None) \<lparr>det_probe = other_host, det_prefix = ''anvilwg''\<rparr> sample_agent"
proof (rule network_state_questions)
  show "same_answers (sample_host []) other_host"
    by (simp add: same_answers_def sample_host_def other_host_def)
qed

text \<open>Probes whose \<^verbatim>\<open>wg\<close> dumps differ in private and preshared keys only, in the format the code documents.\<close>

definition same_line_publics :: "bytes \<Rightarrow> bytes \<Rightarrow> bool" where
  "same_line_publics a b \<longleftrightarrow> list_all2 same_public (split_char newline_char a) (split_char newline_char b)"

definition same_but_secrets :: "'s host_probe \<Rightarrow> 's host_probe \<Rightarrow> bool" where
  "same_but_secrets p q \<longleftrightarrow>
     probe_look_path p = probe_look_path q \<and> probe_stat p = probe_stat q
     \<and> probe_read_file p = probe_read_file q
     \<and> probe_run p ''ip'' [''-json'', ''addr''] = probe_run q ''ip'' [''-json'', ''addr'']
     \<and> (\<forall>s. rel_prod (rel_option same_line_publics) (=)
          (run_state (probe_run p ''wg'' [''show'', ''all'', ''dump'']) s)
          (run_state (probe_run q ''wg'' [''show'', ''all'', ''dump'']) s))"

text \<open>
  Probes whose \<^verbatim>\<open>wg\<close> prints as wg(8) documents, dumps that differ in private keys only. Preshared keys
  are the same on both: in this format they are reported
  (\<open>Network_Parsers.wg_preshared_key_reported\<close>).
\<close>

definition same_but_private_keys :: "'s host_probe \<Rightarrow> 's host_probe \<Rightarrow> bool" where
  "same_but_private_keys p q \<longleftrightarrow>
     probe_look_path p = probe_look_path q \<and> probe_stat p = probe_stat q
     \<and> probe_read_file p = probe_read_file q
     \<and> probe_run p ''ip'' [''-json'', ''addr''] = probe_run q ''ip'' [''-json'', ''addr'']
     \<and> (\<forall>s. rel_prod (rel_option rekeyed_dumps) (=)
          (run_state (probe_run p ''wg'' [''show'', ''all'', ''dump'']) s)
          (run_state (probe_run q ''wg'' [''show'', ''all'', ''dump'']) s))"

lemma private_keys_secret:
  assumes "same_but_private_keys p q"
  shows "same_but_secrets p q"
proof -
  have "rel_prod (rel_option same_line_publics) (=) x y" if "rel_prod (rel_option rekeyed_dumps) (=) x y" for x y :: "bytes option \<times> 'a"
    using that by (cases x; cases y; cases "fst x"; cases "fst y") (auto simp: same_line_publics_def rekeyed_same)
  then show ?thesis using assms unfolding same_but_private_keys_def same_but_secrets_def by blast
qed

text \<open>
  The report does not depend on the keys the parser takes for secret: hosts that differ in private and
  preshared keys only, in the format the code documents, give the same report.
\<close>

lemma network_state_hides_secrets:
  assumes "same_but_secrets p q"
  shows "detector_network_state upper ctx \<lparr>det_probe = p, det_prefix = prefix\<rparr> agent
    = detector_network_state upper ctx \<lparr>det_probe = q, det_prefix = prefix\<rparr> agent"
proof -
  let ?p = "\<lparr>det_probe = p, det_prefix = prefix\<rparr>" and ?q = "\<lparr>det_probe = q, det_prefix = prefix\<rparr>"
  have "detect ctx ?p = detect ctx ?q"
  proof -
    have "binary_available ?p = binary_available ?q" "file_exists ?p = file_exists ?q"
      "read_bool_file ?p = read_bool_file ?q"
      using assms unfolding same_but_secrets_def
      by (simp_all add: fun_eq_iff binary_available_def file_exists_def read_bool_file_def)
    then show ?thesis by (simp add: detect_def detect_forwarding_def cong: option.case_cong)
  qed
  moreover have "list_managed_interfaces upper ?p = list_managed_interfaces upper ?q"
  proof (rule state_eqI)
    fix s
    obtain a s1 where a: "run_state (probe_run p ''wg'' [''show'', ''all'', ''dump'']) s = (a, s1)" by fastforce
    obtain b s2 where b: "run_state (probe_run q ''wg'' [''show'', ''all'', ''dump'']) s = (b, s2)" by fastforce
    have r: "rel_option same_line_publics a b" "s1 = s2"
      using assms a b unfolding same_but_secrets_def by (auto dest!: spec[of _ s])
    have t: "read_address_table upper ?p = read_address_table upper ?q"
      using assms by (simp add: read_address_table_def same_but_secrets_def cong: option.case_cong)
    from r(1) show "run_state (list_managed_interfaces upper ?p) s = run_state (list_managed_interfaces upper ?q) s"
    proof cases
      case None
      with a b r(2) show ?thesis by (simp add: list_managed_interfaces_def run_state_bind)
    next
      case (Some x y)
      then have "parse_wireguard_dump prefix x = parse_wireguard_dump prefix y"
        by (intro same_public_dump) (simp add: same_line_publics_def)
      with Some a b r(2) t show ?thesis
        by (simp add: list_managed_interfaces_def run_state_bind Let_def cong: if_cong)
    qed
  qed
  ultimately show ?thesis by (simp add: detector_network_state_def cong: sum.case_cong if_cong)
qed


lemma network_state_hides_secrets_witness:
  "detector_network_state (\<lambda>s. s) (State_Monad.return None)
     \<lparr>det_probe = sample_host (sample_dump ''k1'' ''p1''), det_prefix = ''anvilwg''\<rparr> sample_agent
   = detector_network_state (\<lambda>s. s) (State_Monad.return None)
     \<lparr>det_probe = sample_host (sample_dump ''k2'' ''p2''), det_prefix = ''anvilwg''\<rparr> sample_agent"
proof (rule network_state_hides_secrets)
  show "same_but_secrets (sample_host (sample_dump ''k1'' ''p1'')) (sample_host (sample_dump ''k2'' ''p2''))"
    using sample_dumps_same by (simp add: same_but_secrets_def sample_host_def same_line_publics_def)
qed

subsection \<open>What the text of a report says\<close>

definition json_handshake :: "int option \<Rightarrow> json" where
  "json_handshake h = (case h of None \<Rightarrow> JNull
     | Some seconds \<Rightarrow> JStr (the (format_time \<lparr>in_secs = seconds, in_nanos = 0\<rparr>)))"

definition json_peer :: "peer \<Rightarrow> json" where
  "json_peer p = jobj
     [(''publicKey'', JStr (to_valid (peer_public_key p))),
      (''latestHandshakeAt'', json_handshake (peer_handshake p)),
      (''rxBytes'', JNum (itoa (peer_rx p))), (''txBytes'', JNum (itoa (peer_tx p)))]"

definition json_interface :: "managed_interface \<Rightarrow> json" where
  "json_interface i = jobj
     [(''name'', JStr (to_valid (mi_name i))), (''status'', JStr (to_valid (mi_status i))),
      (''publicKey'', JStr (to_valid (mi_public_key i))), (''listenPort'', JNum (itoa (mi_listen_port i))),
      (''addresses'', jarr (map (\<lambda>a. JStr (to_valid a)) (mi_addresses i))),
      (''peers'', jarr (map json_peer (mi_peers i)))]"

definition json_network_state :: "network_state \<Rightarrow> json" where
  "json_network_state n = jobj
     [(''agent'', jobj [(''id'', JStr (to_valid (na_id (nst_agent n)))),
        (''stateSchemaVersion'', JNum (itoa (na_schema_version (nst_agent n))))]),
      (''network'', jobj
        [(''wireGuardAvailable'', JBool (ns_wire_guard (nst_network n))),
         (''ipCommandAvailable'', JBool (ns_ip_command (nst_network n))),
         (''iptablesAvailable'', JBool (ns_iptables (nst_network n))),
         (''ip6tablesAvailable'', JBool (ns_ip6tables (nst_network n))),
         (''forwarding'', jobj [(''ipv4'', JBool (fw_ipv4 (ns_forwarding (nst_network n)))),
            (''ipv6'', JBool (fw_ipv6 (ns_forwarding (nst_network n))))]),
         (''managedInterfaces'', jarr (map json_interface (ns_interfaces (nst_network n))))])]"

lemma those_list_all2: "those xs = Some ys \<longleftrightarrow> list_all2 (\<lambda>x y. x = Some y) xs ys"
  by (induction xs arbitrary: ys) (auto simp: list_all2_Cons1 split: option.splits)

lemma says_those:
  assumes "those (map enc xs) = Some ts" and "\<And>x t. x \<in> set xs \<Longrightarrow> enc x = Some t \<Longrightarrow> says t (val x) h"
  shows "says (enc_array ts) (jarr (map val xs)) (Suc h)"
proof (rule says_array)
  have "list_all2 (\<lambda>x t. enc x = Some t) xs ts" using assms(1) by (simp add: those_list_all2 list_all2_map1)
  then show "list_all2 (\<lambda>t v. says t v h) ts (map val xs)"
    using assms(2) by (induction rule: list_all2_induct) auto
qed


lemma report_keys [simp]:
  "to_valid ''publicKey'' = ''publicKey''" "to_valid ''latestHandshakeAt'' = ''latestHandshakeAt''"
  "to_valid ''rxBytes'' = ''rxBytes''" "to_valid ''txBytes'' = ''txBytes''"
  "to_valid ''name'' = ''name''" "to_valid ''status'' = ''status''"
  "to_valid ''listenPort'' = ''listenPort''" "to_valid ''addresses'' = ''addresses''"
  "to_valid ''peers'' = ''peers''" "to_valid ''agent'' = ''agent''" "to_valid ''id'' = ''id''"
  "to_valid ''stateSchemaVersion'' = ''stateSchemaVersion''" "to_valid ''network'' = ''network''"
  "to_valid ''wireGuardAvailable'' = ''wireGuardAvailable''"
  "to_valid ''ipCommandAvailable'' = ''ipCommandAvailable''"
  "to_valid ''iptablesAvailable'' = ''iptablesAvailable''"
  "to_valid ''ip6tablesAvailable'' = ''ip6tablesAvailable''"
  "to_valid ''forwarding'' = ''forwarding''" "to_valid ''ipv4'' = ''ipv4''" "to_valid ''ipv6'' = ''ipv6''"
  "to_valid ''managedInterfaces'' = ''managedInterfaces''"
  by code_simp+

lemma says_handshake:
  assumes "enc_handshake h = Some t"
  shows "says t (json_handshake h) k"
proof (cases h)
  case None
  then have "t = ''null''" using assms unfolding enc_handshake_def by simp
  then show ?thesis using says_null None unfolding json_handshake_def by simp
next
  case (Some seconds)
  with assms obtain z where z: "format_time \<lparr>in_secs = seconds, in_nanos = 0\<rparr> = Some z" "t = enc_string z"
    by (auto simp: enc_handshake_def)
  have "says (enc_string z) (JStr z) k"
    using says_string[of z k] to_valid_ascii[OF format_time_ascii[OF z(1)]] by simp
  with z Some show ?thesis by (simp add: json_handshake_def)
qed

lemma says_peer:
  assumes "enc_peer p = Some t"
  shows "says t (json_peer p) 1"
proof -
  obtain h where h: "enc_handshake (peer_handshake p) = Some h"
    and t: "t = enc_object [(''publicKey'', enc_string (peer_public_key p)), (''latestHandshakeAt'', h),
      (''rxBytes'', itoa (peer_rx p)), (''txBytes'', itoa (peer_tx p))]"
    using assms by (auto simp: enc_peer_def)
  show ?thesis
    unfolding t json_peer_def One_nat_def
    by (rule says_object) (simp add: says_string says_int says_handshake[OF h])
qed

lemma says_addresses: "says (enc_array (map enc_string as)) (jarr (map (\<lambda>a. JStr (to_valid a)) as)) (Suc h)"
  by (rule says_array) (simp add: list_all2_map1 list_all2_map2 list_all2_same says_string)

lemma says_interface:
  assumes "enc_managed_interface i = Some t"
  shows "says t (json_interface i) 3"
proof -
  obtain ps where ps: "those (map enc_peer (mi_peers i)) = Some ps"
    and t: "t = enc_object [(''name'', enc_string (mi_name i)), (''status'', enc_string (mi_status i)),
      (''publicKey'', enc_string (mi_public_key i)), (''listenPort'', itoa (mi_listen_port i)),
      (''addresses'', enc_array (map enc_string (mi_addresses i))), (''peers'', enc_array ps)]"
    using assms by (auto simp: enc_managed_interface_def)
  have "says (enc_array ps) (jarr (map json_peer (mi_peers i))) (Suc 1)"
    using ps says_peer by (rule says_those)
  then have "says t (json_interface i) (Suc (Suc 1))"
    unfolding t json_interface_def
    by (intro says_object) (simp add: says_string says_int says_addresses)
  then show ?thesis by (simp add: numeral_3_eq_3)
qed

lemma says_network_state:
  assumes "enc_network_state report = Some data"
  shows "says data (json_network_state report) 6"
proof -
  define n where "n = nst_network report"
  obtain ts where i: "those (map enc_managed_interface (ns_interfaces n)) = Some ts"
    and d: "data = enc_object [(''agent'', enc_network_agent (nst_agent report)),
       (''network'', enc_object
         [(''wireGuardAvailable'', enc_bool (ns_wire_guard n)), (''ipCommandAvailable'', enc_bool (ns_ip_command n)),
          (''iptablesAvailable'', enc_bool (ns_iptables n)), (''ip6tablesAvailable'', enc_bool (ns_ip6tables n)),
          (''forwarding'', enc_forwarding (ns_forwarding n)), (''managedInterfaces'', enc_array ts)])]"
    using assms by (auto simp: enc_network_state_def enc_network_summary_def n_def)
  define k :: nat where "k = 3"
  have a: "says (enc_array ts) (jarr (map json_interface (ns_interfaces n))) (Suc k)"
    using i says_interface unfolding k_def by (rule says_those)
  have f: "says (enc_forwarding (ns_forwarding n)) (jobj [(''ipv4'', JBool (fw_ipv4 (ns_forwarding n))),
      (''ipv6'', JBool (fw_ipv6 (ns_forwarding n)))]) (Suc k)"
    unfolding enc_forwarding_def by (rule says_object) (simp add: says_bool)
  have g: "says (enc_network_agent (nst_agent report)) (jobj [(''id'', JStr (to_valid (na_id (nst_agent report)))),
      (''stateSchemaVersion'', JNum (itoa (na_schema_version (nst_agent report))))]) (Suc (Suc k))"
    unfolding enc_network_agent_def by (rule says_object) (simp add: says_string says_int)
  have "says data (json_network_state report) (Suc (Suc (Suc k)))"
    unfolding d json_network_state_def n_def[symmetric]
    by (rule says_object) (simp add: g says_object says_bool a f)
  then show ?thesis by (simp add: k_def numeral_eq_Suc)
qed

text \<open>
  Whatever reads the text of a network state report gets exactly the fields of the report:
  nothing is added, lost or mixed up, whatever the names, keys and addresses contain.
\<close>

lemma network_state_says:
  assumes "enc_network_state report = Some data"
  shows "map_option plain (read_document data) = Some (json_network_state report)"
  using says_network_state[OF assms] by (rule says_document) (simp add: max_depth_def)

lemma network_state_says_witness:
  "\<exists>data. enc_network_state sample_network_report = Some data
    \<and> map_option plain (read_document data) = Some (json_network_state sample_network_report)"
proof -
  have "enc_network_state sample_network_report \<noteq> None" by code_simp
  then obtain data where "enc_network_state sample_network_report = Some data" by blast
  with network_state_says[OF this] show ?thesis by blast
qed

end
