(* ===== verification/State_Identity.thy ===== *)
theory State_Identity
  imports Go_Json_Decode Go_Json_Encode Go_Time Incus "HOL-Library.Word"
begin

unbundle bit_operations_syntax

text \<open>
  Package \<^verbatim>\<open>state\<close>, the agent's identity: random UUIDs as bytes of width eight, the
  identity file, and \<^verbatim>\<open>LoadIdentity\<close> over the operations of the host it uses. The main
  results: a generated identifier always passes the check the file is read with, and an identity
  that was written is the one every later load returns.
\<close>

subsection \<open>UUIDs\<close>

definition hex_byte :: "8 word \<Rightarrow> string" where
  [go_defs]: "hex_byte b = [hex_digit (unat b div 16), hex_digit (unat b mod 16)]"

text \<open>\<^verbatim>\<open>hex.Encode\<close> of a range of the sixteen bytes.\<close>

definition hex_range :: "nat \<Rightarrow> nat \<Rightarrow> 8 word list \<Rightarrow> string" where
  [go_defs]: "hex_range i j b = concat (map hex_byte (take (j - i) (drop i b)))"

definition new_uuid :: "8 word list \<Rightarrow> string" where
  [svc_defs]: "new_uuid r =
     (let b = r[6 := (r ! 6 AND 0x0F) OR 0x40];
          b = b[8 := (b ! 8 AND 0x3F) OR 0x80]
      in hex_range 0 4 b @ ''-'' @ hex_range 4 6 b @ ''-'' @ hex_range 6 8 b @ ''-''
         @ hex_range 8 10 b @ ''-'' @ hex_range 10 16 b)"

definition is_hex :: "char \<Rightarrow> bool" where
  [go_defs]: "is_hex c \<longleftrightarrow> is_digit c \<or> (97 \<le> byte c \<and> byte c \<le> 102)"

text \<open>\<^verbatim>\<open>uuidPattern\<close>, one class per byte of the match.\<close>

definition uuid_pattern :: "(char \<Rightarrow> bool) list" where
  [svc_defs]: "uuid_pattern =
     replicate 8 is_hex @ [\<lambda>c. c = CHR ''-''] @ replicate 4 is_hex @ [\<lambda>c. c = CHR ''-'']
     @ [\<lambda>c. 49 \<le> byte c \<and> byte c \<le> 53] @ replicate 3 is_hex @ [\<lambda>c. c = CHR ''-'']
     @ [\<lambda>c. c \<in> set ''89ab''] @ replicate 3 is_hex @ [\<lambda>c. c = CHR ''-''] @ replicate 12 is_hex"

definition is_uuid :: "string \<Rightarrow> bool" where
  [svc_defs]: "is_uuid v \<longleftrightarrow> list_all2 (\<lambda>p c. p c) uuid_pattern v"

subsection \<open>The identity file\<close>

definition identity_file_name :: string where
  [svc_defs]: "identity_file_name = ''identity.json''"

definition current_state_schema_version :: int where
  [svc_defs]: "current_state_schema_version = 1"

record agent_identity =
  id_id :: string
  id_created_at :: instant
  id_schema_version :: int

text \<open>The zero \<^verbatim>\<open>time.Time\<close>: 0001-01-01T00:00:00Z.\<close>

definition zero_time :: instant where
  [go_defs]: "zero_time = \<lparr>in_secs = - 62135596800, in_nanos = 0\<rparr>"

text \<open>
  \<^verbatim>\<open>Time.UnmarshalJSON\<close>: the raw text between the quotes; \<^verbatim>\<open>null\<close> changes nothing.
  What the strict reader does not accept goes to \<^verbatim>\<open>time.Parse\<close>, the parameter
  \<open>lenient\<close>.
\<close>

definition dec_time :: "(string \<Rightarrow> instant option) \<Rightarrow> instant decoder" where
  [go_defs]: "dec_time lenient raw v st =
     (case v of
        JNull \<Rightarrow> st
      | JStr _ \<Rightarrow>
          (let txt = butlast (tl raw)
           in case (case parse_rfc3339 txt of Some t \<Rightarrow> Some t | None \<Rightarrow> lenient txt) of
                Some t \<Rightarrow> (t, snd st)
              | None \<Rightarrow> save_error Type_Mismatch st)
      | _ \<Rightarrow> save_error Type_Mismatch st)"

definition identity_fields :: "(string \<Rightarrow> instant option) \<Rightarrow> agent_identity field_table" where
  [svc_defs]: "identity_fields lenient =
     [(''id'', at_field id_id id_id_update dec_string),
      (''createdAt'', at_field id_created_at id_created_at_update (dec_time lenient)),
      (''stateSchemaVersion'', at_field id_schema_version id_schema_version_update dec_int)]"

definition zero_identity :: agent_identity where
  [svc_defs]: "zero_identity = \<lparr>id_id = [], id_created_at = zero_time, id_schema_version = 0\<rparr>"

datatype identity_error =
    Dir_Required
  | Mkdir_Failed string
  | Read_Failed string
  | Parse_Failed json_error
  | Invalid_Id
  | Invalid_Created_At
  | Unsupported_Version int
  | Marshal_Failed
  | Write_Failed string
  | Random_Panic

definition parse_identity ::
  "(string \<Rightarrow> instant option) \<Rightarrow> bytes \<Rightarrow> identity_error + agent_identity" where
  [svc_defs]: "parse_identity lenient data =
     (case unmarshal (dec_struct False (identity_fields lenient)) data zero_identity of
        (i, Some e) \<Rightarrow> Inl (Parse_Failed e)
      | (i, None) \<Rightarrow>
          if \<not> is_uuid (id_id i) then Inl Invalid_Id
          else if id_created_at i = zero_time then Inl Invalid_Created_At
          else if id_schema_version i \<noteq> current_state_schema_version
          then Inl (Unsupported_Version (id_schema_version i))
          else Inr i)"

text \<open>\<^verbatim>\<open>json.MarshalIndent(identity, \"\", \"  \")\<close>.\<close>

definition line_feed :: string where
  [go_defs]: "line_feed = [CHR 0x0A]"

definition indented_member :: "string \<times> string \<Rightarrow> string" where
  [go_defs]: "indented_member m = ''  '' @ enc_string (fst m) @ '': '' @ snd m"

definition enc_identity :: "agent_identity \<Rightarrow> bytes option" where
  [svc_defs]: "enc_identity i = map_option (\<lambda>t.
     ''{'' @ line_feed
     @ join_with ('','' @ line_feed) (map indented_member
         [(''id'', enc_string (id_id i)), (''createdAt'', enc_string t),
          (''stateSchemaVersion'', itoa (id_schema_version i))])
     @ line_feed @ ''}'') (format_time (id_created_at i))"

subsection \<open>Loading\<close>

text \<open>
  The host operations \<^verbatim>\<open>LoadIdentity\<close> uses, as state transformers. \<open>ih_random\<close> gives the
  sixteen bytes of \<^verbatim>\<open>rand.Read\<close>, or \<open>None\<close> when it fails (the code panics).
\<close>

datatype read_result = Read_Ok bytes | Read_Not_Exist | Read_Error string

record 's identity_host =
  ih_mkdir_all :: "string \<Rightarrow> ('s, string option) state"
  ih_read_file :: "string \<Rightarrow> ('s, read_result) state"
  ih_random :: "('s, 8 word list option) state"
  ih_now :: "('s, instant) state"
  ih_write_file :: "string \<Rightarrow> bytes \<Rightarrow> ('s, string option) state"
  ih_join :: "string \<Rightarrow> string \<Rightarrow> string"

definition create_identity :: "'s identity_host \<Rightarrow> string \<Rightarrow> ('s, identity_error + agent_identity) state" where
  [svc_defs]: "create_identity h path = do {
     random \<leftarrow> ih_random h;
     case random of None \<Rightarrow> State_Monad.return (Inl Random_Panic)
     | Some r \<Rightarrow> do {
         now \<leftarrow> ih_now h;
         (let identity = \<lparr>id_id = new_uuid r, id_created_at = now,
                id_schema_version = current_state_schema_version\<rparr>
          in case enc_identity identity of None \<Rightarrow> State_Monad.return (Inl Marshal_Failed)
             | Some data \<Rightarrow> do {
                 err \<leftarrow> ih_write_file h path (data @ line_feed);
                 State_Monad.return (case err of Some e \<Rightarrow> Inl (Write_Failed e) | None \<Rightarrow> Inr identity) }) } }"

definition load_identity ::
  "(string \<Rightarrow> instant option) \<Rightarrow> 's identity_host \<Rightarrow> string
     \<Rightarrow> ('s, identity_error + agent_identity) state" where
  [svc_defs]: "load_identity lenient h state_dir =
     (if state_dir = [] then State_Monad.return (Inl Dir_Required)
      else do {
        err \<leftarrow> ih_mkdir_all h state_dir;
        case err of Some e \<Rightarrow> State_Monad.return (Inl (Mkdir_Failed e))
        | None \<Rightarrow>
            (let path = ih_join h state_dir identity_file_name
             in do {
               read \<leftarrow> ih_read_file h path;
               case read of
                 Read_Ok data \<Rightarrow> State_Monad.return (parse_identity lenient data)
               | Read_Error e \<Rightarrow> State_Monad.return (Inl (Read_Failed e))
               | Read_Not_Exist \<Rightarrow> create_identity h path }) })"

subsection \<open>Generated identifiers\<close>

lemma byte_word_less: "unat (b :: 8 word) < 256"
  using unsigned_less[of b] by simp

lemma high_nibble: "unat (b :: 8 word) div 16 = unat (drop_bit 4 b)"
  by (simp add: drop_bit_eq_div unat_div)

lemma low_bits: "(x :: 8 word) AND 3 \<in> {0, 1, 2, 3}"
proof -
  have "x AND 3 = take_bit 2 x" by (simp add: take_bit_eq_mask mask_eq_exp_minus_1)
  moreover have "unat (take_bit 2 x) < 4" by (simp add: take_bit_eq_mod unat_mod)
  ultimately have "unat (x AND 3) \<in> {0, 1, 2, 3}" by auto
  moreover have "x AND 3 = word_of_nat (unat (x AND 3))" by simp
  ultimately obtain n where "x AND 3 = word_of_nat n" "n \<in> {0, 1, 2, 3 :: nat}" by blast
  then show ?thesis by auto
qed

lemma version_nibble: "unat ((b AND 0x0F) OR 0x40 :: 8 word) div 16 = 4"
  by (simp add: high_nibble drop_bit_or drop_bit_and)

lemma variant_nibble: "unat ((b AND 0x3F) OR 0x80 :: 8 word) div 16 \<in> {8, 9, 10, 11}"
proof -
  have "drop_bit 4 ((b AND 0x3F) OR 0x80) = (drop_bit 4 b AND 3) OR 8"
    by (simp add: drop_bit_or drop_bit_and)
  then show ?thesis unfolding high_nibble using low_bits[of "drop_bit 4 b"] by auto
qed

lemma variant_digit: "n \<in> {8, 9, 10, 11} \<Longrightarrow> hex_digit n \<in> set ''89ab''"
proof -
  assume "n \<in> {8, 9, 10, 11}"
  moreover have "list_all (\<lambda>n. hex_digit n \<in> set ''89ab'') [8, 9, 10, 11]" by code_simp
  ultimately show ?thesis by (auto simp: list_all_iff)
qed

lemma is_hex_digit: "n < 16 \<Longrightarrow> is_hex (hex_digit n)"
proof -
  assume "n < 16"
  moreover have "list_all (\<lambda>n. is_hex (hex_digit n)) [0..<16]" by code_simp
  ultimately show ?thesis by (simp add: list_all_iff)
qed

lemma hex_byte_classes: "list_all2 (\<lambda>p c. p c) [is_hex, is_hex] (hex_byte b)"
  using byte_word_less[of b] by (simp add: hex_byte_def is_hex_digit)

lemma hex_bytes_classes:
  "list_all2 (\<lambda>p c. p c) (replicate (2 * length bs) is_hex) (concat (map hex_byte bs))"
proof (induction bs)
  case (Cons b bs)
  have "replicate (2 * length (b # bs)) is_hex = [is_hex, is_hex] @ replicate (2 * length bs) is_hex"
    by simp
  then show ?case
    using Cons.IH hex_byte_classes[of b] by (simp only: concat.simps list.map list_all2_appendI)
qed simp

lemma hex_range_classes:
  assumes "i \<le> j" and "j \<le> length b"
  shows "list_all2 (\<lambda>p c. p c) (replicate (2 * (j - i)) is_hex) (hex_range i j b)"
  using hex_bytes_classes[of "take (j - i) (drop i b)"] assms by (simp add: hex_range_def)

lemma split_byte_range:
  assumes "i < j" and "j \<le> length b"
  shows "hex_range i j b = hex_byte (b ! i) @ hex_range (Suc i) j b"
proof -
  obtain k where j: "j - i = Suc k" "j - Suc i = k" using assms by (cases "j - i") auto
  have "drop i b = b ! i # drop (Suc i) b" using assms by (intro Cons_nth_drop_Suc[symmetric]) simp
  then show ?thesis by (simp add: hex_range_def j)
qed

lemma new_uuid_is_uuid:
  assumes "length r = 16"
  shows "is_uuid (new_uuid r)"
proof -
  define b where "b = r[6 := (r ! 6 AND 0x0F) OR 0x40, 8 := (r ! 8 AND 0x3F) OR 0x80]"
  have l: "length b = 16" using assms by (simp add: b_def)
  have b6: "b ! 6 = (r ! 6 AND 0x0F) OR 0x40" and b8: "b ! 8 = (r ! 8 AND 0x3F) OR 0x80"
    using assms by (simp_all add: b_def)
  have lo: "is_hex (hex_digit (unat (b ! i) mod 16))" for i by (simp add: is_hex_digit)
  have h6: "list_all2 (\<lambda>p c. p c) ((\<lambda>c. 49 \<le> byte c \<and> byte c \<le> 53) # [is_hex]) (hex_byte (b ! 6))"
    using lo[of 6] unfolding hex_byte_def b6 version_nibble by (simp add: hex_digit_def)
  have h8: "list_all2 (\<lambda>p c. p c) ((\<lambda>c. c \<in> set ''89ab'') # [is_hex]) (hex_byte (b ! 8))"
    using lo[of 8] variant_digit[OF variant_nibble[of "r ! 8"]] unfolding hex_byte_def b8 by simp
  have u: "new_uuid r = hex_range 0 4 b @ ''-'' @ hex_range 4 6 b @ ''-'' @ (hex_byte (b ! 6) @ hex_range 7 8 b)
      @ ''-'' @ (hex_byte (b ! 8) @ hex_range 9 10 b) @ ''-'' @ hex_range 10 16 b"
    using split_byte_range[of 6 8 b] split_byte_range[of 8 10 b] assms l
    by (simp add: new_uuid_def Let_def b_def)
  have p: "uuid_pattern = replicate (2 * (4 - 0)) is_hex @ [\<lambda>c. c = CHR ''-''] @ replicate (2 * (6 - 4)) is_hex
      @ [\<lambda>c. c = CHR ''-''] @ (((\<lambda>c. 49 \<le> byte c \<and> byte c \<le> 53) # [is_hex]) @ replicate (2 * (8 - 7)) is_hex)
      @ [\<lambda>c. c = CHR ''-''] @ (((\<lambda>c. c \<in> set ''89ab'') # [is_hex]) @ replicate (2 * (10 - 9)) is_hex)
      @ [\<lambda>c. c = CHR ''-''] @ replicate (2 * (16 - 10)) is_hex"
    by (simp add: uuid_pattern_def numeral_eq_Suc)
  show ?thesis
    unfolding is_uuid_def u p
    by (intro list_all2_appendI hex_range_classes h6 h8) (simp_all add: l)
qed


text \<open>
  C22. Every generated identifier is a UUID in the sense of the pattern the identity file is checked
  with, whatever the sixteen random bytes are: the version and variant bits are set on bytes of
  width eight.
\<close>

theorem new_uuid_valid:
  assumes "length r = 16"
  shows "is_uuid (new_uuid r)"
  using assms by (rule new_uuid_is_uuid)

definition sample_random :: "8 word list" where
  "sample_random = map word_of_nat [0, 17, 34, 51, 68, 85, 255, 119, 255, 153, 170, 187, 204, 221, 238, 255]"

lemma new_uuid_valid_witness: "is_uuid (new_uuid sample_random)"
  by (rule new_uuid_valid) (simp add: sample_random_def)

subsection \<open>The written file is read back\<close>

lemma uuid_chars:
  assumes "is_uuid v"
  shows "to_valid v = v"
proof (rule to_valid_ascii)
  have "list_all2 (\<lambda>p c. p c \<longrightarrow> byte c < 128) uuid_pattern v"
  proof -
    have "list_all (\<lambda>p. \<forall>c. p c \<longrightarrow> byte c < 128) uuid_pattern"
      by (auto simp: uuid_pattern_def is_hex_def is_digit_def list_all_iff)
    moreover have "length v = length uuid_pattern"
      using assms by (auto simp: is_uuid_def dest: list_all2_lengthD)
    ultimately show ?thesis by (auto simp: list_all2_conv_all_nth list_all_length)
  qed
  with assms show "list_all (\<lambda>c. byte c < 128) v"
    by (auto simp: is_uuid_def list_all2_conv_all_nth list_all_length)
qed

lemma spaced_member_key:
  assumes "t \<noteq> []" and "\<not> is_ws (hd t)"
  shows "member_key (enc_string k @ '': '' @ t @ r) = Some (to_valid k, t @ r)"
proof -
  have "skip_ws ('' '' @ t @ r) = t @ r" using skip_ws_hd[OF assms, of r] by (simp add: skip_ws_def is_ws_def)
  then show ?thesis by (simp add: member_key_def enc_string_def read_string_enc_chars is_ws_def)
qed

lemma enc_string_start: "enc_string s \<noteq> []" "\<not> is_ws (hd (enc_string s))"
  by (simp_all add: enc_string_def is_ws_def)

lemma read_enc_string:
  assumes "delimited r"
  shows "read_value (Suc f) d (enc_string s @ r) = Some (JStr (to_valid s), r)"
  by (simp add: enc_string_def read_scalar_def read_string_enc_chars)

text \<open>A string member followed by another member on a line of its own.\<close>

lemma read_indented_member:
  assumes "read_members (Suc f) d (CHR 0x22 # r) = Some (ms, rest)"
  shows "read_members (Suc (Suc f)) d (enc_string k @ '': '' @ enc_string t @ '','' @ line_feed @ ''  '' @ CHR 0x22 # r)
    = Some ((to_valid k, enc_string t, JStr (to_valid t)) # ms, rest)"
proof -
  let ?r = "'','' @ line_feed @ ''  '' @ CHR 0x22 # r"
  have k: "member_key (enc_string k @ '': '' @ enc_string t @ ?r) = Some (to_valid k, enc_string t @ ?r)"
    using enc_string_start by (rule spaced_member_key)
  have v: "read_value (Suc f) d (enc_string t @ ?r) = Some (JStr (to_valid t), ?r)"
    by (rule read_enc_string) (simp add: delimited_def)
  have i: "item_end CHR ''}'' ?r = Some (False, CHR 0x22 # r)"
    by (simp add: item_end_def line_feed_def skip_ws_def is_ws_def)
  show ?thesis
    unfolding read_members.simps(2)[of "Suc f"] k option.case prod.case v i
    using assms by (simp del: append_Cons read_members.simps)
qed

lemma read_identity_document:
  "read_document (''{'' @ line_feed @ ''  '' @ enc_string ''id'' @ '': '' @ enc_string u @ '','' @ line_feed
     @ ''  '' @ enc_string ''createdAt'' @ '': '' @ enc_string t @ '','' @ line_feed
     @ ''  '' @ enc_string ''stateSchemaVersion'' @ '': '' @ ''1'' @ line_feed @ ''}'' @ line_feed)
   = Some (JObj [(''id'', enc_string u, JStr (to_valid u)), (''createdAt'', enc_string t, JStr (to_valid t)),
       (''stateSchemaVersion'', ''1'', JNum ''1'')])"
proof -
  let ?v = "enc_string ''stateSchemaVersion'' @ '': '' @ ''1'' @ line_feed @ ''}'' @ line_feed"
  let ?c = "enc_string ''createdAt'' @ '': '' @ enc_string t @ '','' @ line_feed @ ''  '' @ ?v"
  let ?i = "enc_string ''id'' @ '': '' @ enc_string u @ '','' @ line_feed @ ''  '' @ ?c"
  let ?s = "''{'' @ line_feed @ ''  '' @ ?i"
  have k: "to_valid ''id'' = ''id''" "to_valid ''createdAt'' = ''createdAt''"
    "to_valid ''stateSchemaVersion'' = ''stateSchemaVersion''"
    by code_simp+
  obtain rv rc ri where q: "?v = CHR 0x22 # rv" "?c = CHR 0x22 # rc" "?i = CHR 0x22 # ri"
    by (simp add: enc_string_def)
  have v: "read_members (Suc (Suc f)) (Suc 0) ?v = Some ([(''stateSchemaVersion'', ''1'', JNum ''1'')], line_feed)" for f
  proof -
    have "member_key ?v = Some (''stateSchemaVersion'', ''1'' @ line_feed @ ''}'' @ line_feed)"
      using spaced_member_key[of "''1''" "''stateSchemaVersion''" "line_feed @ ''}'' @ line_feed"]
      by (simp only: k) (simp add: is_ws_def)
    moreover have "read_value (Suc f) (Suc 0) (''1'' @ line_feed @ ''}'' @ line_feed)
        = Some (JNum ''1'', line_feed @ ''}'' @ line_feed)"
      by (simp add: read_scalar_def read_number_def read_frac_def read_exp_def is_digit_def line_feed_def Let_def)
    moreover have "item_end CHR ''}'' (line_feed @ ''}'' @ line_feed) = Some (True, line_feed)"
      by (simp add: item_end_def line_feed_def skip_ws_def is_ws_def)
    ultimately show ?thesis by (simp add: raw_slice_def del: append_Cons append_Nil read_value.simps)
  qed
  have c: "read_members (Suc (Suc (Suc f))) (Suc 0) ?c = Some ([(''createdAt'', enc_string t, JStr (to_valid t)),
      (''stateSchemaVersion'', ''1'', JNum ''1'')], line_feed)" for f
    using read_indented_member[of "Suc f" "Suc 0" rv _ _ "''createdAt''" t] v[of f] unfolding q(1) k by blast
  have i: "read_members (Suc (Suc (Suc (Suc f)))) (Suc 0) ?i = Some ([(''id'', enc_string u, JStr (to_valid u)),
      (''createdAt'', enc_string t, JStr (to_valid t)), (''stateSchemaVersion'', ''1'', JNum ''1'')], line_feed)" for f
    using read_indented_member[of "Suc (Suc f)" "Suc 0" rc _ _ "''id''" u] c[of f] unfolding q(2) k by blast
  have o: "open_body CHR ''}'' (line_feed @ ''  '' @ ?i) = Some (False, ?i)"
    unfolding q(3) by (simp add: open_body_def line_feed_def skip_ws_def is_ws_def)
  obtain g where g: "2 * length ?s + 2 = Suc (Suc (Suc (Suc (Suc g))))"
    by (rule that[of "2 * length ?s - 3"]) (simp add: enc_string_def)
  have "read_value (2 * length ?s + 2) 0 ?s = Some (JObj [(''id'', enc_string u, JStr (to_valid u)),
      (''createdAt'', enc_string t, JStr (to_valid t)), (''stateSchemaVersion'', ''1'', JNum ''1'')], line_feed)"
    unfolding g using o i[of g] by (simp add: max_depth_def del: read_members.simps)
  moreover have "skip_ws ?s = ?s" by (simp add: skip_ws_def is_ws_def)
  moreover have "skip_ws line_feed = []" by (simp add: skip_ws_def line_feed_def is_ws_def)
  ultimately show ?thesis unfolding read_document_def read_first_def Let_def by simp
qed


lemma enc_chars_time: "list_all time_char s \<Longrightarrow> enc_chars s = s"
proof (induction s)
  case (Cons c s)
  then have "enc_ascii c = [c]"
    by (auto simp: enc_ascii_def time_char_def is_digit_def is_html_char_def)
  with Cons show ?case by (simp add: time_char_ascii)
qed simp

lemma parse_enc_identity:
  assumes "is_uuid (id_id i)" and "id_created_at i \<noteq> zero_time" and "in_nanos (id_created_at i) < 10 ^ 9"
    and "id_schema_version i = current_state_schema_version" and "enc_identity i = Some data"
  shows "parse_identity lenient (data @ line_feed) = Inr i"
proof -
  obtain t where t: "format_time (id_created_at i) = Some t"
    using assms(5) by (auto simp: enc_identity_def)
  have one: "itoa (id_schema_version i) = ''1''"
    using assms(4) by (simp add: current_state_schema_version_def) code_simp
  have raw: "butlast (tl (enc_string t)) = t"
    using enc_chars_time[OF format_time_chars[OF t]] by (simp add: enc_string_def)
  have d: "read_document (data @ line_feed) = Some (JObj [(''id'', enc_string (id_id i), JStr (id_id i)),
      (''createdAt'', enc_string t, JStr (to_valid t)), (''stateSchemaVersion'', ''1'', JNum ''1'')])"
    using assms(5) t read_identity_document[of "id_id i" t] uuid_chars[OF assms(1)] unfolding enc_identity_def
    by (auto simp: indented_member_def one)
  have f: "find_field (identity_fields lenient) ''id'' = Some (at_field id_id id_id_update dec_string)"
    "find_field (identity_fields lenient) ''createdAt''
       = Some (at_field id_created_at id_created_at_update (dec_time lenient))"
    "find_field (identity_fields lenient) ''stateSchemaVersion''
       = Some (at_field id_schema_version id_schema_version_update dec_int)"
    by (simp_all add: find_field_def identity_fields_def)
  have n: "parse_int64 ''1'' = Some 1" by code_simp
  have "unmarshal (dec_struct False (identity_fields lenient)) (data @ line_feed) zero_identity = (i, None)"
    using d f n assms(4) parse_format_time[OF t assms(3)]
    by (simp add: unmarshal_def dec_struct_def dec_member_def at_field_def dec_string_def dec_time_def raw
        dec_int_def zero_identity_def current_state_schema_version_def)
  with assms(1,2,4) show ?thesis by (simp add: parse_identity_def)
qed


subsection \<open>Loading again\<close>

text \<open>
  What the agent relies on the host for: a file that was written with success is read back, and
  neither reading nor making the directory changes it; \<^verbatim>\<open>rand.Read\<close> fills the sixteen bytes;
  the clock is past year one, in nanoseconds below a second.
\<close>

definition stored :: "'s identity_host \<Rightarrow> string \<Rightarrow> bytes \<Rightarrow> 's \<Rightarrow> bool" where
  "stored h path data s \<longleftrightarrow> fst (run_state (ih_read_file h path) s) = Read_Ok data"

definition durable :: "'s identity_host \<Rightarrow> string \<Rightarrow> bool" where
  "durable h dir \<longleftrightarrow>
     (let path = ih_join h dir identity_file_name
      in (\<forall>data s s'. run_state (ih_write_file h path data) s = (None, s') \<longrightarrow> stored h path data s')
         \<and> (\<forall>data s. stored h path data s \<longrightarrow> stored h path data (snd (run_state (ih_read_file h path) s)))
         \<and> (\<forall>data s. stored h path data s \<longrightarrow> stored h path data (snd (run_state (ih_mkdir_all h dir) s))))"

definition sound_sources :: "'s identity_host \<Rightarrow> bool" where
  "sound_sources h \<longleftrightarrow>
     (\<forall>s r s'. run_state (ih_random h) s = (Some r, s') \<longrightarrow> length r = 16)
     \<and> (\<forall>s. in_nanos (fst (run_state (ih_now h) s)) < 10 ^ 9 \<and> fst (run_state (ih_now h) s) \<noteq> zero_time)"

text \<open>What a successful load leaves behind: the file whose reading gives the identity.\<close>

lemma create_identity_leaves:
  assumes "durable h dir" and "sound_sources h"
    and "run_state (create_identity h (ih_join h dir identity_file_name)) s = (Inr i, s')"
  shows "\<exists>data. stored h (ih_join h dir identity_file_name) data s' \<and> parse_identity lenient data = Inr i"
proof -
  let ?path = "ih_join h dir identity_file_name"
  obtain r s1 where r: "run_state (ih_random h) s = (Some r, s1)"
    using assms(3) by (auto simp: create_identity_def run_bind_iff split: option.splits)
  obtain now s2 where now: "run_state (ih_now h) s1 = (now, s2)" by fastforce
  define j where "j = \<lparr>id_id = new_uuid r, id_created_at = now, id_schema_version = current_state_schema_version\<rparr>"
  obtain data where d: "enc_identity j = Some data"
    using assms(3) r now by (auto simp: create_identity_def run_bind_iff j_def Let_def split: option.splits)
  have "i = j" and w: "run_state (ih_write_file h ?path (data @ line_feed)) s2 = (None, s')"
    using assms(3) r now d by (auto simp: create_identity_def run_bind_iff j_def Let_def split: option.splits)
  have "parse_identity lenient (data @ line_feed) = Inr j"
  proof (rule parse_enc_identity[OF _ _ _ _ d])
    show "is_uuid (id_id j)"
      using assms(2) r by (auto simp: j_def sound_sources_def intro!: new_uuid_is_uuid)
    have "in_nanos now < 10 ^ 9 \<and> now \<noteq> zero_time"
      using assms(2) now unfolding sound_sources_def by (metis fst_conv)
    then show "id_created_at j \<noteq> zero_time" "in_nanos (id_created_at j) < 10 ^ 9"
      by (simp_all add: j_def)
  qed (simp add: j_def)
  moreover have "stored h ?path (data @ line_feed) s'"
    using assms(1) w by (auto simp: durable_def Let_def)
  ultimately show ?thesis using \<open>i = j\<close> by blast
qed

lemma load_identity_leaves:
  assumes "durable h dir" and "sound_sources h"
    and "run_state (load_identity lenient h dir) s = (Inr i, s')"
  shows "dir \<noteq> [] \<and> (\<exists>data. stored h (ih_join h dir identity_file_name) data s' \<and> parse_identity lenient data = Inr i)"
proof -
  let ?path = "ih_join h dir identity_file_name"
  have ne: "dir \<noteq> []" using assms(3) by (auto simp: load_identity_def)
  obtain s1 where m: "run_state (ih_mkdir_all h dir) s = (None, s1)"
    using assms(3) ne by (auto simp: load_identity_def run_bind_iff split: option.splits)
  obtain res s2 where r: "run_state (ih_read_file h ?path) s1 = (res, s2)" by fastforce
  show ?thesis
  proof (cases res)
    case (Read_Ok data)
    then have "parse_identity lenient data = Inr i" "s' = s2"
      using assms(3) ne m r by (auto simp: load_identity_def run_bind_iff Let_def)
    moreover have "stored h ?path data s1" using r Read_Ok by (simp add: stored_def)
    moreover have "s2 = snd (run_state (ih_read_file h ?path) s1)" using r by simp
    ultimately have "stored h ?path data s'"
      using assms(1) unfolding durable_def Let_def by blast
    with ne \<open>parse_identity lenient data = Inr i\<close> show ?thesis by blast
  next
    case Read_Not_Exist
    then have "run_state (create_identity h ?path) s2 = (Inr i, s')"
      using assms(3) ne m r by (auto simp: load_identity_def run_bind_iff Let_def)
    from create_identity_leaves[OF assms(1,2) this] ne show ?thesis by blast
  next
    case (Read_Error e)
    then show ?thesis
      using assms(3) ne m r by (auto simp: load_identity_def run_bind_iff Let_def)
  qed
qed

text \<open>
  C23. The identity is stable: once a load has returned an identity, whether it found the file or
  generated the identity and wrote it, the next load returns the same identity, unless the
  directory cannot be made.
\<close>

theorem identity_stable:
  assumes "durable h dir" and "sound_sources h"
    and "run_state (load_identity lenient h dir) s = (Inr i, s1)"
    and "run_state (ih_mkdir_all h dir) s1 = (None, s2)"
  shows "fst (run_state (load_identity lenient h dir) s1) = Inr i"
proof -
  let ?path = "ih_join h dir identity_file_name"
  obtain data where ne: "dir \<noteq> []" and st: "stored h ?path data s1" and p: "parse_identity lenient data = Inr i"
    using load_identity_leaves[OF assms(1-3)] by blast
  have "stored h ?path data (snd (run_state (ih_mkdir_all h dir) s1))"
    using assms(1) st unfolding durable_def Let_def by blast
  then obtain s3 where "run_state (ih_read_file h ?path) s2 = (Read_Ok data, s3)"
    using assms(4) by (cases "run_state (ih_read_file h ?path) s2") (simp add: stored_def)
  with ne assms(4) p show ?thesis by (simp add: load_identity_def run_state_bind Let_def)
qed

text \<open>A host with a disk, a fixed clock and fixed random bytes.\<close>

definition sample_disk_host :: "bytes go_map identity_host" where
  "sample_disk_host =
     \<lparr>ih_mkdir_all = (\<lambda>d. State_Monad.return None),
      ih_read_file = (\<lambda>p. State (\<lambda>s. (case map_of s p of None \<Rightarrow> Read_Not_Exist | Some b \<Rightarrow> Read_Ok b, s))),
      ih_random = State_Monad.return (Some sample_random),
      ih_now = State_Monad.return \<lparr>in_secs = 1700000000, in_nanos = 120000000\<rparr>,
      ih_write_file = (\<lambda>p b. State (\<lambda>s. (None, AList.update p b s))),
      ih_join = (\<lambda>a b. a @ ''/'' @ b)\<rparr>"

definition sample_identity :: agent_identity where
  "sample_identity = \<lparr>id_id = new_uuid sample_random,
     id_created_at = \<lparr>in_secs = 1700000000, in_nanos = 120000000\<rparr>, id_schema_version = 1\<rparr>"

lemma sample_disk_sound: "durable sample_disk_host dir" "sound_sources sample_disk_host"
  by (auto simp: durable_def sound_sources_def sample_disk_host_def stored_def sample_random_def
      zero_time_def update_conv' Let_def)

lemma sample_load:
  "fst (run_state (load_identity (\<lambda>_. None) sample_disk_host ''/var/lib/anvil'') []) = Inr sample_identity"
proof -
  have "format_time \<lparr>in_secs = 1700000000, in_nanos = 120000000\<rparr> = Some ''2023-11-14T22:13:20.12Z''"
    by code_simp
  then show ?thesis
    by (simp add: load_identity_def create_identity_def run_state_bind sample_disk_host_def sample_identity_def
        Let_def enc_identity_def current_state_schema_version_def)
qed

lemma identity_stable_witness:
  "fst (run_state (load_identity (\<lambda>_. None) sample_disk_host ''/var/lib/anvil'')
      (snd (run_state (load_identity (\<lambda>_. None) sample_disk_host ''/var/lib/anvil'') []))) = Inr sample_identity"
proof (rule identity_stable)
  let ?s = "snd (run_state (load_identity (\<lambda>_. None) sample_disk_host ''/var/lib/anvil'') [])"
  show "durable sample_disk_host ''/var/lib/anvil''" "sound_sources sample_disk_host"
    by (rule sample_disk_sound)+
  show "run_state (load_identity (\<lambda>_. None) sample_disk_host ''/var/lib/anvil'') [] = (Inr sample_identity, ?s)"
    using sample_load by (simp add: prod_eq_iff)
  show "run_state (ih_mkdir_all sample_disk_host ''/var/lib/anvil'') ?s = (None, ?s)"
    by (simp add: sample_disk_host_def)
qed

text \<open>
  C38. Every identity a load returns is usable: its identifier is a UUID, its creation time is not
  the zero time, and its schema version is the current one.
\<close>

theorem identity_valid:
  assumes "durable h dir" and "sound_sources h"
    and "run_state (load_identity lenient h dir) s = (Inr i, s')"
  shows "is_uuid (id_id i) \<and> id_created_at i \<noteq> zero_time
    \<and> id_schema_version i = current_state_schema_version"
proof -
  obtain data where "parse_identity lenient data = Inr i"
    using load_identity_leaves[OF assms] by blast
  then show ?thesis by (auto simp: parse_identity_def split: prod.splits option.splits if_splits)
qed

lemma identity_valid_witness: "is_uuid (id_id sample_identity)"
proof -
  have "run_state (load_identity (\<lambda>_. None) sample_disk_host ''/var/lib/anvil'') []
      = (Inr sample_identity, snd (run_state (load_identity (\<lambda>_. None) sample_disk_host ''/var/lib/anvil'') []))"
    using sample_load by (simp add: prod_eq_iff)
  from identity_valid[OF sample_disk_sound this] show ?thesis by blast
qed

end
