(* ===== verification/Lifecycle_Readiness.thy ===== *)
theory Lifecycle_Readiness
  imports Lifecycle_Service
begin

text \<open>
  Package \<^verbatim>\<open>lifecycle\<close>, the readiness detector: is the host able to run virtual machines?
  \<^verbatim>\<open>os.Stat\<close> is a parameter; its outcome is what the code looks at.
\<close>

datatype stat_result =
    Stat_Not_Exist
  | Stat_Permission
  | Stat_Error string
  | Stat_Mode bool \<comment> \<open>is it a character device?\<close>

datatype readiness_error = Context_Error | Kvm_Error string

text \<open>\<^verbatim>\<open>defaultKVMAvailable\<close>: absence and lack of permission are answers, not errors.\<close>

definition default_kvm_available ::
  "(string \<Rightarrow> stat_result) \<Rightarrow> string \<Rightarrow> bool \<times> readiness_error option" where
  [svc_defs]: "default_kvm_available stat kvm_path =
     (case stat kvm_path of
        Stat_Not_Exist \<Rightarrow> (False, None)
      | Stat_Permission \<Rightarrow> (False, None)
      | Stat_Error e \<Rightarrow> (False, Some (Kvm_Error e))
      | Stat_Mode char_device \<Rightarrow> if \<not> char_device then (False, None) else (True, None))"

text \<open>A backend or a function that may be nil is an option.\<close>

record 's readiness_detector =
  rd_incus :: "'s env option"
  rd_kvm_path :: string
  rd_kvm_available :: "(string \<Rightarrow> bool \<times> readiness_error option) option"

definition new_readiness_detector ::
  "(string \<Rightarrow> stat_result) \<Rightarrow> 's env option \<Rightarrow> 's readiness_detector" where
  [svc_defs]: "new_readiness_detector stat backend =
     \<lparr>rd_incus = backend, rd_kvm_path = ''/dev/kvm'',
      rd_kvm_available = Some (default_kvm_available stat)\<rparr>"

definition profile_ready :: "proxy_response option \<Rightarrow> bool" where
  [svc_defs]: "profile_ready resp =
     (case resp of None \<Rightarrow> False
      | Some r \<Rightarrow>
          if \<not> is_success (resp_status r) then False
          else (case root_disk_from_profile resp of
                  Inl e \<Rightarrow> False
                | Inr root \<Rightarrow> map_index (disk_device root) ''pool'' \<noteq> []))"

definition vm_lifecycle_available ::
  "(string \<Rightarrow> stat_result) \<Rightarrow> 's readiness_detector option
     \<Rightarrow> ('s, bool \<times> readiness_error option) act" where
  [svc_defs]: "vm_lifecycle_available stat detector =
     (case detector of None \<Rightarrow> ret (False, None)
      | Some d \<Rightarrow>
          (case rd_incus d of None \<Rightarrow> ret (False, None)
           | Some env \<Rightarrow> do {
               done \<leftarrow> ctx_err env;
               if done then ret (False, Some Context_Error)
               else
                 (let kvm_path = (if rd_kvm_path d = [] then ''/dev/kvm'' else rd_kvm_path d);
                      kvm = (case rd_kvm_available d of None \<Rightarrow> default_kvm_available stat
                             | Some f \<Rightarrow> f)
                  in case kvm kvm_path of
                       (_, Some e) \<Rightarrow> ret (False, Some e)
                     | (available, None) \<Rightarrow>
                         if \<not> available then ret (False, None)
                         else do {
                           resp \<leftarrow> incus_execute env profile_request;
                           ret (profile_ready resp, None)
                         })
             }))"

lemma sends_ready:
  "sends (\<lambda>r. r = profile_request) 1
     (vm_lifecycle_available stat (detector :: 's readiness_detector option))"
proof -
  have r: "sends (\<lambda>r. r = profile_request) 1
      (State_Monad.bind (incus_execute env profile_request) (\<lambda>resp. ret (profile_ready resp, None)))"
    for env :: "'s env"
    by (rule sends_bind[where k = 1 and l = 0]) auto
  show ?thesis unfolding vm_lifecycle_available_def using r
    by (auto intro!: sends_bind[OF sends_ctx_err, where l = 1 and k = 0]
        simp: Let_def split: option.split prod.split)
qed

lemma default_kvm_true: "default_kvm_available stat p = (True, e) \<longleftrightarrow> stat p = Stat_Mode True \<and> e = None"
  by (auto simp: default_kvm_available_def split: stat_result.split)

lemma profile_ready_disk:
  "profile_ready resp \<longleftrightarrow> (\<exists>r disk. resp = Some r \<and> is_success (resp_status r)
     \<and> root_disk_from_profile (Some r) = Inr disk)"
proof -
  have "map_index (disk_device disk) ''pool'' \<noteq> []" if d: "root_disk_from_profile (Some r) = Inr disk" for r disk
  proof -
    obtain devices where "select_profile_root_disk devices = Inr disk"
      using d by (auto simp: root_disk_from_profile_def split: if_splits option.splits prod.splits)
    from select_profile_root_disk_Inr[OF this] show ?thesis by auto
  qed
  then show ?thesis by (auto simp: profile_ready_def split: option.splits sum.splits)
qed

text \<open>
  C28. When the detector reports that virtual machines are available, the context was live,
  \<^verbatim>\<open>/dev/kvm\<close> is a character device, and one read of the default profile succeeded and
  gives a root disk: exactly the one a create would use. Nothing but that read was sent.
\<close>

theorem ready_means_usable:
  assumes "run_state (vm_lifecycle_available stat (Some (new_readiness_detector stat (Some env)))) w
      = ((True, e), w')"
  shows "e = None \<and> \<not> fst (env_ctx_err env (outside w)) \<and> stat ''/dev/kvm'' = Stat_Mode True
    \<and> (\<exists>r disk. exchanges w' = exchanges w @ [(profile_request, Some r)]
         \<and> is_success (resp_status r) \<and> root_disk_from_profile (Some r) = Inr disk)"
proof -
  obtain done0 w1 where c: "run_state (ctx_err env) w = (done0, w1)" by fastforce
  let ?rest = "\<lambda>done0. if done0 then ret (False, Some Context_Error)
     else (case default_kvm_available stat ''/dev/kvm'' of
        (_, Some e) \<Rightarrow> ret (False, Some e)
      | (available, None) \<Rightarrow> if \<not> available then ret (False, None)
          else State_Monad.bind (incus_execute env profile_request) (\<lambda>resp. ret (profile_ready resp, None)))"
  have "vm_lifecycle_available stat (Some (new_readiness_detector stat (Some env)))
      = State_Monad.bind (ctx_err env) ?rest"
    by (simp add: vm_lifecycle_available_def new_readiness_detector_def Let_def cong: if_cong)
  then have run: "run_state (?rest done0) w1 = ((True, e), w')"
    using assms c by (simp add: run_state_bind)
  obtain av ke where k: "default_kvm_available stat ''/dev/kvm'' = (av, ke)" by fastforce
  have d: "\<not> done0" using run by (cases done0) auto
  have ke: "ke = None" using run d k by (cases ke) auto
  have av: "av" using run d k ke by (cases av) auto
  have "run_state (State_Monad.bind (incus_execute env profile_request)
      (\<lambda>resp. ret (profile_ready resp, None))) w1 = ((True, e), w')"
    using run d k ke av by simp
  then obtain resp where "e = None" "profile_ready resp"
    "exchanges w' = exchanges w1 @ [(profile_request, resp)]"
    by (auto simp: run_iffs)
  moreover have "stat ''/dev/kvm'' = Stat_Mode True" using k av by (simp add: default_kvm_true)
  moreover have "exchanges w1 = exchanges w" "\<not> fst (env_ctx_err env (outside w))"
    using c d by (auto simp: run_ctx_err_iff)
  ultimately show ?thesis by (auto simp: profile_ready_disk)
qed

definition ready_run :: "(bool \<times> readiness_error option) \<times> proxy_response list world" where
  "ready_run = run_state (vm_lifecycle_available (\<lambda>p. Stat_Mode True)
     (Some (new_readiness_detector (\<lambda>p. Stat_Mode True) (Some scripted))))
     (script [answer_with 200
        ''{\"metadata\":{\"devices\":{\"root\":{\"type\":\"disk\",\"path\":\"/\",\"pool\":\"default\"}}}}''])"

lemma ready_means_usable_witness:
  "fst ready_run = (True, None)
    \<and> (\<exists>r disk. exchanges (snd ready_run) = [(profile_request, Some r)]
         \<and> is_success (resp_status r) \<and> root_disk_from_profile (Some r) = Inr disk)"
proof -
  have f: "fst ready_run = (True, None)" by code_simp
  have "run_state (vm_lifecycle_available (\<lambda>p. Stat_Mode True)
     (Some (new_readiness_detector (\<lambda>p. Stat_Mode True) (Some scripted))))
     (script [answer_with 200
        ''{\"metadata\":{\"devices\":{\"root\":{\"type\":\"disk\",\"path\":\"/\",\"pool\":\"default\"}}}}''])
     = ((True, None), snd ready_run)"
    using f unfolding ready_run_def by (metis prod.collapse)
  from ready_means_usable[OF this] f show ?thesis by (simp add: script_def)
qed

end
