(* ===== verification/State_Report.thy ===== *)
theory State_Report
  imports State_Identity Lifecycle_Readiness
begin

text \<open>
  Package \<^verbatim>\<open>state\<close>, the agent state report: the reporter, the probes of Incus it makes and the
  JSON text of the report. The lemmas show what is sent to Incus (four fixed reads), what fails (the
  host name only), how absence is reported, that the counts count, and what the text says.
\<close>

subsection \<open>Types\<close>

record agent_summary =
  ra_id :: string
  ra_version :: string
  ra_schema_version :: int
  ra_started_at :: instant
  ra_reported_at :: instant

record host_summary =
  rh_hostname :: string
  rh_os :: string
  rh_arch :: string

record incus_summary =
  ri_available :: bool
  ri_status_code :: int
  ri_server_version :: string
  ri_api_version :: string

record capability_summary =
  rc_incus_proxy :: bool
  rc_events :: bool
  rc_state_report :: bool
  rc_wire_guard :: bool
  rc_vm_lifecycle :: bool

record snapshot_summary =
  rs_instances :: int
  rs_images :: int
  rs_operations :: int

record report =
  rep_agent :: agent_summary
  rep_host :: host_summary
  rep_incus :: incus_summary
  rep_capabilities :: capability_summary
  rep_snapshot :: snapshot_summary

text \<open>
  The functions and interfaces of the options may be nil. A detector's answer is an error text or
  a flag; \<open>None\<close> stands for its error where the text does not matter.
\<close>

record 's reporter_options =
  ro_identity :: agent_identity
  ro_version :: string
  ro_started_at :: instant
  ro_hostname :: "('s, string + string) act option"
  ro_now :: "('s, instant) act option"
  ro_incus :: "'s env option"
  ro_wire_guard :: "('s, bool option) act option"
  ro_vm_life :: "('s, bool option) act option"

record 's reporter =
  rr_identity :: agent_identity
  rr_version :: string
  rr_started_at :: instant
  rr_hostname :: "('s, string + string) act"
  rr_now :: "('s, instant) act"
  rr_incus :: "'s env option"
  rr_wire_guard :: "('s, bool option) act option"
  rr_vm_life :: "('s, bool option) act option"

definition default_version :: string where
  [svc_defs]: "default_version = ''dev''"

text \<open>
  \<^verbatim>\<open>NewReporter\<close> with \<^verbatim>\<open>os.Hostname\<close> and \<^verbatim>\<open>time.Now\<close> as parameters. The local
  \<open>version\<close> gets the default and is then not used: the reporter is built from
  \<^verbatim>\<open>opts.Version\<close>.
\<close>

definition new_reporter ::
  "('s, string + string) act \<Rightarrow> ('s, instant) act \<Rightarrow> 's reporter_options \<Rightarrow> ('s, 's reporter) act" where
  [svc_defs]: "new_reporter os_hostname time_now opts =
     (let version = (if ro_version opts = [] then default_version else ro_version opts);
          hostname = (case ro_hostname opts of None \<Rightarrow> os_hostname | Some f \<Rightarrow> f);
          now = (case ro_now opts of None \<Rightarrow> time_now | Some f \<Rightarrow> f)
      in do {
        started \<leftarrow> (if ro_started_at opts = zero_time then now else ret (ro_started_at opts));
        ret \<lparr>rr_identity = ro_identity opts, rr_version = ro_version opts, rr_started_at = started,
             rr_hostname = hostname, rr_now = now, rr_incus = ro_incus opts,
             rr_wire_guard = ro_wire_guard opts, rr_vm_life = ro_vm_life opts\<rparr> })"

subsection \<open>Probing Incus\<close>

record incus_environment =
  ie_server_version :: string

record incus_metadata =
  im_environment :: incus_environment
  im_api_version :: string

record incus_root_body =
  ib_metadata :: incus_metadata

definition zero_root_body :: incus_root_body where
  [svc_defs]: "zero_root_body =
     \<lparr>ib_metadata = \<lparr>im_environment = \<lparr>ie_server_version = []\<rparr>, im_api_version = []\<rparr>\<rparr>"

definition environment_fields :: "incus_environment field_table" where
  [svc_defs]: "environment_fields =
     [(''server_version'', at_field ie_server_version ie_server_version_update dec_string)]"

definition metadata_fields :: "incus_metadata field_table" where
  [svc_defs]: "metadata_fields =
     [(''environment'', at_field im_environment im_environment_update (dec_struct False environment_fields)),
      (''api_version'', at_field im_api_version im_api_version_update dec_string)]"

definition root_body_fields :: "incus_root_body field_table" where
  [svc_defs]: "root_body_fields =
     [(''metadata'', at_field ib_metadata ib_metadata_update (dec_struct False metadata_fields))]"

definition summarize_incus_root :: "proxy_response option \<Rightarrow> incus_summary" where
  [svc_defs]: "summarize_incus_root resp =
     (case resp of
        None \<Rightarrow> \<lparr>ri_available = False, ri_status_code = 503, ri_server_version = [], ri_api_version = []\<rparr>
      | Some r \<Rightarrow>
          (let summary = \<lparr>ri_available = is_success (resp_status r), ri_status_code = resp_status r,
                 ri_server_version = [], ri_api_version = []\<rparr>
           in if \<not> ri_available summary then summary
              else case unmarshal (dec_struct False root_body_fields) (raw_bytes (resp_body r)) zero_root_body of
                     (body, Some e) \<Rightarrow> summary
                   | (body, None) \<Rightarrow>
                       summary\<lparr>ri_server_version := ie_server_version (im_environment (ib_metadata body)),
                               ri_api_version := im_api_version (ib_metadata body)\<rparr>))"

text \<open>The bodies whose metadata is counted: a list, and a map of lists.\<close>

record list_body =
  lb_metadata :: "raw_message slice"

record operations_body =
  ob_metadata :: "raw_message slice go_map option"

definition list_body_fields :: "list_body field_table" where
  [svc_defs]: "list_body_fields =
     [(''metadata'', at_field lb_metadata lb_metadata_update (dec_slice dec_raw None))]"

definition operations_body_fields :: "operations_body field_table" where
  [svc_defs]: "operations_body_fields =
     [(''metadata'', at_field ob_metadata ob_metadata_update (dec_map (dec_slice dec_raw None) Nil_Slice))]"

definition count_list_of :: "proxy_response option \<Rightarrow> int" where
  [svc_defs]: "count_list_of resp =
     (case resp of None \<Rightarrow> 0
      | Some r \<Rightarrow>
          if \<not> is_success (resp_status r) then 0
          else (case unmarshal (dec_struct False list_body_fields) (raw_bytes (resp_body r))
                       \<lparr>lb_metadata = Nil_Slice\<rparr> of
                  (body, Some e) \<Rightarrow> 0
                | (body, None) \<Rightarrow> int (length (slice_elems (lb_metadata body)))))"

definition count_operations_of :: "proxy_response option \<Rightarrow> int" where
  [svc_defs]: "count_operations_of resp =
     (case resp of None \<Rightarrow> 0
      | Some r \<Rightarrow>
          if \<not> is_success (resp_status r) then 0
          else (case unmarshal (dec_struct False operations_body_fields) (raw_bytes (resp_body r))
                       \<lparr>ob_metadata = None\<rparr> of
                  (body, Some e) \<Rightarrow> 0
                | (body, None) \<Rightarrow>
                    (case ob_metadata body of None \<Rightarrow> 0
                     | Some m \<Rightarrow> fold (\<lambda>(k, operations) total. total + int (length (slice_elems operations))) m 0)))"

definition state_read :: "string \<Rightarrow> string \<Rightarrow> proxy_request" where
  [svc_defs]: "state_read i p = \<lparr>req_id = i, req_method = ''GET'', req_path = p, req_body = None\<rparr>"

definition count_list :: "'s env \<Rightarrow> string \<Rightarrow> ('s, int) act" where
  [svc_defs]: "count_list env p = do {
     resp \<leftarrow> incus_execute env (state_read ''agent-state-count'' p);
     ret (count_list_of resp) }"

definition count_operations :: "'s env \<Rightarrow> ('s, int) act" where
  [svc_defs]: "count_operations env = do {
     resp \<leftarrow> incus_execute env (state_read ''agent-state-operations'' ''/1.0/operations'');
     ret (count_operations_of resp) }"

subsection \<open>The report\<close>

text \<open>\<^verbatim>\<open>if available, err := ...; err == nil\<close>: an absent detector and an error leave False.\<close>

definition ask_detector :: "('s, bool option) act option \<Rightarrow> ('s, bool) act" where
  [svc_defs]: "ask_detector detector =
     (case detector of None \<Rightarrow> ret False
      | Some d \<Rightarrow> do { available \<leftarrow> d; ret (case available of Some b \<Rightarrow> b | None \<Rightarrow> False) })"

definition no_incus :: incus_summary where
  [svc_defs]: "no_incus =
     \<lparr>ri_available = False, ri_status_code = 0, ri_server_version = [], ri_api_version = []\<rparr>"

definition no_snapshot :: snapshot_summary where
  [svc_defs]: "no_snapshot = \<lparr>rs_instances = 0, rs_images = 0, rs_operations = 0\<rparr>"

text \<open>\<open>goos\<close> and \<open>goarch\<close> are the constants of the build.\<close>

definition report_base ::
  "string \<Rightarrow> string \<Rightarrow> 's reporter \<Rightarrow> string \<Rightarrow> instant \<Rightarrow> bool \<Rightarrow> bool \<Rightarrow> report" where
  [svc_defs]: "report_base goos goarch r hostname now wire_guard vm_life =
     \<lparr>rep_agent = \<lparr>ra_id = id_id (rr_identity r), ra_version = rr_version r,
        ra_schema_version = id_schema_version (rr_identity r),
        ra_started_at = rr_started_at r, ra_reported_at = now\<rparr>,
      rep_host = \<lparr>rh_hostname = hostname, rh_os = goos, rh_arch = goarch\<rparr>,
      rep_incus = no_incus,
      rep_capabilities = \<lparr>rc_incus_proxy = True, rc_events = True, rc_state_report = True,
        rc_wire_guard = wire_guard, rc_vm_lifecycle = vm_life\<rparr>,
      rep_snapshot = no_snapshot\<rparr>"

definition probe_incus :: "'s env \<Rightarrow> report \<Rightarrow> ('s, report) act" where
  [svc_defs]: "probe_incus env base = do {
     root \<leftarrow> incus_execute env (state_read ''agent-state-incus-root'' ''/1.0'');
     (let summary = summarize_incus_root root
      in if \<not> ri_available summary then ret (base\<lparr>rep_incus := summary\<rparr>)
         else do {
           instances \<leftarrow> count_list env ''/1.0/instances'';
           images \<leftarrow> count_list env ''/1.0/images'';
           operations \<leftarrow> count_operations env;
           ret (base\<lparr>rep_incus := summary,
             rep_snapshot := \<lparr>rs_instances = instances, rs_images = images,
               rs_operations = operations\<rparr>\<rparr>) }) }"

definition build_report ::
  "string \<Rightarrow> string \<Rightarrow> 's reporter \<Rightarrow> ('s, string + report) act" where
  [svc_defs]: "build_report goos goarch r = do {
     named \<leftarrow> rr_hostname r;
     case named of Inl e \<Rightarrow> ret (Inl (''read host name: '' @ e))
     | Inr hostname \<Rightarrow> do {
         now \<leftarrow> rr_now r;
         wire_guard \<leftarrow> ask_detector (rr_wire_guard r);
         vm_life \<leftarrow> ask_detector (rr_vm_life r);
         (let base = report_base goos goarch r hostname now wire_guard vm_life
          in case rr_incus r of None \<Rightarrow> ret (Inr base)
             | Some env \<Rightarrow> do { rep \<leftarrow> probe_incus env base; ret (Inr rep) }) } }"

text \<open>\<^verbatim>\<open>NewStaticReporter\<close>: a reporter is what it reports.\<close>

definition static_report :: "report \<Rightarrow> ('s, string + report) act" where
  [svc_defs]: "static_report r = ret (Inr r)"

subsection \<open>The report as JSON\<close>

text \<open>\<open>None\<close> is the error of \<^verbatim>\<open>Time.MarshalJSON\<close> on a year outside 0 to 9999.\<close>

definition enc_agent_summary :: "agent_summary \<Rightarrow> string option" where
  [svc_defs]: "enc_agent_summary a =
     (case (format_time (ra_started_at a), format_time (ra_reported_at a)) of
        (Some started, Some reported) \<Rightarrow> Some (enc_object
          [(''id'', enc_string (ra_id a)), (''version'', enc_string (ra_version a)),
           (''stateSchemaVersion'', itoa (ra_schema_version a)),
           (''startedAt'', enc_string started), (''reportedAt'', enc_string reported)])
      | _ \<Rightarrow> None)"

definition enc_host_summary :: "host_summary \<Rightarrow> string" where
  [svc_defs]: "enc_host_summary h = enc_object
     [(''hostname'', enc_string (rh_hostname h)), (''os'', enc_string (rh_os h)),
      (''arch'', enc_string (rh_arch h))]"

definition enc_incus_summary :: "incus_summary \<Rightarrow> string" where
  [svc_defs]: "enc_incus_summary i = enc_object
     [(''available'', enc_bool (ri_available i)), (''statusCode'', itoa (ri_status_code i)),
      (''serverVersion'', enc_string (ri_server_version i)), (''apiVersion'', enc_string (ri_api_version i))]"

definition enc_capability_summary :: "capability_summary \<Rightarrow> string" where
  [svc_defs]: "enc_capability_summary c = enc_object
     [(''incusProxy'', enc_bool (rc_incus_proxy c)), (''events'', enc_bool (rc_events c)),
      (''stateReport'', enc_bool (rc_state_report c)), (''wireGuard'', enc_bool (rc_wire_guard c)),
      (''vmLifecycle'', enc_bool (rc_vm_lifecycle c))]"

definition enc_snapshot_summary :: "snapshot_summary \<Rightarrow> string" where
  [svc_defs]: "enc_snapshot_summary s = enc_object
     [(''instancesTotal'', itoa (rs_instances s)), (''imagesTotal'', itoa (rs_images s)),
      (''operationsTotal'', itoa (rs_operations s))]"

definition enc_report :: "report \<Rightarrow> string option" where
  [svc_defs]: "enc_report r = map_option (\<lambda>agent. enc_object
     [(''agent'', agent), (''host'', enc_host_summary (rep_host r)),
      (''incus'', enc_incus_summary (rep_incus r)),
      (''capabilities'', enc_capability_summary (rep_capabilities r)),
      (''snapshot'', enc_snapshot_summary (rep_snapshot r))]) (enc_agent_summary (rep_agent r))"

subsection \<open>What a report needs\<close>

text \<open>The default version is lost: an empty version stays empty.\<close>

lemma default_version_lost:
  "rr_version (fst (run_state (new_reporter os_hostname time_now opts) w)) = ro_version opts"
  by (simp add: new_reporter_def Let_def run_state_bind split: prod.split)

text \<open>
  The host name is all a report depends on to succeed: it fails exactly when the host name
  cannot be read; a missing or failing detector and an unreachable or failing Incus never fail it.
\<close>

lemma report_fails_iff:
  "(\<exists>e. fst (run_state (build_report goos goarch r) w) = Inl e)
   \<longleftrightarrow> (\<exists>e. fst (run_state (rr_hostname r) w) = Inl e)"
proof -
  obtain named w1 where n: "run_state (rr_hostname r) w = (named, w1)" by fastforce
  show ?thesis
  proof (cases named)
    case (Inl e)
    with n show ?thesis by (simp add: build_report_def run_state_bind)
  next
    case (Inr h)
    with n show ?thesis
      by (simp add: build_report_def run_state_bind split_beta Let_def split: option.split)
  qed
qed

lemma root_summary:
  "ri_available (summarize_incus_root resp) \<longleftrightarrow> (\<exists>p. resp = Some p \<and> 200 \<le> resp_status p \<and> resp_status p < 300)"
  "ri_status_code (summarize_incus_root resp) = (case resp of None \<Rightarrow> 503 | Some p \<Rightarrow> resp_status p)"
  "\<not> ri_available (summarize_incus_root resp) \<Longrightarrow>
     ri_server_version (summarize_incus_root resp) = [] \<and> ri_api_version (summarize_incus_root resp) = []"
  by (auto simp: summarize_incus_root_def is_success_def Let_def split: option.splits prod.splits if_splits)

text \<open>What is asked of Incus, and what becomes of the answers.\<close>

lemma probe_asks:
  assumes "run_state (probe_incus env base) w = (rep, w')" and "rep_snapshot base = no_snapshot"
  shows "\<exists>root after. exchanges w' = exchanges w @ (state_read ''agent-state-incus-root'' ''/1.0'', root) # after
    \<and> rep_incus rep = summarize_incus_root root
    \<and> (\<not> ri_available (rep_incus rep) \<longrightarrow> after = [] \<and> rep_snapshot rep = no_snapshot)
    \<and> (ri_available (rep_incus rep) \<longrightarrow> (\<exists>i m o'. after =
          [(state_read ''agent-state-count'' ''/1.0/instances'', i), (state_read ''agent-state-count'' ''/1.0/images'', m),
           (state_read ''agent-state-operations'' ''/1.0/operations'', o')]
        \<and> rep_snapshot rep = \<lparr>rs_instances = count_list_of i, rs_images = count_list_of m, rs_operations = count_operations_of o'\<rparr>))"
proof -
  obtain root w1 where e: "run_state (incus_execute env (state_read ''agent-state-incus-root'' ''/1.0'')) w = (root, w1)"
    by fastforce
  then have x: "exchanges w1 = exchanges w @ [(state_read ''agent-state-incus-root'' ''/1.0'', root)]"
    by (auto simp: run_execute_iff)
  show ?thesis
  proof (cases "ri_available (summarize_incus_root root)")
    case False
    with assms e x show ?thesis by (auto simp: probe_incus_def run_bind_iff Let_def)
  next
    case True
    with assms(1) e obtain n v k u q where
      c: "run_state (count_list env ''/1.0/instances'') w1 = (n, u)" "run_state (count_list env ''/1.0/images'') u = (v, q)"
        "run_state (count_operations env) q = (k, w')"
      and r: "rep = base\<lparr>rep_incus := summarize_incus_root root, rep_snapshot := \<lparr>rs_instances = n, rs_images = v, rs_operations = k\<rparr>\<rparr>"
      by (auto simp: probe_incus_def run_bind_iff Let_def)
    obtain i where i: "exchanges u = exchanges w1 @ [(state_read ''agent-state-count'' ''/1.0/instances'', i)]" "n = count_list_of i"
      using c(1) by (auto simp: count_list_def run_iffs)
    obtain m where m: "exchanges q = exchanges u @ [(state_read ''agent-state-count'' ''/1.0/images'', m)]" "v = count_list_of m"
      using c(2) by (auto simp: count_list_def run_iffs)
    obtain p where "exchanges w' = exchanges q @ [(state_read ''agent-state-operations'' ''/1.0/operations'', p)]" "k = count_operations_of p"
      using c(3) by (auto simp: count_operations_def run_iffs)
    with x i m r True show ?thesis by auto
  qed
qed

text \<open>
  C37. A report says of Incus what Incus said. Incus is reported as available exactly when it answered
  the root read with a status from 200 to 299, and with the status it gave (503 when it gave none).
  When it is not, there are no versions, every count is zero, and the root read is the last thing asked of
  it; when it is, three more reads follow, in a fixed order, and the counts are those of their answers.
\<close>

theorem incus_reported:
  assumes "run_state (build_report goos goarch r) w = (Inr rep, w')" and "rr_incus r = Some env"
  shows "\<exists>before root after. exchanges w' = before @ (state_read ''agent-state-incus-root'' ''/1.0'', root) # after
    \<and> (ri_available (rep_incus rep) \<longleftrightarrow> (\<exists>p. root = Some p \<and> 200 \<le> resp_status p \<and> resp_status p < 300))
    \<and> ri_status_code (rep_incus rep) = (case root of None \<Rightarrow> 503 | Some p \<Rightarrow> resp_status p)
    \<and> (\<not> ri_available (rep_incus rep) \<longrightarrow> after = [] \<and> ri_server_version (rep_incus rep) = []
         \<and> ri_api_version (rep_incus rep) = [] \<and> rep_snapshot rep = \<lparr>rs_instances = 0, rs_images = 0, rs_operations = 0\<rparr>)
    \<and> (ri_available (rep_incus rep) \<longrightarrow> (\<exists>i m o'. after =
          [(state_read ''agent-state-count'' ''/1.0/instances'', i), (state_read ''agent-state-count'' ''/1.0/images'', m),
           (state_read ''agent-state-operations'' ''/1.0/operations'', o')]
        \<and> rep_snapshot rep = \<lparr>rs_instances = count_list_of i, rs_images = count_list_of m, rs_operations = count_operations_of o'\<rparr>))"
proof -
  obtain named w0 where n: "run_state (rr_hostname r) w = (named, w0)" by fastforce
  with assms(1) obtain hostname where h: "named = Inr hostname"
    by (cases named) (auto simp: build_report_def run_bind_iff)
  obtain now wire_guard vm_life w1 where
    p: "run_state (probe_incus env (report_base goos goarch r hostname now wire_guard vm_life)) w1 = (rep, w')"
    using assms(1,2) n h by (auto simp: build_report_def run_bind_iff Let_def)
  have "rep_snapshot (report_base goos goarch r hostname now wire_guard vm_life) = no_snapshot" by (simp add: report_base_def)
  from probe_asks[OF p this] obtain root after where a:
    "exchanges w' = exchanges w1 @ (state_read ''agent-state-incus-root'' ''/1.0'', root) # after"
    "rep_incus rep = summarize_incus_root root"
    "\<not> ri_available (rep_incus rep) \<longrightarrow> after = [] \<and> rep_snapshot rep = no_snapshot"
    "ri_available (rep_incus rep) \<longrightarrow> (\<exists>i m o'. after =
          [(state_read ''agent-state-count'' ''/1.0/instances'', i), (state_read ''agent-state-count'' ''/1.0/images'', m),
           (state_read ''agent-state-operations'' ''/1.0/operations'', o')]
        \<and> rep_snapshot rep = \<lparr>rs_instances = count_list_of i, rs_images = count_list_of m, rs_operations = count_operations_of o'\<rparr>)"
    by blast
  have "\<not> ri_available (rep_incus rep) \<longrightarrow> ri_server_version (rep_incus rep) = [] \<and> ri_api_version (rep_incus rep) = []"
    unfolding a(2) using root_summary(3) by blast
  with a(3) have "\<not> ri_available (rep_incus rep) \<longrightarrow> after = [] \<and> ri_server_version (rep_incus rep) = []
         \<and> ri_api_version (rep_incus rep) = [] \<and> rep_snapshot rep = \<lparr>rs_instances = 0, rs_images = 0, rs_operations = 0\<rparr>"
    by (simp add: no_snapshot_def)
  then show ?thesis
    using a(1,4) root_summary(1,2)[of root, folded a(2)]
    by (intro exI[of _ "exchanges w1"] exI[of _ root] exI[of _ after] conjI)
qed

text \<open>An Incus that answers 404: reported as absent, and asked nothing more.\<close>

definition sample_reporter :: "proxy_response list reporter" where
  "sample_reporter =
     \<lparr>rr_identity = sample_identity, rr_version = ''dev'', rr_started_at = zero_time,
      rr_hostname = ret (Inr ''host-1''), rr_now = ret zero_time, rr_incus = Some scripted,
      rr_wire_guard = None, rr_vm_life = None\<rparr>"

lemma incus_reported_witness:
  "\<exists>rep. fst (run_state (build_report ''linux'' ''amd64'' sample_reporter) (script [answer_with 404 []])) = Inr rep
     \<and> \<not> ri_available (rep_incus rep) \<and> ri_status_code (rep_incus rep) = 404
     \<and> rep_snapshot rep = \<lparr>rs_instances = 0, rs_images = 0, rs_operations = 0\<rparr>"
proof -
  let ?run = "run_state (build_report ''linux'' ''amd64'' sample_reporter) (script [answer_with 404 []])"
  define rep where "rep = (report_base ''linux'' ''amd64'' sample_reporter ''host-1'' zero_time False False)
    \<lparr>rep_incus := \<lparr>ri_available = False, ri_status_code = 404, ri_server_version = [], ri_api_version = []\<rparr>\<rparr>"
  obtain w' where r: "?run = (Inr rep, w')"
    by (simp add: rep_def build_report_def sample_reporter_def run_state_bind ask_detector_def probe_incus_def
        incus_execute_def script_def scripted_def answer_with_def summarize_incus_root_def is_success_def Let_def
        report_base_def)
  have "rr_incus sample_reporter = Some scripted" "\<not> ri_available (rep_incus rep)" "ri_status_code (rep_incus rep) = 404"
    by (simp_all add: sample_reporter_def rep_def)
  with incus_reported[OF r this(1)] r show ?thesis by auto
qed

subsection \<open>Counting\<close>

lemma dec_elems_raw:
  "\<exists>xs stale. length xs = length vs \<and> (\<forall>e. dec_elems dec_raw z vs cells e = (xs, stale, e))"
proof (induction vs arbitrary: cells)
  case (Cons x vs)
  obtain raw v where x: "x = (raw, v)" by (cases x)
  obtain xs stale where r: "length xs = length vs"
    "\<forall>e. dec_elems dec_raw z vs (drop 1 cells) e = (xs, stale, e)"
    using Cons.IH by blast
  have "dec_elems dec_raw z (x # vs) cells e = (Some raw # xs, stale, e)" for e
    using r(2) dec_raw_def[of raw v "(case cells of [] \<Rightarrow> z | c # _ \<Rightarrow> c, e)"] by (simp add: x)
  with r(1) show ?case by (intro exI[of _ "Some raw # xs"] exI[of _ stale]) simp
qed simp

lemma dec_slice_raw:
  "\<exists>xs. length (slice_elems xs) = length vs \<and> (\<forall>e. dec_slice dec_raw z raw (JArr vs) (Nil_Slice, e) = (xs, e))"
proof -
  obtain xs stale where r: "length xs = length vs" "\<forall>e. dec_elems dec_raw z vs [] e = (xs, stale, e)"
    using dec_elems_raw by blast
  show ?thesis
    by (rule exI[of _ "if vs = [] then Slice [] [] else Slice xs stale"]) (simp add: dec_slice_def r)
qed

text \<open>An accepted document with one member \<^verbatim>\<open>metadata\<close>.\<close>

lemma read_metadata:
  assumes "reads_as t v h" and "Suc h \<le> max_depth"
  shows "read_document (enc_object [(''metadata'', t)]) = Some (JObj [(''metadata'', t, v)])"
proof -
  have k: "to_valid ''metadata'' = ''metadata''" by code_simp
  have "reads_as (enc_object (map member_text [(''metadata'', t, v)]))
      (JObj (map member_value [(''metadata'', t, v)])) (Suc h)"
    by (rule reads_as_object) (use assms(1) in simp)
  then have "reads_as (enc_object [(''metadata'', t)]) (JObj [(''metadata'', t, v)]) (Suc h)"
    by (simp only: list.map member_pair k)
  then show ?thesis using assms(2) by (rule reads_as_document)
qed

lemma dec_metadata:
  assumes "map_of fs ''metadata'' = Some dec"
  shows "dec_struct False fs raw (JObj [(''metadata'', t, v)]) st = dec t v st"
  using assms by (simp add: dec_struct_def dec_member_def find_field_def)

lemma update_new_key: "k \<notin> fst ` set al \<Longrightarrow> AList.update k v al = al @ [(k, v)]"
  by (induction al) auto

lemma dec_entries:
  assumes "distinct (map fst ms)" and "set (map fst ms) \<inter> fst ` set m = {}"
    and "\<And>k t v e. (k, t, v) \<in> set ms \<Longrightarrow> dec t v (z, e) = (val t v, e)"
  shows "fold (dec_entry dec z) ms (m, e) = (m @ map (\<lambda>(k, t, v). (k, val t v)) ms, e)"
  using assms
proof (induction ms arbitrary: m)
  case (Cons x ms)
  obtain k t v where x: "x = (k, t, v)" by (cases x)
  have "AList.update k y m = m @ [(k, y)]" for y
    using Cons.prems(2) by (auto simp: x intro!: update_new_key)
  moreover have "dec t v (z, e) = (val t v, e)" by (rule Cons.prems(3)[of k]) (simp add: x)
  ultimately have "dec_entry dec z x (m, e) = (m @ [(k, val t v)], e)"
    by (simp add: dec_entry_def x)
  moreover have "set (map fst ms) \<inter> fst ` set (m @ [(k, val t v)]) = {}"
    using Cons.prems(1,2) by (auto simp: x)
  moreover have "distinct (map fst ms)" using Cons.prems(1) by simp
  moreover have "dec t v (z, e) = (val t v, e)" if "(k, t, v) \<in> set ms" for k t v e
    using that by (intro Cons.prems(3)[of k]) simp
  ultimately show ?case using Cons.IH[of "m @ [(k, val t v)]"] by (simp add: x)
qed simp

text \<open>
  The instance and image counts count: on a success whose body is an object with a list of
  values as metadata, the count is the number of values, whatever they are.
\<close>

lemma count_list_counts:
  assumes "is_success (resp_status r)" and "resp_body r = Some (enc_object [(''metadata'', enc_array (map fst es))])"
    and "\<And>e. e \<in> set es \<Longrightarrow> reads_as (fst e) (snd e) h" and "Suc (Suc h) \<le> max_depth"
  shows "count_list_of (Some r) = int (length es)"
proof -
  have "reads_as (enc_array (map fst es)) (JArr es) (Suc h)" by (rule reads_as_array) (rule assms(3))
  then have d: "read_document (enc_object [(''metadata'', enc_array (map fst es))])
      = Some (JObj [(''metadata'', enc_array (map fst es), JArr es)])"
    using assms(4) by (rule read_metadata)
  have f: "map_of list_body_fields ''metadata''
      = Some (at_field lb_metadata lb_metadata_update (dec_slice dec_raw None))"
    by (simp add: list_body_fields_def)
  obtain xs where "dec_slice dec_raw None (enc_array (map fst es)) (JArr es) (Nil_Slice, None) = (xs, None)"
    "length (slice_elems xs) = length es"
    using dec_slice_raw[of es None "enc_array (map fst es)"] by blast
  with d f show ?thesis
    by (simp add: count_list_of_def assms(1,2) raw_bytes_def unmarshal_def dec_metadata at_field_def)
qed

definition sample_elements :: "(string \<times> json) list" where
  "sample_elements = [(enc_string ''/1.0/instances/a'', JStr ''/1.0/instances/a''), (''null'', JNull)]"

lemma sample_elements_read: "e \<in> set sample_elements \<Longrightarrow> reads_as (fst e) (snd e) 0"
proof -
  have "to_valid ''/1.0/instances/a'' = ''/1.0/instances/a''" by code_simp
  then have "reads_as (enc_string ''/1.0/instances/a'') (JStr ''/1.0/instances/a'') 0"
    using reads_as_enc_string[of "''/1.0/instances/a''"] by simp
  then show "e \<in> set sample_elements \<Longrightarrow> ?thesis"
    using reads_as_null by (auto simp: sample_elements_def)
qed

lemma count_list_counts_witness:
  "count_list_of (Some (answer_with 200 (enc_object [(''metadata'', enc_array (map fst sample_elements))]))) = 2"
  using count_list_counts[of "answer_with 200 (enc_object [(''metadata'', enc_array (map fst sample_elements))])"
      sample_elements, OF _ _ sample_elements_read]
  by (simp add: answer_with_def is_success_def max_depth_def sample_elements_def)

text \<open>Operations come in groups by status.\<close>

definition group_text :: "string \<times> (string \<times> json) list \<Rightarrow> string \<times> string" where
  "group_text g = (fst g, enc_array (map fst (snd g)))"

lemma fold_totals:
  "fold (\<lambda>(k, xs) total. total + f xs) m (n :: int) = n + sum_list (map (\<lambda>(k, xs). f xs) m)"
  by (induction m arbitrary: n) auto

text \<open>
  The operation count adds up the groups: on a success whose metadata is an object with a list
  of values per status, no two with the same name, the count is the number of values in all lists.
\<close>

lemma count_operations_counts:
  assumes "is_success (resp_status r)"
    and "resp_body r = Some (enc_object [(''metadata'', enc_object (map group_text gs))])"
    and "distinct (map (\<lambda>g. to_valid (fst g)) gs)"
    and "\<And>g e. g \<in> set gs \<Longrightarrow> e \<in> set (snd g) \<Longrightarrow> reads_as (fst e) (snd e) h"
    and "Suc (Suc (Suc h)) \<le> max_depth"
  shows "count_operations_of (Some r) = sum_list (map (\<lambda>g. int (length (snd g))) gs)"
proof -
  define ms where "ms = map (\<lambda>g. (fst g, enc_array (map fst (snd g)), JArr (snd g))) gs"
  have t: "map group_text gs = map member_text ms"
    by (simp add: ms_def group_text_def member_text_def)
  have "reads_as (enc_object (map member_text ms)) (JObj (map member_value ms)) (Suc (Suc h))"
  proof (rule reads_as_object)
    fix m assume "m \<in> set ms"
    then obtain g where "g \<in> set gs" "snd m = (enc_array (map fst (snd g)), JArr (snd g))"
      by (auto simp: ms_def)
    moreover from this have "reads_as (enc_array (map fst (snd g))) (JArr (snd g)) (Suc h)"
      by (intro reads_as_array) (rule assms(4))
    ultimately show "reads_as (fst (snd m)) (snd (snd m)) (Suc h)" by simp
  qed
  then have d: "read_document (enc_object [(''metadata'', enc_object (map group_text gs))])
      = Some (JObj [(''metadata'', enc_object (map group_text gs), JObj (map member_value ms))])"
    unfolding t using assms(5) by (rule read_metadata)
  have f: "map_of operations_body_fields ''metadata'' = Some (at_field ob_metadata ob_metadata_update
      (dec_map (dec_slice dec_raw None) Nil_Slice))"
    by (simp add: operations_body_fields_def)
  define val where "val = (\<lambda>raw v. fst (dec_slice dec_raw None raw v (Nil_Slice, None)))"
  have k: "map fst (map member_value ms) = map (\<lambda>g. to_valid (fst g)) gs"
    by (simp add: ms_def member_value_def)
  have "fold (dec_entry (dec_slice dec_raw None) Nil_Slice) (map member_value ms) ([], None)
      = ([] @ map (\<lambda>(k, t, v). (k, val t v)) (map member_value ms), None)"
  proof (rule dec_entries)
    fix k t v e assume "(k, t, v) \<in> set (map member_value ms)"
    then obtain es where v: "v = JArr es" by (auto simp: ms_def member_value_def)
    then show "dec_slice dec_raw None t v (Nil_Slice, e) = (val t v, e)"
      using dec_slice_raw[of es None t] by (auto simp: val_def)
  qed (use assms(3) k in simp_all)
  then have m: "dec_map (dec_slice dec_raw None) Nil_Slice raw (JObj (map member_value ms)) (None, None)
      = (Some (map (\<lambda>(k, t, v). (k, val t v)) (map member_value ms)), None)" for raw
    by (simp add: dec_map_def)
  have l: "int (length (slice_elems (val raw (JArr es)))) = int (length es)" for raw es
    using dec_slice_raw[of es None raw] by (auto simp: val_def)
  have "sum_list (map (\<lambda>(k, xs). int (length (slice_elems xs))) (map (\<lambda>(k, t, v). (k, val t v)) (map member_value ms)))
      = sum_list (map (\<lambda>g. int (length (snd g))) gs)"
    by (simp add: ms_def member_value_def comp_def l)
  with d f m show ?thesis
    by (simp add: count_operations_of_def assms(1,2) raw_bytes_def unmarshal_def dec_metadata at_field_def
        fold_totals del: map_map)
qed

definition sample_groups :: "(string \<times> (string \<times> json) list) list" where
  "sample_groups = [(''running'', sample_elements), (''success'', []), (''failure'', [(''null'', JNull)])]"

lemma count_operations_counts_witness:
  "count_operations_of (Some (answer_with 200 (enc_object [(''metadata'', enc_object (map group_text sample_groups))]))) = 3"
proof -
  have d: "distinct (map (\<lambda>g. to_valid (fst g)) sample_groups)" by code_simp
  have r: "reads_as (fst e) (snd e) 0" if "g \<in> set sample_groups" "e \<in> set (snd g)" for g e
    using that sample_elements_read by (auto simp: sample_groups_def reads_as_null[simplified])
  show ?thesis
    using count_operations_counts[of "answer_with 200 (enc_object [(''metadata'', enc_object (map group_text sample_groups))])"
        sample_groups, OF _ _ d r]
    by (simp add: answer_with_def is_success_def max_depth_def sample_groups_def sample_elements_def)
qed

subsection \<open>What the text of a report says\<close>

definition json_report :: "report \<Rightarrow> json" where
  "json_report r = jobj
     [(''agent'', jobj
        [(''id'', JStr (to_valid (ra_id (rep_agent r)))), (''version'', JStr (to_valid (ra_version (rep_agent r)))),
         (''stateSchemaVersion'', JNum (itoa (ra_schema_version (rep_agent r)))),
         (''startedAt'', JStr (the (format_time (ra_started_at (rep_agent r))))),
         (''reportedAt'', JStr (the (format_time (ra_reported_at (rep_agent r)))))]),
      (''host'', jobj
        [(''hostname'', JStr (to_valid (rh_hostname (rep_host r)))), (''os'', JStr (to_valid (rh_os (rep_host r)))),
         (''arch'', JStr (to_valid (rh_arch (rep_host r))))]),
      (''incus'', jobj
        [(''available'', JBool (ri_available (rep_incus r))), (''statusCode'', JNum (itoa (ri_status_code (rep_incus r)))),
         (''serverVersion'', JStr (to_valid (ri_server_version (rep_incus r)))),
         (''apiVersion'', JStr (to_valid (ri_api_version (rep_incus r))))]),
      (''capabilities'', jobj
        [(''incusProxy'', JBool (rc_incus_proxy (rep_capabilities r))), (''events'', JBool (rc_events (rep_capabilities r))),
         (''stateReport'', JBool (rc_state_report (rep_capabilities r))),
         (''wireGuard'', JBool (rc_wire_guard (rep_capabilities r))),
         (''vmLifecycle'', JBool (rc_vm_lifecycle (rep_capabilities r)))]),
      (''snapshot'', jobj
        [(''instancesTotal'', JNum (itoa (rs_instances (rep_snapshot r)))),
         (''imagesTotal'', JNum (itoa (rs_images (rep_snapshot r)))),
         (''operationsTotal'', JNum (itoa (rs_operations (rep_snapshot r))))])]"

lemma state_report_keys [simp]:
  "to_valid ''agent'' = ''agent''" "to_valid ''id'' = ''id''" "to_valid ''version'' = ''version''"
  "to_valid ''stateSchemaVersion'' = ''stateSchemaVersion''" "to_valid ''startedAt'' = ''startedAt''"
  "to_valid ''reportedAt'' = ''reportedAt''" "to_valid ''host'' = ''host''" "to_valid ''hostname'' = ''hostname''"
  "to_valid ''os'' = ''os''" "to_valid ''arch'' = ''arch''" "to_valid ''incus'' = ''incus''"
  "to_valid ''available'' = ''available''" "to_valid ''statusCode'' = ''statusCode''"
  "to_valid ''serverVersion'' = ''serverVersion''" "to_valid ''apiVersion'' = ''apiVersion''"
  "to_valid ''capabilities'' = ''capabilities''" "to_valid ''incusProxy'' = ''incusProxy''"
  "to_valid ''events'' = ''events''" "to_valid ''stateReport'' = ''stateReport''"
  "to_valid ''wireGuard'' = ''wireGuard''" "to_valid ''vmLifecycle'' = ''vmLifecycle''"
  "to_valid ''snapshot'' = ''snapshot''" "to_valid ''instancesTotal'' = ''instancesTotal''"
  "to_valid ''imagesTotal'' = ''imagesTotal''" "to_valid ''operationsTotal'' = ''operationsTotal''"
  by code_simp+

lemma says_report:
  assumes "enc_report r = Some data"
  shows "says data (json_report r) 2"
proof -
  obtain started reported where t: "format_time (ra_started_at (rep_agent r)) = Some started"
    "format_time (ra_reported_at (rep_agent r)) = Some reported"
    and d: "data = enc_object [(''agent'', enc_object
          [(''id'', enc_string (ra_id (rep_agent r))), (''version'', enc_string (ra_version (rep_agent r))),
           (''stateSchemaVersion'', itoa (ra_schema_version (rep_agent r))),
           (''startedAt'', enc_string started), (''reportedAt'', enc_string reported)]),
       (''host'', enc_host_summary (rep_host r)), (''incus'', enc_incus_summary (rep_incus r)),
       (''capabilities'', enc_capability_summary (rep_capabilities r)),
       (''snapshot'', enc_snapshot_summary (rep_snapshot r))]"
    using assms by (auto simp: enc_report_def enc_agent_summary_def split: option.splits)
  have s: "says (enc_string started) (JStr started) h" "says (enc_string reported) (JStr reported) h" for h
    using says_string[of started h] says_string[of reported h]
      to_valid_ascii[OF format_time_ascii[OF t(1)]] to_valid_ascii[OF format_time_ascii[OF t(2)]] by simp_all
  have "says data (json_report r) (Suc (Suc 0))"
    unfolding d json_report_def enc_host_summary_def enc_incus_summary_def enc_capability_summary_def
      enc_snapshot_summary_def
    by (rule says_object) (simp add: says_object says_string says_int says_bool s t)
  then show ?thesis by (simp add: numeral_2_eq_2)
qed

text \<open>
  Whatever reads the text of a state report gets exactly the fields of the report; the two
  instants are their RFC 3339 texts.
\<close>

lemma report_says:
  assumes "enc_report r = Some data"
  shows "map_option plain (read_document data) = Some (json_report r)"
  using says_report[OF assms] by (rule says_document) (simp add: max_depth_def)

definition sample_report_value :: report where
  "sample_report_value = (report_base ''linux'' ''amd64'' sample_reporter ''host \"1\"'' zero_time True False)"

lemma report_says_witness:
  "\<exists>data. enc_report sample_report_value = Some data
    \<and> map_option plain (read_document data) = Some (json_report sample_report_value)"
proof -
  have "format_time zero_time \<noteq> None" by code_simp
  then obtain data where "enc_report sample_report_value = Some data"
    by (auto simp: sample_report_value_def report_base_def sample_reporter_def enc_report_def enc_agent_summary_def)
  with report_says[OF this] show ?thesis by blast
qed

subsection \<open>What a report sends\<close>

definition report_request :: "proxy_request \<Rightarrow> bool" where
  "report_request q \<longleftrightarrow> q \<in> {profile_request, state_read ''agent-state-incus-root'' ''/1.0'',
     state_read ''agent-state-count'' ''/1.0/instances'', state_read ''agent-state-count'' ''/1.0/images'',
     state_read ''agent-state-operations'' ''/1.0/operations''}"

lemma sends_count_list:
  "report_request (state_read ''agent-state-count'' p) \<Longrightarrow> sends report_request 1 (count_list env p)"
  unfolding count_list_def by (rule sends_bind[where k = 1 and l = 0]) auto

lemma sends_count_operations: "sends report_request 1 (count_operations env)"
  unfolding count_operations_def
  by (rule sends_bind[where k = 1 and l = 0]) (auto simp: report_request_def)

lemma sends_probe: "sends report_request 4 (probe_incus env base)"
proof -
  have "sends report_request 3 (do {
      instances \<leftarrow> count_list env ''/1.0/instances'';
      images \<leftarrow> count_list env ''/1.0/images'';
      operations \<leftarrow> count_operations env;
      ret (g instances images operations) })" for g :: "int \<Rightarrow> int \<Rightarrow> int \<Rightarrow> report"
    by (rule sends_bind[where k = 1 and l = 2], rule sends_count_list, simp add: report_request_def,
        rule sends_bind[where k = 1 and l = 1], rule sends_count_list, simp add: report_request_def,
        rule sends_bind[where k = 1 and l = 0], rule sends_count_operations) auto
  then show ?thesis
    unfolding probe_incus_def Let_def
    by (intro sends_bind[where k = 1 and l = 3]) (auto simp: report_request_def)
qed

lemma sends_ask_detector:
  "(\<And>d. detector = Some d \<Longrightarrow> sends P n d) \<Longrightarrow> sends P n (ask_detector detector)"
  unfolding ask_detector_def by (auto intro!: sends_bind[where k = n and l = 0] split: option.split)

text \<open>
  A report sends at most five fixed reads to Incus, when its host functions and its WireGuard
  detector send nothing and its readiness detector reads the default profile at most.
\<close>

lemma sends_build_report:
  assumes "sends report_request 0 (rr_hostname r)" and "sends report_request 0 (rr_now r)"
    and "\<And>d. rr_wire_guard r = Some d \<Longrightarrow> sends report_request 0 d"
    and "\<And>d. rr_vm_life r = Some d \<Longrightarrow> sends report_request 1 d"
  shows "sends report_request 5 (build_report goos goarch r)"
proof -
  have p: "sends report_request 4 (case rr_incus r of None \<Rightarrow> ret (Inr base)
      | Some env \<Rightarrow> do { rep \<leftarrow> probe_incus env base; ret (Inr rep) })" for base
    using sends_probe by (auto intro!: sends_bind[where k = 4 and l = 0] split: option.split)
  have v: "sends report_request 5 (do { vm_life \<leftarrow> ask_detector (rr_vm_life r); h vm_life })"
    if "\<And>b. sends report_request 4 (h b)" for h :: "bool \<Rightarrow> ('a, string + report) act"
    by (rule sends_bind[where k = 1 and l = 4]) (auto intro!: sends_ask_detector assms(4)[unfolded One_nat_def] that)
  have n: "sends report_request 5 (do { named \<leftarrow> rr_hostname r; h named })"
    if "\<And>b. sends report_request 5 (h b)" for h :: "string + string \<Rightarrow> ('a, string + report) act"
    by (rule sends_bind[where k = 0 and l = 5, OF assms(1) that]) simp
  have t: "sends report_request 5 (do { now \<leftarrow> rr_now r; h now })"
    if "\<And>b. sends report_request 5 (h b)" for h :: "instant \<Rightarrow> ('a, string + report) act"
    by (rule sends_bind[where k = 0 and l = 5, OF assms(2) that]) simp
  have g: "sends report_request 5 (do { wire_guard \<leftarrow> ask_detector (rr_wire_guard r); h wire_guard })"
    if "\<And>b. sends report_request 5 (h b)" for h :: "bool \<Rightarrow> ('a, string + report) act"
    by (rule sends_bind[where k = 0 and l = 5]) (auto intro!: sends_ask_detector assms(3) that)
  show ?thesis
    unfolding build_report_def Let_def
    by (rule n) (auto intro!: t g v p split: sum.split)
qed

end
