(* ===== verification/Go_Json_Compact.thy ===== *)
theory Go_Json_Compact
  imports Go_Json_Encode
begin

text \<open>
  \<^verbatim>\<open>json.RawMessage\<close> inside another document: the encoder compacts the text, drops white space
  outside strings and escapes the HTML characters and the two line separators inside them. The main
  result: the compacted text of a document says what the document says.
\<close>

subsection \<open>Strings\<close>

lemma hex4_split:
  assumes "read_hex4 s = Some (v, r)"
  shows "\<exists>a b c d. s = a # b # c # d # r \<and> (\<forall>x. read_hex4 (a # b # c # d # x) = Some (v, x))
    \<and> (\<forall>h \<in> {a, b, c, d}. hex_val h \<noteq> None)"
  using assms by (auto simp: read_hex4_def split: list.splits option.splits)

lemma hex_char_plain:
  assumes "hex_val h \<noteq> None"
  shows "h \<noteq> CHR 0x5C" "h \<noteq> CHR 0x22" "\<not> is_html_char h" "byte h \<noteq> 226"
proof -
  have r: "48 \<le> byte h \<and> byte h \<le> 57 \<or> 97 \<le> byte h \<and> byte h \<le> 102 \<or> 65 \<le> byte h \<and> byte h \<le> 70"
    using assms by (auto simp: hex_val_def is_digit_def split: if_splits)
  then show "h \<noteq> CHR 0x5C" "h \<noteq> CHR 0x22" "\<not> is_html_char h" "byte h \<noteq> 226"
    by (auto simp: is_html_char_def)
qed

lemma compact_plain:
  "c \<noteq> CHR 0x5C \<Longrightarrow> c \<noteq> CHR 0x22 \<Longrightarrow> \<not> is_html_char c \<Longrightarrow> byte c \<noteq> 226 \<Longrightarrow>
     compact True (c # s) = c # compact True s"
  by (simp add: html_escape_def)

lemma compact_hex: "hex_val h \<noteq> None \<Longrightarrow> compact True (h # s) = h # compact True s"
  by (rule compact_plain) (simp_all add: hex_char_plain)

lemma cont_plain: "is_cont c \<Longrightarrow> c \<noteq> CHR 0x5C \<and> c \<noteq> CHR 0x22 \<and> \<not> is_html_char c \<and> byte c \<noteq> 226"
  by (auto simp: is_cont_def is_html_char_def)

lemma compact_conts: "list_all is_cont p \<Longrightarrow> compact True (p @ s) = p @ compact True s"
  by (induction p) (use compact_plain cont_plain in auto)

text \<open>Only the continuation bytes that follow decide the size of a rune.\<close>

lemma rune_len_conts:
  assumes "takeWhile is_cont a = takeWhile is_cont b" and "128 \<le> byte c"
  shows "rune_len c a = rune_len c b"
proof -
  have 2: "rune_len2 c s = (if takeWhile is_cont s = [] then 0 else 2)" for s
    by (cases s) (simp_all add: rune_len2_def)
  have 3: "rune_len3 c s = (let w = takeWhile is_cont s in
      if 2 \<le> length w \<and> (if byte c = 224 then 160 else 128) \<le> byte (w ! 0)
         \<and> byte (w ! 0) \<le> (if byte c = 237 then 159 else 191) then 3 else 0)" for s
    by (cases s; cases "tl s") (auto simp: rune_len3_def is_cont_def)
  have 4: "rune_len4 c s = (let w = takeWhile is_cont s in
      if 3 \<le> length w \<and> (if byte c = 240 then 144 else 128) \<le> byte (w ! 0)
         \<and> byte (w ! 0) \<le> (if byte c = 244 then 143 else 191) then 4 else 0)" for s
    by (cases s; cases "tl s"; cases "tl (tl s)") (auto simp: rune_len4_def is_cont_def)
  show ?thesis by (simp only: rune_len_def 2 3 4 assms(1))
qed

text \<open>A rune of several bytes is its first byte and continuation bytes.\<close>

lemma rune_conts:
  assumes "rune_len c s = n" and "1 < n"
  shows "\<exists>p r. s = p @ r \<and> length p = n - 1 \<and> list_all is_cont p \<and> 194 \<le> byte c"
proof -
  have "list_all is_cont (take (n - 1) s) \<and> n - 1 \<le> length s \<and> 194 \<le> byte c"
    using assms by (auto simp: rune_len_defs is_cont_def split: list.splits if_splits)
  then show ?thesis by (intro exI[of _ "take (n - 1) s"] exI[of _ "drop (n - 1) s"]) simp
qed

text \<open>
  \<open>carried s t r u\<close>: the compacted form of a string literal \<open>s\<close> (after its opening quote) that reads
  as \<open>t\<close> with the rest \<open>r\<close> is \<open>u\<close>. The last two facts keep the bytes and the escapes in front of it
  readable as they were.
\<close>

definition carried :: "string \<Rightarrow> string \<Rightarrow> string \<Rightarrow> string \<Rightarrow> bool" where
  "carried s t r u \<longleftrightarrow> compact True s = u @ compact False r
     \<and> (\<forall>x. read_string (u @ x) = Some (t, x)) \<and> CHR 0x22 \<in> set u
     \<and> takeWhile is_cont u = takeWhile is_cont s
     \<and> (\<forall>w x. low_surrogate w s = None \<longrightarrow> low_surrogate w (u @ x) = None)"

lemma quote_conts: "CHR 0x22 \<in> set u \<Longrightarrow> takeWhile is_cont (u @ x) = takeWhile is_cont u"
  by (rule takeWhile_append1[of "CHR 0x22"]) (simp_all add: is_cont_def)

lemma read_invalid_byte:
  "128 \<le> byte c \<Longrightarrow> rune_len c s = 0 \<Longrightarrow> read_string (c # s) = push replacement_char (read_string s)"
  by (subst read_string.simps) (auto simp: Let_def)

lemma read_plain_byte:
  "c \<noteq> CHR 0x22 \<Longrightarrow> c \<noteq> CHR 0x5C \<Longrightarrow> 32 \<le> byte c \<Longrightarrow> byte c < 128 \<Longrightarrow>
     read_string (c # s) = push [c] (read_string s)"
  by (subst read_string.simps) simp

lemma read_rune:
  assumes "rune_len c (p @ s) = n" and "1 < n" and "length p = n - 1"
  shows "read_string (c # p @ s) = push (c # p) (read_string s)"
proof -
  have "194 \<le> byte c" using rune_conts[OF assms(1,2)] by blast
  then have "c \<noteq> CHR 0x22" "c \<noteq> CHR 0x5C" "\<not> byte c < 32" by auto
  then show ?thesis using assms by (subst read_string.simps) (simp add: Let_def)
qed

lemma low_surrogate_not_escape: "c \<noteq> CHR 0x5C \<Longrightarrow> low_surrogate w (c # s) = None"
  by (auto simp: low_surrogate_def split: list.split)

lemma low_surrogate_u_escape:
  assumes "u < 56320"
  shows "low_surrogate w (u_escape u @ x) = None"
  using assms read_hex4_digits[of u x] by (simp add: low_surrogate_def u_escape_def)

lemma u_escape_front: "\<exists>q. u_escape u = CHR 0x5C # q"
  by (simp add: u_escape_def)

lemma not_cont_ascii: "byte c < 128 \<Longrightarrow> \<not> is_cont c" "194 \<le> byte c \<Longrightarrow> \<not> is_cont c"
  by (simp_all add: is_cont_def)

text \<open>The steps of the induction: what may stand in front of a carried rest.\<close>

lemma carried_end: "carried (CHR 0x22 # r) [] r [CHR 0x22]"
  by (simp add: carried_def low_surrogate_not_escape is_cont_def)

lemma carried_escaped:
  assumes "carried s t r u" and "a < 56320" and "a < 65536" and "\<not> is_surrogate a"
    and "compact True (p @ s) = u_escape a @ compact True s" and "p \<noteq> []" and "\<not> is_cont (hd p)"
  shows "carried (p @ s) (encode_rune a @ t) r (u_escape a @ u)"
proof -
  obtain q where q: "u_escape a = CHR 0x5C # q" using u_escape_front by blast
  have "takeWhile is_cont (u_escape a @ u) = takeWhile is_cont (p @ s)"
    using assms(6,7) by (cases p) (simp_all add: q not_cont_ascii)
  then show ?thesis
    using assms(1,5) low_surrogate_u_escape[OF assms(2)] read_string_u_escape[OF assms(3,4)]
    by (simp add: carried_def)
qed

lemma carried_byte:
  assumes "carried s t r u" and "c \<noteq> CHR 0x22" and "c \<noteq> CHR 0x5C" and "32 \<le> byte c" and "byte c < 128"
    and "\<not> is_html_char c"
  shows "carried (c # s) (c # t) r (c # u)"
  using assms compact_plain[of c s] read_plain_byte[of c]
  by (simp add: carried_def low_surrogate_not_escape not_cont_ascii)

lemma carried_invalid:
  assumes "carried s t r u" and "128 \<le> byte c" and "rune_len c s = 0"
    and "compact True (c # s) = c # compact True s"
  shows "carried (c # s) (replacement_char @ t) r (c # u)"
proof -
  have "rune_len c (u @ x) = 0" for x
    using rune_len_conts[OF _ assms(2), of "u @ x" s] assms(1,3) quote_conts[of u x] by (simp add: carried_def)
  then have "read_string (c # u @ x) = push replacement_char (read_string (u @ x))" for x
    using assms(2) by (intro read_invalid_byte)
  moreover have "c \<noteq> CHR 0x5C" using assms(2) by auto
  ultimately show ?thesis using assms(1,4) by (simp add: carried_def low_surrogate_not_escape)
qed

lemma carried_rune:
  assumes "carried s t r u" and "rune_len c (p @ s) = n" and "1 < n" and "length p = n - 1"
    and "compact True (c # p @ s) = c # p @ compact True s"
  shows "carried (c # p @ s) (c # p @ t) r (c # p @ u)"
proof -
  have c: "194 \<le> byte c" using rune_conts[OF assms(2,3)] by blast
  have "rune_len c (p @ u @ x) = n" for x
    using rune_len_local[of c "p @ s" "u @ x"] assms(2-4) by simp
  then have "read_string (c # p @ u @ x) = push (c # p) (read_string (u @ x))" for x
    using assms(3,4) by (intro read_rune)
  moreover have "c \<noteq> CHR 0x5C" "\<not> is_cont c" using c by (auto simp: not_cont_ascii)
  ultimately show ?thesis using assms(1,5) by (simp add: carried_def low_surrogate_not_escape)
qed

lemma carried_simple:
  assumes "carried s t r u" and "simple_escape e = Some y"
  shows "carried (CHR 0x5C # e # s) (y # t) r (CHR 0x5C # e # u)"
proof -
  have "e \<noteq> CHR ''u''" using assms(2) by (auto simp: simple_escape_def split: if_splits)
  then show ?thesis using assms by (simp add: carried_def low_surrogate_def is_cont_def)
qed

definition separators :: "string list" where
  "separators = [map char_of [128, 168 :: nat], map char_of [128, 169 :: nat]]"

lemma compact_wide:
  assumes "128 \<le> byte c" and "\<not> (byte c = 226 \<and> take 2 s \<in> set separators)"
  shows "compact True (c # s) = c # compact True s"
proof -
  have "c \<noteq> CHR 0x5C" "c \<noteq> CHR 0x22" "\<not> is_html_char c" using assms(1) by (auto simp: is_html_char_def)
  then show ?thesis using assms(2) by (auto simp: separators_def html_escape_def)
qed

lemma separator_rune:
  assumes "byte c = 226" and "take 2 s \<in> set separators"
  shows "rune_len c s = 3"
proof -
  have "\<exists>b d r. s = b # d # r \<and> byte b = 128 \<and> is_cont d"
    using assms(2) by (cases s; cases "tl s") (auto simp: separators_def is_cont_def)
  then show ?thesis using assms(1) by (auto simp: rune_len_def rune_len3_def)
qed

lemma separator_escape:
  assumes "byte c = 226" and "p \<in> set separators"
  shows "\<exists>a. a \<in> {8232, 8233} \<and> encode_rune a = c # p \<and> (\<forall>s. compact True (c # p @ s) = u_escape a @ compact True s)"
proof -
  have c: "c = char_of (226 :: nat)" using assms(1) by (metis char_of_char)
  have n: "c \<noteq> CHR 0x5C" "c \<noteq> CHR 0x22" using assms(1) by auto
  from assms(2) consider (a) "p = map char_of [128, 168 :: nat]" | (b) "p = map char_of [128, 169 :: nat]"
    by (auto simp: separators_def)
  then show ?thesis
  proof cases
    case a
    with n assms(1) show ?thesis
      by (intro exI[of _ 8232]) (simp add: encode_rune_def c)
  next
    case b
    with n assms(1) show ?thesis
      by (intro exI[of _ 8233]) (simp add: encode_rune_def c)
  qed
qed

lemma carried_hex:
  assumes "carried s t r u" and "read_hex4 (a # b # c # d # s) = Some (v, s)"
    and "\<And>x. read_hex4 (a # b # c # d # x) = Some (v, x)" and "\<forall>h \<in> {a, b, c, d}. hex_val h \<noteq> None"
    and "\<And>x. read_string (CHR 0x5C # CHR ''u'' # a # b # c # d # u @ x) = push y (read_string (u @ x))"
  shows "carried (CHR 0x5C # CHR ''u'' # a # b # c # d # s) (y @ t) r (CHR 0x5C # CHR ''u'' # a # b # c # d # u)"
  using assms compact_hex by (auto simp: carried_def low_surrogate_def is_cont_def)

lemma carried_pair:
  assumes "carried s t r u" and "\<And>x. read_hex4 (a # b # c # d # CHR 0x5C # CHR ''u'' # a' # b' # c' # d' # x)
      = Some (v, CHR 0x5C # CHR ''u'' # a' # b' # c' # d' # x)"
    and "\<And>x. low_surrogate v (CHR 0x5C # CHR ''u'' # a' # b' # c' # d' # x) = Some (v', x)"
    and "is_surrogate v" and "\<forall>h \<in> {a, b, c, d, a', b', c', d'}. hex_val h \<noteq> None"
  shows "carried (CHR 0x5C # CHR ''u'' # a # b # c # d # CHR 0x5C # CHR ''u'' # a' # b' # c' # d' # s)
    (encode_rune v' @ t) r (CHR 0x5C # CHR ''u'' # a # b # c # d # CHR 0x5C # CHR ''u'' # a' # b' # c' # d' # u)"
  using assms compact_hex by (auto simp: carried_def low_surrogate_def is_cont_def split: if_splits)

lemma low_surrogate_split:
  assumes "low_surrogate v s = Some (v', r)"
  shows "\<exists>a b c d. s = CHR 0x5C # CHR ''u'' # a # b # c # d # r
    \<and> (\<forall>x. low_surrogate v (CHR 0x5C # CHR ''u'' # a # b # c # d # x) = Some (v', x))
    \<and> (\<forall>h \<in> {a, b, c, d}. hex_val h \<noteq> None)"
proof -
  obtain q where s: "s = CHR 0x5C # CHR ''u'' # q"
    using assms by (auto simp: low_surrogate_def split: list.splits if_splits)
  obtain w where w: "read_hex4 q = Some (w, r)"
    using assms by (auto simp: s low_surrogate_def split: option.splits if_splits)
  from hex4_split[OF w] obtain a b c d where "q = a # b # c # d # r"
    "\<forall>x. read_hex4 (a # b # c # d # x) = Some (w, x)" "\<forall>h \<in> {a, b, c, d}. hex_val h \<noteq> None"
    by blast
  with assms w show ?thesis
    by (intro exI[of _ a] exI[of _ b] exI[of _ c] exI[of _ d])
       (auto simp: s low_surrogate_def split: if_splits)
qed

lemma carried_escape:
  assumes IH: "\<And>s' t' r'. length s' < length s \<Longrightarrow> read_string s' = Some (t', r') \<Longrightarrow> \<exists>u. carried s' t' r' u"
    and s: "s = CHR 0x5C # e # q" and r: "read_string s = Some (t, r)"
  shows "\<exists>u. carried s t r u"
proof (cases "e = CHR ''u''")
  case False
  then obtain y where y: "simple_escape e = Some y" using r by (auto simp: s split: option.splits)
  with r False obtain t' where "read_string q = Some (t', r)" "t = [y] @ t'"
    by (auto simp: s push_Some)
  with IH[of q t' r] obtain u where "carried q t' r u" by (auto simp: s)
  from carried_simple[OF this y] \<open>t = _\<close> show ?thesis by (auto simp: s)
next
  case u: True
  then obtain v r1 where h: "read_hex4 q = Some (v, r1)" using r by (auto simp: s split: option.splits)
  from hex4_split[OF h] obtain a b c d where q: "q = a # b # c # d # r1"
    and hx: "\<And>x. read_hex4 (a # b # c # d # x) = Some (v, x)" and hh: "\<forall>h \<in> {a, b, c, d}. hex_val h \<noteq> None"
    by blast
  have l: "length r1 < length s" by (simp add: s q)
  show ?thesis
  proof (cases "is_surrogate v")
    case False
    with r u h obtain t' where t: "read_string r1 = Some (t', r)" "t = encode_rune v @ t'"
      by (auto simp: s push_Some)
    obtain w where w: "carried r1 t' r w" using IH[OF l t(1)] by blast
    have "read_string (CHR 0x5C # CHR ''u'' # a # b # c # d # w @ x) = push (encode_rune v) (read_string (w @ x))" for x
      using False hx by simp
    from carried_hex[OF w hx hx hh this] show ?thesis unfolding s q u t(2) by blast
  next
    case sur: True
    show ?thesis
    proof (cases "low_surrogate v r1")
      case None
      with r u h sur obtain t' where t: "read_string r1 = Some (t', r)" "t = replacement_char @ t'"
        by (auto simp: s push_Some)
      obtain w where w: "carried r1 t' r w" using IH[OF l t(1)] by blast
      have "low_surrogate v (w @ x) = None" for x using w None by (simp add: carried_def)
      then have "read_string (CHR 0x5C # CHR ''u'' # a # b # c # d # w @ x) = push replacement_char (read_string (w @ x))" for x
        using sur hx by simp
      from carried_hex[OF w hx hx hh this] show ?thesis unfolding s q u t(2) by blast
    next
      case (Some p)
      obtain v' r2 where p: "low_surrogate v r1 = Some (v', r2)" using Some by (cases p) simp
      with r u h sur obtain t' where t: "read_string r2 = Some (t', r)" "t = encode_rune v' @ t'"
        by (auto simp: s push_Some)
      from low_surrogate_split[OF p] obtain a' b' c' d' where r1: "r1 = CHR 0x5C # CHR ''u'' # a' # b' # c' # d' # r2"
        and lx: "\<And>x. low_surrogate v (CHR 0x5C # CHR ''u'' # a' # b' # c' # d' # x) = Some (v', x)"
        and lh: "\<forall>h \<in> {a', b', c', d'}. hex_val h \<noteq> None"
        by blast
      have "length r2 < length s" by (simp add: s q r1)
      from IH[OF this t(1)] obtain w where w: "carried r2 t' r w" by blast
      have "\<forall>h \<in> {a, b, c, d, a', b', c', d'}. hex_val h \<noteq> None" using hh lh by blast
      from carried_pair[OF w hx lx sur this] show ?thesis unfolding s q r1 u t(2) by blast
    qed
  qed
qed

lemma carried_string: "read_string s = Some (t, r) \<Longrightarrow> \<exists>u. carried s t r u"
proof (induction s arbitrary: t r rule: length_induct)
  case (1 s)
  have IH: "\<exists>u. carried s' t' r' u" if "length s' < length s" "read_string s' = Some (t', r')" for s' t' r'
    using "1.IH" that by blast
  obtain c q where s: "s = c # q" using "1.prems" by (cases s) auto
  consider "c = CHR 0x22" | "c = CHR 0x5C"
    | (other) "c \<noteq> CHR 0x22" "c \<noteq> CHR 0x5C" "\<not> byte c < 32"
    using "1.prems" by (force simp: s)
  then show ?case
  proof cases
    case 1
    then show ?thesis using "1.prems" carried_end by (auto simp: s)
  next
    case 2
    then obtain e q' where q: "q = e # q'" using "1.prems" by (cases q) (auto simp: s)
    show ?thesis using carried_escape[OF IH, of s e q' t r] "1.prems" 2 by (simp add: s q)
  next
    case other
    define n where "n = rune_len c q"
    have step: "read_string s = (if n = 0 then push replacement_char (read_string q)
        else push (c # take (n - 1) q) (read_string (drop (n - 1) q)))"
      using other unfolding s n_def by (subst read_string.simps) (simp add: Let_def)
    consider (invalid) "n = 0" | (ascii) "n = 1" | (wide) "1 < n" by linarith
    then show ?thesis
    proof cases
      case invalid
      then have "push replacement_char (read_string q) = Some (t, r)" using step "1.prems" by simp
      then obtain t' where t: "read_string q = Some (t', r)" "t = replacement_char @ t'"
        unfolding push_Some by blast
      obtain u where u: "carried q t' r u" using IH[OF _ t(1)] by (auto simp: s)
      have b: "128 \<le> byte c" using invalid by (cases "byte c < 128") (auto simp: n_def)
      have "\<not> (byte c = 226 \<and> take 2 q \<in> set separators)"
        using separator_rune[of c q] invalid by (auto simp: n_def)
      from carried_invalid[OF u b _ compact_wide[OF b this]] invalid show ?thesis
        unfolding s t(2) n_def by blast
    next
      case ascii
      then have "push [c] (read_string q) = Some (t, r)" using step "1.prems" by simp
      then obtain t' where t: "read_string q = Some (t', r)" "t = [c] @ t'"
        unfolding push_Some by blast
      obtain u where u: "carried q t' r u" using IH[OF _ t(1)] by (auto simp: s)
      have b: "byte c < 128"
        using ascii by (auto simp: n_def rune_len_defs split: if_splits list.splits)
      show ?thesis
      proof (cases "is_html_char c")
        case True
        have e: "encode_rune (byte c) = [c]" using b by (simp add: encode_rune_def)
        have h: "compact True ([c] @ q) = u_escape (byte c) @ compact True q"
          using True other b by (auto simp: html_escape_def)
        have "carried ([c] @ q) (encode_rune (byte c) @ t') r (u_escape (byte c) @ u)"
          using u _ _ _ h by (rule carried_escaped) (use b in \<open>auto simp: is_surrogate_def not_cont_ascii\<close>)
        then show ?thesis unfolding s t(2) e by auto
      next
        case False
        with carried_byte[OF u _ _ _ b False] other show ?thesis unfolding s t(2) by auto
      qed
    next
      case wide
      then obtain p q' where q: "q = p @ q'" "length p = n - 1" "list_all is_cont p" "194 \<le> byte c"
        using rune_conts[of c q n] by (auto simp: n_def)
      have "push (c # p) (read_string q') = Some (t, r)" using step "1.prems" wide q(2) by (simp add: q(1))
      then obtain t' where t: "read_string q' = Some (t', r)" "t = (c # p) @ t'"
        unfolding push_Some by blast
      obtain u where u: "carried q' t' r u" using IH[OF _ t(1)] by (auto simp: s q(1))
      show ?thesis
      proof (cases "byte c = 226 \<and> p \<in> set separators")
        case True
        from separator_escape[OF conjunct1[OF True] conjunct2[OF True]] obtain a where
          a: "a \<in> {8232, 8233}" "encode_rune a = c # p" "\<And>s. compact True (c # p @ s) = u_escape a @ compact True s"
          by blast
        have "carried ((c # p) @ q') (encode_rune a @ t') r (u_escape a @ u)"
          by (rule carried_escaped[OF u]) (use a q(4) in \<open>auto simp: is_surrogate_def not_cont_ascii\<close>)
        then show ?thesis unfolding s q(1) t(2) a(2) by auto
      next
        case False
        have "\<not> (byte c = 226 \<and> take 2 (p @ q') \<in> set separators)"
        proof
          assume h: "byte c = 226 \<and> take 2 (p @ q') \<in> set separators"
          then have "n = 3" using separator_rune[of c "p @ q'"] by (simp add: n_def q(1))
          with q(2) have "take 2 (p @ q') = p" by simp
          with h False show False by simp
        qed
        then have "compact True (c # p @ q') = c # p @ compact True q'"
          using compact_wide[of c "p @ q'"] q(3,4) by (simp add: compact_conts)
        moreover have "rune_len c (p @ q') = n" by (simp add: n_def q(1))
        ultimately have "carried (c # p @ q') (c # p @ t') r (c # p @ u)"
          using carried_rune[OF u _ wide q(2)] by blast
        then show ?thesis unfolding s q(1) t(2) by auto
      qed
    qed
  qed
qed

subsection \<open>Values\<close>

lemma compact_skip_ws: "compact False (skip_ws s) = compact False s"
  by (induction s) (auto simp: skip_ws_def)

text \<open>Text outside strings and without white space stays.\<close>

definition solid :: "string \<Rightarrow> bool" where
  "solid t \<longleftrightarrow> list_all (\<lambda>c. \<not> is_ws c \<and> c \<noteq> CHR 0x22) t"

lemma compact_solid: "solid t \<Longrightarrow> compact False (t @ r) = t @ compact False r"
  by (induction t) (auto simp: solid_def)

lemma digits_solid: "list_all is_digit t \<Longrightarrow> solid t"
  by (auto simp: solid_def list_all_iff is_digit_def is_ws_def)

lemma solid_append [simp]: "solid (a @ b) \<longleftrightarrow> solid a \<and> solid b"
  by (simp add: solid_def)

lemma all_digits_taken: "list_all is_digit (takeWhile is_digit s)"
  by (auto simp: list_all_iff dest: set_takeWhileD)

lemma digits_then:
  assumes "list_all is_digit ds" and "y = [] \<or> \<not> is_digit (hd y)"
  shows "takeWhile is_digit (ds @ y) = ds" "dropWhile is_digit (ds @ y) = y"
proof -
  have "takeWhile is_digit y = []" "dropWhile is_digit y = y" using assms(2) by (cases y; simp)+
  with assms(1) show "takeWhile is_digit (ds @ y) = ds" "dropWhile is_digit (ds @ y) = y"
    by (auto simp: list_all_iff)
qed

lemma delimited_no_digit: "delimited x \<Longrightarrow> x = [] \<or> \<not> is_digit (hd x)"
  by (cases x) (auto simp: delimited_def is_digit_def)

text \<open>
  \<open>tail_of read e P\<close>: a part of a number that a reader appends to what it has, followed by anything
  that ends a number.
\<close>

definition number_tail :: "(string \<Rightarrow> string \<Rightarrow> (string \<times> string) option) \<Rightarrow> string \<Rightarrow> bool" where
  "number_tail reader e \<longleftrightarrow> solid e \<and> (e = [] \<or> \<not> is_digit (hd e))
     \<and> (\<forall>acc x. delimited x \<longrightarrow> reader acc (e @ x) = Some (acc @ e, x))"

lemma read_exp_tail:
  assumes "read_exp acc s = Some (t, r)"
  shows "\<exists>e. t = acc @ e \<and> s = e @ r \<and> number_tail read_exp e"
proof (cases "\<exists>c q. s = c # q \<and> (c = CHR ''e'' \<or> c = CHR ''E'')")
  case False
  then have "t = acc" "r = s" using assms by (auto simp: read_exp_def split: list.splits if_splits)
  moreover have "number_tail read_exp []"
    by (auto simp: number_tail_def solid_def read_exp_def delimited_def split: list.split)
  ultimately show ?thesis by (intro exI[of _ "[]"]) simp
next
  case True
  then obtain c q where s: "s = c # q" and c: "c = CHR ''e'' \<or> c = CHR ''E''" by blast
  define sg where "sg = (case q of [] \<Rightarrow> [] | y # q' \<Rightarrow> if y = CHR ''+'' \<or> y = CHR ''-'' then [y] else [])"
  define q1 where "q1 = drop (length sg) q"
  have q: "q = sg @ q1" by (auto simp: sg_def q1_def split: list.split)
  have sg: "sg \<in> {[], ''+'', ''-''}" by (auto simp: sg_def split: list.split)
  have split: "(case q of [] \<Rightarrow> ([], q) | y # q' \<Rightarrow> if y = CHR ''+'' \<or> y = CHR ''-'' then ([y], q') else ([], q)) = (sg, q1)"
    by (auto simp: sg_def q1_def split: list.split)
  let ?ds = "takeWhile is_digit q1"
  have ne: "?ds \<noteq> []" and t: "t = acc @ c # sg @ ?ds" and r: "r = dropWhile is_digit q1"
    using assms c unfolding s read_exp_def list.case split by (auto simp: Let_def split: if_splits)
  obtain d ds where ds: "?ds = d # ds" using ne by (cases ?ds) auto
  have d: "is_digit d" "list_all is_digit (d # ds)" using all_digits_taken[of q1] by (simp_all add: ds)
  have nd: "d \<noteq> CHR ''+''" "d \<noteq> CHR ''-''" using d(1) by (auto simp: is_digit_def)
  have "read_exp acc' ((c # sg @ d # ds) @ x) = Some (acc' @ c # sg @ d # ds, x)" if "delimited x" for acc' x
  proof -
    have w: "takeWhile is_digit ((d # ds) @ x) = d # ds" "dropWhile is_digit ((d # ds) @ x) = x"
      using digits_then[OF d(2) delimited_no_digit[OF that]] by blast+
    have sp: "(case (sg @ d # ds) @ x of [] \<Rightarrow> ([], (sg @ d # ds) @ x) | y # q' \<Rightarrow>
        if y = CHR ''+'' \<or> y = CHR ''-'' then ([y], q') else ([], (sg @ d # ds) @ x)) = (sg, (d # ds) @ x)"
      using sg nd by auto
    show ?thesis
      unfolding append_Cons[of c] read_exp_def list.case sp Let_def prod.case w using c by simp
  qed
  moreover have "solid (c # sg @ d # ds)"
    using c sg digits_solid[OF d(2)] by (auto simp: solid_def is_ws_def)
  moreover have "\<not> is_digit c" using c by (auto simp: is_digit_def)
  ultimately have "number_tail read_exp (c # sg @ d # ds)" by (simp add: number_tail_def)
  moreover have "s = (c # sg @ d # ds) @ r" unfolding s q r ds[symmetric] by simp
  ultimately show ?thesis using t ds by (intro exI[of _ "c # sg @ d # ds"]) simp
qed

lemma read_frac_tail:
  assumes "read_frac acc s = Some (t, r)"
  shows "\<exists>e. t = acc @ e \<and> s = e @ r \<and> number_tail read_frac e"
proof (cases "\<exists>q. s = CHR ''.'' # q")
  case False
  then have "read_exp acc s = Some (t, r)"
    using assms by (auto simp: read_frac_def read_exp_def split: list.splits if_splits)
  then obtain e where e: "t = acc @ e" "s = e @ r" "number_tail read_exp e" using read_exp_tail by blast
  have "read_frac acc' (e @ x) = Some (acc' @ e, x)" if "delimited x" for acc' x
  proof -
    have "e @ x = [] \<or> hd (e @ x) \<noteq> CHR ''.''"
    proof (cases e)
      case Nil
      then show ?thesis using that by (cases x) (auto simp: delimited_def)
    next
      case (Cons c q)
      then show ?thesis using False e(2) by auto
    qed
    then have "read_frac acc' (e @ x) = read_exp acc' (e @ x)"
      by (auto simp: read_frac_def read_exp_def split: list.split)
    then show ?thesis using e(3) that by (simp add: number_tail_def)
  qed
  with e show ?thesis by (auto simp: number_tail_def)
next
  case True
  then obtain q where s: "s = CHR ''.'' # q" by blast
  let ?ds = "takeWhile is_digit q"
  have ne: "?ds \<noteq> []" and x: "read_exp (acc @ CHR ''.'' # ?ds) (dropWhile is_digit q) = Some (t, r)"
    using assms by (auto simp: s read_frac_def Let_def split: if_splits)
  from read_exp_tail[OF x] obtain e where e: "t = (acc @ CHR ''.'' # ?ds) @ e" "dropWhile is_digit q = e @ r"
    "number_tail read_exp e"
    by blast
  let ?e = "CHR ''.'' # ?ds @ e"
  have "read_frac acc' (?e @ y) = Some (acc' @ ?e, y)" if "delimited y" for acc' y
  proof -
    have "e @ y = [] \<or> \<not> is_digit (hd (e @ y))"
      using e(3) delimited_no_digit[OF that] by (cases e) (auto simp: number_tail_def)
    from digits_then[OF all_digits_taken this, of q]
    show ?thesis using ne e(3) that by (simp add: read_frac_def Let_def number_tail_def)
  qed
  moreover have "solid ?e"
    using e(3) digits_solid[OF all_digits_taken[of q]] by (auto simp: number_tail_def solid_def is_ws_def)
  moreover have "s = ?e @ r" using e(2) takeWhile_dropWhile_id[of is_digit q] by (simp add: s)
  ultimately show ?thesis using e(1) by (intro exI[of _ ?e]) (simp add: number_tail_def is_digit_def)
qed

lemma read_number_again:
  assumes "read_number s = Some (t, r)"
  shows "s = t @ r \<and> solid t \<and> (\<exists>c q. t = c # q \<and> (is_digit c \<or> c = CHR ''-''))
    \<and> (\<forall>x. delimited x \<longrightarrow> read_number (t @ x) = Some (t, x))"
proof -
  define sg where "sg = (case s of [] \<Rightarrow> [] | c # q \<Rightarrow> if c = CHR ''-'' then [c] else [])"
  define s1 where "s1 = drop (length sg) s"
  have s: "s = sg @ s1" by (auto simp: sg_def s1_def split: list.split)
  have sg: "sg \<in> {[], ''-''}" by (auto simp: sg_def split: list.split)
  have split: "(case s of [] \<Rightarrow> ([], s) | c # r \<Rightarrow> if c = CHR ''-'' then ([c], r) else ([], s)) = (sg, s1)"
    by (auto simp: sg_def s1_def split: list.split)
  have n: "(case s1 of [] \<Rightarrow> None | d # q \<Rightarrow>
      if d = CHR ''0'' then read_frac (sg @ [d]) q
      else if is_digit d then read_frac (sg @ takeWhile is_digit s1) (dropWhile is_digit s1) else None) = Some (t, r)"
    using assms unfolding read_number_def split Let_def prod.case .
  obtain d q where dq: "s1 = d # q" using n by (cases s1) auto
  have d: "is_digit d" using n by (auto simp: dq is_digit_def split: if_splits)
  define w where "w = (if d = CHR ''0'' then [d] else takeWhile is_digit s1)"
  define y where "y = (if d = CHR ''0'' then q else dropWhile is_digit s1)"
  have wy: "s1 = w @ y" by (simp add: w_def y_def dq)
  have f: "read_frac (sg @ w) y = Some (t, r)" using n by (simp add: dq w_def y_def split: if_splits)
  have w: "list_all is_digit w" "\<exists>ws. w = d # ws" using d all_digits_taken[of s1] by (auto simp: w_def dq)
  obtain ws where ws: "w = d # ws" using w(2) by blast
  from read_frac_tail[OF f] obtain e where e: "t = (sg @ w) @ e" "y = e @ r" "number_tail read_frac e" by blast
  have again: "read_number (t @ x) = Some (t, x)" if "delimited x" for x
  proof -
    have nd: "d \<noteq> CHR ''-''" using d by (auto simp: is_digit_def)
    have sp: "(case sg @ d # z of [] \<Rightarrow> ([], sg @ d # z) | c # r \<Rightarrow> if c = CHR ''-'' then ([c], r) else ([], sg @ d # z))
        = (sg, d # z)" for z
      using sg nd by auto
    have "e @ x = [] \<or> \<not> is_digit (hd (e @ x))"
      using e(3) delimited_no_digit[OF that] by (cases e) (auto simp: number_tail_def)
    note dt = digits_then[OF w(1) this]
    have fx: "read_frac (sg @ w) (e @ x) = Some (t, x)" using e(1,3) that by (simp add: number_tail_def)
    have tx: "t @ x = sg @ d # ws @ e @ x" by (simp add: e(1) ws)
    have "read_number (t @ x) = (if d = CHR ''0'' then read_frac (sg @ [d]) (ws @ e @ x)
        else if is_digit d then read_frac (sg @ takeWhile is_digit (w @ e @ x)) (dropWhile is_digit (w @ e @ x)) else None)"
      unfolding read_number_def tx sp Let_def prod.case list.case by (simp add: ws)
    also have "\<dots> = Some (t, x)"
    proof (cases "d = CHR ''0''")
      case True
      then show ?thesis using fx ws by (simp add: w_def)
    qed (use fx dt d in simp)
    finally show ?thesis .
  qed
  have "solid t" using sg digits_solid[OF w(1)] e(1,3) by (auto simp: number_tail_def solid_def is_ws_def)
  moreover have "\<exists>c q. t = c # q \<and> (is_digit c \<or> c = CHR ''-'')" using sg d by (auto simp: e(1) ws)
  moreover have "s = t @ r" unfolding s wy e(1,2) by simp
  ultimately show ?thesis using again by blast
qed

lemma read_literal_again:
  assumes "read_literal w v s = Some (v', r)"
  shows "v' = v \<and> s = w @ r \<and> (\<forall>x. read_literal w v (w @ x) = Some (v, x))"
  using assms by (auto simp: read_literal_def has_prefix_iff split: if_splits)

definition value_start :: "string \<Rightarrow> bool" where
  "value_start u \<longleftrightarrow> u \<noteq> [] \<and> \<not> is_ws (hd u) \<and> hd u \<noteq> CHR '']'' \<and> hd u \<noteq> CHR ''}''"

lemma reads_as_iff:
  "reads_as u v h \<longleftrightarrow> value_start u \<and> (\<forall>f d r. 2 * length u < f \<longrightarrow> d + h \<le> max_depth \<longrightarrow> delimited r \<longrightarrow>
     read_value f d (u @ r) = Some (v, r))"
  by (simp add: reads_as_def value_start_def)

lemma scalar_reads_as:
  assumes "value_start u" and "hd u \<noteq> CHR ''{''" and "hd u \<noteq> CHR ''[''"
    and "\<And>x. delimited x \<Longrightarrow> read_scalar (u @ x) = Some (v, x)"
  shows "reads_as u v 0"
proof -
  obtain c q where u: "u = c # q" using assms(1) by (cases u) (auto simp: value_start_def)
  have "read_value f d (u @ x) = Some (v, x)" if f: "2 * length u < f" and x: "delimited x" for f d x
  proof -
    obtain f' where "f = Suc f'" using f by (cases f) auto
    then show ?thesis using assms(2,3) assms(4)[OF x] by (simp add: u)
  qed
  with assms(1) show ?thesis by (simp add: reads_as_iff)
qed

lemma compact_scalar:
  assumes "read_scalar s = Some (v, r)"
  shows "\<exists>u. compact False s = u @ compact False r \<and> reads_as u v 0 \<and> plain v = v \<and> json_depth v = 0"
proof -
  obtain c q where s: "s = c # q" using assms by (cases s) (auto simp: read_scalar_def)
  consider (str) "c = CHR 0x22" | (true) "c = CHR ''t''" | (false) "c = CHR ''f''" | (null) "c = CHR ''n''"
    | (num) "c \<notin> {CHR 0x22, CHR ''t'', CHR ''f'', CHR ''n''}"
    by blast
  then show ?thesis
  proof cases
    case str
    then obtain t where t: "read_string q = Some (t, r)" "v = JStr t"
      using assms by (auto simp: s read_scalar_def)
    from carried_string[OF t(1)] obtain u where u: "carried q t r u" by blast
    have "reads_as (CHR 0x22 # u) v 0"
      by (rule scalar_reads_as) (use u t in \<open>auto simp: carried_def value_start_def is_ws_def read_scalar_def\<close>)
    moreover have "compact False s = (CHR 0x22 # u) @ compact False r"
      using u str by (simp add: s carried_def is_ws_def)
    ultimately show ?thesis using t(2) by (intro exI[of _ "CHR 0x22 # u"]) simp
  next
    case num
    then obtain t where t: "read_number s = Some (t, r)" "v = JNum t"
      using assms by (auto simp: s read_scalar_def)
    from read_number_again[OF t(1)] obtain c' q' where a: "s = t @ r" "solid t" "t = c' # q'"
      "is_digit c' \<or> c' = CHR ''-''" "\<forall>x. delimited x \<longrightarrow> read_number (t @ x) = Some (t, x)"
      by blast
    have c': "c' \<notin> {CHR 0x22, CHR ''t'', CHR ''f'', CHR ''n'', CHR ''{'', CHR ''['', CHR '']'', CHR ''}''}" "\<not> is_ws c'"
      using a(4) by (auto simp: is_digit_def is_ws_def)
    have "reads_as t v 0"
      by (rule scalar_reads_as) (use a c' t(2) in \<open>auto simp: value_start_def read_scalar_def\<close>)
    then show ?thesis using t(2) compact_solid[OF a(2), of r] by (intro exI[of _ t]) (simp add: a(1))
  next
    case true
    with assms have l: "read_literal ''true'' (JBool True) s = Some (v, r)" by (simp add: s read_scalar_def)
    note lit = read_literal_again[OF l]
    have "reads_as ''true'' v 0"
      by (rule scalar_reads_as) (use lit in \<open>auto simp: value_start_def is_ws_def read_scalar_def\<close>)
    then show ?thesis using lit compact_solid[of "''true''" r]
      by (intro exI[of _ "''true''"]) (simp add: solid_def is_ws_def)
  next
    case false
    with assms have l: "read_literal ''false'' (JBool False) s = Some (v, r)" by (simp add: s read_scalar_def)
    note lit = read_literal_again[OF l]
    have "reads_as ''false'' v 0"
      by (rule scalar_reads_as) (use lit in \<open>auto simp: value_start_def is_ws_def read_scalar_def\<close>)
    then show ?thesis using lit compact_solid[of "''false''" r]
      by (intro exI[of _ "''false''"]) (simp add: solid_def is_ws_def)
  next
    case null
    with assms have l: "read_literal ''null'' JNull s = Some (v, r)" by (simp add: s read_scalar_def)
    note lit = read_literal_again[OF l]
    have "reads_as ''null'' v 0"
      by (rule scalar_reads_as) (use lit in \<open>auto simp: value_start_def is_ws_def read_scalar_def\<close>)
    then show ?thesis using lit compact_solid[of "''null''" r]
      by (intro exI[of _ "''null''"]) (simp add: solid_def is_ws_def)
  qed
qed

subsection \<open>Arrays and objects\<close>

lemma fold_max: "fold max xs (n :: nat) = max n (fold max xs 0)"
proof (induction xs arbitrary: n)
  case (Cons a xs)
  show ?case using Cons.IH[of "max a n"] Cons.IH[of a] by simp
qed simp

definition elems_depth :: "(string \<times> json) list \<Rightarrow> nat" where
  "elems_depth es = fold max (map (json_depth \<circ> snd) es) 0"

definition members_depth :: "(string \<times> string \<times> json) list \<Rightarrow> nat" where
  "members_depth ms = fold max (map (json_depth \<circ> snd \<circ> snd) ms) 0"

lemma depth_Cons:
  "elems_depth (e # es) = max (json_depth (snd e)) (elems_depth es)"
  "members_depth (m # ms) = max (json_depth (snd (snd m))) (members_depth ms)"
  using fold_max[of "map (json_depth \<circ> snd) es" "json_depth (snd e)"]
    fold_max[of "map (json_depth \<circ> snd \<circ> snd) ms" "json_depth (snd (snd m))"]
  by (simp_all add: elems_depth_def members_depth_def)

lemma depth_JArr_JObj:
  "json_depth (JArr es) = Suc (elems_depth es)" "json_depth (JObj ms) = Suc (members_depth ms)"
  by (simp_all add: elems_depth_def members_depth_def)

text \<open>What a compacted sequence of elements or members (with its closing bracket) reads as.\<close>

definition elems_read :: "string \<Rightarrow> (string \<times> json) list \<Rightarrow> bool" where
  "elems_read u es \<longleftrightarrow> value_start u \<and> (\<exists>es'. map (plain \<circ> snd) es' = map (plain \<circ> snd) es
     \<and> (\<forall>f d x. 2 * length u < f \<longrightarrow> d + elems_depth es \<le> max_depth \<longrightarrow> read_elems f d (u @ x) = Some (es', x)))"

definition members_read :: "string \<Rightarrow> (string \<times> string \<times> json) list \<Rightarrow> bool" where
  "members_read u ms \<longleftrightarrow> value_start u \<and> (\<exists>ms'. map fst ms' = map fst ms
     \<and> map (plain \<circ> snd \<circ> snd) ms' = map (plain \<circ> snd \<circ> snd) ms
     \<and> (\<forall>f d x. 2 * length u < f \<longrightarrow> d + members_depth ms \<le> max_depth \<longrightarrow> read_members f d (u @ x) = Some (ms', x)))"

lemma value_start_append: "value_start u \<Longrightarrow> value_start (u @ x)"
  by (auto simp: value_start_def)

lemma value_start_skip: "value_start u \<Longrightarrow> skip_ws (u @ x) = u @ x"
  using skip_ws_hd[of u x] by (simp add: value_start_def)

lemma says_start: "says u v h \<Longrightarrow> value_start u"
  by (auto simp: says_def reads_as_iff)

lemma elems_last:
  assumes "says u (plain v) (json_depth v)"
  shows "elems_read (u @ '']'') [(raw, v)]"
proof -
  obtain v' where v: "reads_as u v' (json_depth v)" "plain v' = plain v" using assms by (auto simp: says_def)
  have "read_elems f d ((u @ '']'') @ x) = Some ([(u, v')], x)"
    if f: "2 * length (u @ '']'') < f" and d: "d + elems_depth [(raw, v)] \<le> max_depth" for f d x
  proof -
    obtain f' where f': "f = Suc f'" "2 * length u < f'" using f by (cases f) auto
    have "read_value f' d (u @ CHR '']'' # x) = Some (v', CHR '']'' # x)"
      using reads_asD[OF v(1) f'(2), of d "CHR '']'' # x"] d by (simp add: delimited_def depth_Cons elems_depth_def)
    then show ?thesis by (simp add: f'(1) item_end_def skip_ws_def is_ws_def)
  qed
  then show ?thesis
    using v(2) says_start[OF assms] by (auto simp: elems_read_def value_start_append intro!: exI[of _ "[(u, v')]"])
qed

lemma elems_more:
  assumes "says u (plain v) (json_depth v)" and "elems_read w es"
  shows "elems_read (u @ '','' @ w) ((raw, v) # es)"
proof -
  obtain v' where v: "reads_as u v' (json_depth v)" "plain v' = plain v" using assms(1) by (auto simp: says_def)
  obtain es' where e: "map (plain \<circ> snd) es' = map (plain \<circ> snd) es"
    "\<And>f d x. 2 * length w < f \<Longrightarrow> d + elems_depth es \<le> max_depth \<Longrightarrow> read_elems f d (w @ x) = Some (es', x)"
    and w: "value_start w"
    using assms(2) by (auto simp: elems_read_def)
  have "read_elems f d ((u @ '','' @ w) @ x) = Some ((u, v') # es', x)"
    if f: "2 * length (u @ '','' @ w) < f" and d: "d + elems_depth ((raw, v) # es) \<le> max_depth" for f d x
  proof -
    obtain f' where f': "f = Suc f'" "2 * length u < f'" "2 * length w < f'" using f by (cases f) auto
    have d': "d + json_depth v \<le> max_depth" "d + elems_depth es \<le> max_depth" using d by (simp_all add: depth_Cons)
    have "read_value f' d (u @ CHR '','' # w @ x) = Some (v', CHR '','' # w @ x)"
      using reads_asD[OF v(1) f'(2) d'(1), of "CHR '','' # w @ x"] by (simp add: delimited_def)
    then show ?thesis
      using e(2)[OF f'(3) d'(2), of x] value_start_skip[OF w, of x] by (simp add: f'(1) item_end_def is_ws_def)
  qed
  then show ?thesis
    using v(2) e(1) says_start[OF assms(1)]
    by (auto simp: elems_read_def value_start_append intro!: exI[of _ "(u, v') # es'"])
qed

text \<open>The text of a key with its quotes.\<close>

definition key_reads :: "string \<Rightarrow> string \<Rightarrow> bool" where
  "key_reads q k \<longleftrightarrow> (\<forall>x. read_string (q @ x) = Some (k, x))"

lemma member_key_again:
  "key_reads q k \<Longrightarrow> value_start u \<Longrightarrow> member_key (CHR 0x22 # q @ CHR '':'' # u @ x) = Some (k, u @ x)"
  using value_start_skip[of u x] by (simp add: key_reads_def member_key_def is_ws_def)

lemma members_last:
  assumes "key_reads q k" and "says u (plain v) (json_depth v)"
  shows "members_read (CHR 0x22 # q @ CHR '':'' # u @ ''}'') [(k, raw, v)]"
proof -
  obtain v' where v: "reads_as u v' (json_depth v)" "plain v' = plain v" using assms(2) by (auto simp: says_def)
  have "read_members f d ((CHR 0x22 # q @ CHR '':'' # u @ ''}'') @ x) = Some ([(k, u, v')], x)"
    if f: "2 * length (CHR 0x22 # q @ CHR '':'' # u @ ''}'') < f"
      and d: "d + members_depth [(k, raw, v)] \<le> max_depth" for f d x
  proof -
    obtain f' where f': "f = Suc f'" "2 * length u < f'" using f by (cases f) auto
    have "read_value f' d (u @ CHR ''}'' # x) = Some (v', CHR ''}'' # x)"
      using reads_asD[OF v(1) f'(2), of d "CHR ''}'' # x"] d by (simp add: delimited_def depth_Cons members_depth_def)
    then show ?thesis
      using member_key_again[OF assms(1) says_start[OF assms(2)], of "CHR ''}'' # x"]
      by (simp add: f'(1) item_end_def skip_ws_def is_ws_def)
  qed
  then show ?thesis
    using v(2) by (auto simp: members_read_def value_start_def is_ws_def intro!: exI[of _ "[(k, u, v')]"])
qed

lemma members_more:
  assumes "key_reads q k" and "says u (plain v) (json_depth v)" and "members_read w ms"
  shows "members_read (CHR 0x22 # q @ CHR '':'' # u @ '','' @ w) ((k, raw, v) # ms)"
proof -
  obtain v' where v: "reads_as u v' (json_depth v)" "plain v' = plain v" using assms(2) by (auto simp: says_def)
  obtain ms' where m: "map fst ms' = map fst ms" "map (plain \<circ> snd \<circ> snd) ms' = map (plain \<circ> snd \<circ> snd) ms"
    "\<And>f d x. 2 * length w < f \<Longrightarrow> d + members_depth ms \<le> max_depth \<Longrightarrow> read_members f d (w @ x) = Some (ms', x)"
    and w: "value_start w"
    using assms(3) by (auto simp: members_read_def)
  have "read_members f d ((CHR 0x22 # q @ CHR '':'' # u @ '','' @ w) @ x) = Some ((k, u, v') # ms', x)"
    if f: "2 * length (CHR 0x22 # q @ CHR '':'' # u @ '','' @ w) < f"
      and d: "d + members_depth ((k, raw, v) # ms) \<le> max_depth" for f d x
  proof -
    obtain f' where f': "f = Suc f'" "2 * length u < f'" "2 * length w < f'" using f by (cases f) auto
    have d': "d + json_depth v \<le> max_depth" "d + members_depth ms \<le> max_depth" using d by (simp_all add: depth_Cons)
    have "read_value f' d (u @ CHR '','' # w @ x) = Some (v', CHR '','' # w @ x)"
      using reads_asD[OF v(1) f'(2) d'(1), of "CHR '','' # w @ x"] by (simp add: delimited_def)
    then show ?thesis
      using m(3)[OF f'(3) d'(2), of x] value_start_skip[OF w, of x]
        member_key_again[OF assms(1) says_start[OF assms(2)], of "CHR '','' # w @ x"]
      by (simp add: f'(1) item_end_def is_ws_def)
  qed
  then show ?thesis
    using v(2) m(1,2) by (auto simp: members_read_def value_start_def is_ws_def intro!: exI[of _ "(k, u, v') # ms'"])
qed

lemma plain_JArr_cong: "map (plain \<circ> snd) es' = map (plain \<circ> snd) es \<Longrightarrow> plain (JArr es') = plain (JArr es)"
proof -
  assume "map (plain \<circ> snd) es' = map (plain \<circ> snd) es"
  then have "map (\<lambda>v. ([] :: string, v)) (map (plain \<circ> snd) es') = map (\<lambda>v. ([], v)) (map (plain \<circ> snd) es)" by simp
  then show ?thesis by (simp add: comp_def)
qed

lemma plain_JObj_cong:
  assumes "map fst ms' = map fst ms" and "map (plain \<circ> snd \<circ> snd) ms' = map (plain \<circ> snd \<circ> snd) ms"
  shows "plain (JObj ms') = plain (JObj ms)"
proof -
  have p: "plain (JObj ns) = JObj (map (\<lambda>(k, v). (k, [], v)) (zip (map fst ns) (map (plain \<circ> snd \<circ> snd) ns)))" for ns
    by (induction ns) simp_all
  show ?thesis unfolding p[of ms'] p[of ms] assms ..
qed

lemma array_says:
  assumes "elems_read u es"
  shows "says (CHR ''['' # u) (plain (JArr es)) (json_depth (JArr es))"
proof -
  obtain es' where e: "map (plain \<circ> snd) es' = map (plain \<circ> snd) es"
    "\<And>f d x. 2 * length u < f \<Longrightarrow> d + elems_depth es \<le> max_depth \<Longrightarrow> read_elems f d (u @ x) = Some (es', x)"
    and w: "value_start u"
    using assms by (auto simp: elems_read_def)
  obtain c q where u: "u = c # q" "\<not> is_ws c" "c \<noteq> CHR '']''" using w by (cases u) (auto simp: value_start_def)
  have "read_value f d ((CHR ''['' # u) @ x) = Some (JArr es', x)"
    if f: "2 * length (CHR ''['' # u) < f" and d: "d + json_depth (JArr es) \<le> max_depth" for f d x
  proof -
    obtain f' where f': "f = Suc f'" "2 * length u < f'" using f by (cases f) auto
    have d': "Suc d + elems_depth es \<le> max_depth" "\<not> max_depth \<le> d" using d unfolding depth_JArr_JObj by simp_all
    have "open_body CHR '']'' (u @ x) = Some (False, u @ x)" using u by (simp add: open_body_def)
    then show ?thesis using e(2)[OF f'(2) d'(1), of x] d'(2) by (simp add: f'(1))
  qed
  then have "reads_as (CHR ''['' # u) (JArr es') (json_depth (JArr es))"
    by (simp add: reads_as_iff value_start_def is_ws_def)
  then show ?thesis unfolding says_def using plain_JArr_cong[OF e(1)] by blast
qed

lemma object_says:
  assumes "members_read u ms"
  shows "says (CHR ''{'' # u) (plain (JObj ms)) (json_depth (JObj ms))"
proof -
  obtain ms' where m: "map fst ms' = map fst ms" "map (plain \<circ> snd \<circ> snd) ms' = map (plain \<circ> snd \<circ> snd) ms"
    "\<And>f d x. 2 * length u < f \<Longrightarrow> d + members_depth ms \<le> max_depth \<Longrightarrow> read_members f d (u @ x) = Some (ms', x)"
    and w: "value_start u"
    using assms by (auto simp: members_read_def)
  obtain c q where u: "u = c # q" "\<not> is_ws c" "c \<noteq> CHR ''}''" using w by (cases u) (auto simp: value_start_def)
  have "read_value f d ((CHR ''{'' # u) @ x) = Some (JObj ms', x)"
    if f: "2 * length (CHR ''{'' # u) < f" and d: "d + json_depth (JObj ms) \<le> max_depth" for f d x
  proof -
    obtain f' where f': "f = Suc f'" "2 * length u < f'" using f by (cases f) auto
    have d': "Suc d + members_depth ms \<le> max_depth" "\<not> max_depth \<le> d" using d unfolding depth_JArr_JObj by simp_all
    have "open_body CHR ''}'' (u @ x) = Some (False, u @ x)" using u by (simp add: open_body_def)
    then show ?thesis using m(3)[OF f'(2) d'(1), of x] d'(2) by (simp add: f'(1))
  qed
  then have "reads_as (CHR ''{'' # u) (JObj ms') (json_depth (JObj ms))"
    by (simp add: reads_as_iff value_start_def is_ws_def)
  then show ?thesis unfolding says_def using plain_JObj_cong[OF m(1,2)] by blast
qed

lemma empty_says: "says ''[]'' (plain (JArr [])) (json_depth (JArr []))" "says ''{}'' (plain (JObj [])) (json_depth (JObj []))"
proof -
  have "reads_as (enc_array (map fst [])) (JArr []) (Suc 0)" using reads_as_array[of "[]" 0] by simp
  then show "says ''[]'' (plain (JArr [])) (json_depth (JArr []))" by (auto simp: says_def enc_array_def intro!: exI[of _ "JArr []"])
  have "reads_as (enc_object (map member_text [])) (JObj (map member_value [])) (Suc 0)"
    using reads_as_object[of "[]" 0] by simp
  then show "says ''{}'' (plain (JObj [])) (json_depth (JObj []))" by (auto simp: says_def enc_object_def intro!: exI[of _ "JObj []"])
qed

lemma compact_next:
  assumes "skip_ws s = c # r" and "c \<noteq> CHR 0x22"
  shows "compact False s = c # compact False r"
proof -
  have "\<not> is_ws c" using assms(1) hd_dropWhile[of is_ws s] by (simp add: skip_ws_def)
  then show ?thesis using compact_skip_ws[of s] assms by simp
qed

lemma compact_item_end:
  assumes "item_end cl s = Some (closed, r)" and "cl = CHR '']'' \<or> cl = CHR ''}''"
  shows "compact False s = (if closed then cl else CHR '','') # compact False r"
proof -
  obtain x q where x: "skip_ws s = x # q" using assms(1) by (auto simp: item_end_def split: list.splits)
  show ?thesis
  proof (cases "x = cl")
    case True
    with assms x compact_next[OF x] show ?thesis by (auto simp: item_end_def)
  next
    case False
    with assms(1) x have "x = CHR '',''" "closed = False" "r = skip_ws q" by (auto simp: item_end_def split: if_splits)
    with compact_next[OF x] show ?thesis by (simp add: compact_skip_ws)
  qed
qed

lemma compact_member_key:
  assumes "member_key s = Some (k, r)"
  shows "\<exists>q. key_reads q k \<and> compact False s = CHR 0x22 # q @ CHR '':'' # compact False r"
proof -
  obtain s1 s2 where s: "s = CHR 0x22 # s1" and k: "read_string s1 = Some (k, s2)"
    using assms by (auto simp: member_key_def split: list.splits option.splits if_splits)
  obtain s3 where s3: "skip_ws s2 = CHR '':'' # s3" "r = skip_ws s3"
    using assms by (auto simp: s k member_key_def split: list.splits if_splits)
  from carried_string[OF k] obtain q where q: "carried s1 k s2 q" by blast
  have "compact False s2 = CHR '':'' # compact False r"
    using compact_next[OF s3(1)] by (simp add: s3(2) compact_skip_ws)
  with q show ?thesis by (intro exI[of _ q]) (simp add: s carried_def key_reads_def is_ws_def)
qed

text \<open>The main induction: over the fuel of the reader.\<close>

lemma compact_reads:
  "(\<forall>d s v r. read_value f d s = Some (v, r) \<longrightarrow>
      (\<exists>u. compact False s = u @ compact False r \<and> says u (plain v) (json_depth v)))
   \<and> (\<forall>d s es r. read_elems f d s = Some (es, r) \<longrightarrow>
      (\<exists>u. compact False s = u @ compact False r \<and> elems_read u es))
   \<and> (\<forall>d s ms r. read_members f d s = Some (ms, r) \<longrightarrow>
      (\<exists>u. compact False s = u @ compact False r \<and> members_read u ms))"
proof (induction f)
  case 0
  show ?case by simp
next
  case (Suc f)
  have V: "\<exists>u. compact False s = u @ compact False r \<and> says u (plain v) (json_depth v)"
    if "read_value f d s = Some (v, r)" for d s v r
    using Suc.IH that by blast
  have E: "\<exists>u. compact False s = u @ compact False r \<and> elems_read u es"
    if "read_elems f d s = Some (es, r)" for d s es r
    using Suc.IH that by blast
  have M: "\<exists>u. compact False s = u @ compact False r \<and> members_read u ms"
    if "read_members f d s = Some (ms, r)" for d s ms r
    using Suc.IH that by blast
  show ?case
  proof (intro conjI allI impI)
    fix d s v r assume rd: "read_value (Suc f) d s = Some (v, r)"
    obtain c q where s: "s = c # q" using rd by (cases s) auto
    consider (obj) "c = CHR ''{''" | (arr) "c = CHR ''[''" | (other) "c \<noteq> CHR ''{''" "c \<noteq> CHR ''[''" by blast
    then show "\<exists>u. compact False s = u @ compact False r \<and> says u (plain v) (json_depth v)"
    proof cases
      case other
      then have "read_scalar s = Some (v, r)" using rd by (simp add: s)
      from compact_scalar[OF this] show ?thesis unfolding says_def by (metis)
    next
      case obj
      then obtain closed r1 where o: "open_body CHR ''}'' q = Some (closed, r1)"
        using rd by (auto simp: s split: option.splits if_splits)
      obtain x y where x: "skip_ws q = x # y" using o by (auto simp: open_body_def split: list.splits)
      show ?thesis
      proof (cases closed)
        case True
        with o x have "x = CHR ''}''" "y = r1" by (auto simp: open_body_def split: if_splits)
        with compact_next[OF x] obj have "compact False s = ''{}'' @ compact False r1" by (simp add: s is_ws_def)
        moreover have "v = JObj []" "r = r1" using rd o obj True by (auto simp: s split: if_splits)
        ultimately show ?thesis using empty_says(2) by blast
      next
        case False
        with o x have r1: "r1 = skip_ws q" by (auto simp: open_body_def split: if_splits)
        obtain ms where m: "read_members f (Suc d) r1 = Some (ms, r)" "v = JObj ms"
          using rd o obj False by (auto simp: s split: if_splits)
        from M[OF m(1)] obtain u where "compact False r1 = u @ compact False r" "members_read u ms" by blast
        with obj object_says[of u ms] show ?thesis
          by (intro exI[of _ "CHR ''{'' # u"]) (simp add: s r1 m(2) compact_skip_ws is_ws_def del: plain.simps json_depth.simps)
      qed
    next
      case arr
      then obtain closed r1 where o: "open_body CHR '']'' q = Some (closed, r1)"
        using rd by (auto simp: s split: option.splits if_splits)
      obtain x y where x: "skip_ws q = x # y" using o by (auto simp: open_body_def split: list.splits)
      show ?thesis
      proof (cases closed)
        case True
        with o x have "x = CHR '']''" "y = r1" by (auto simp: open_body_def split: if_splits)
        with compact_next[OF x] arr have "compact False s = ''[]'' @ compact False r1" by (simp add: s is_ws_def)
        moreover have "v = JArr []" "r = r1" using rd o arr True by (auto simp: s split: if_splits)
        ultimately show ?thesis using empty_says(1) by blast
      next
        case False
        with o x have r1: "r1 = skip_ws q" by (auto simp: open_body_def split: if_splits)
        obtain es where e: "read_elems f (Suc d) r1 = Some (es, r)" "v = JArr es"
          using rd o arr False by (auto simp: s split: if_splits)
        from E[OF e(1)] obtain u where "compact False r1 = u @ compact False r" "elems_read u es" by blast
        with arr array_says[of u es] show ?thesis
          by (intro exI[of _ "CHR ''['' # u"]) (simp add: s r1 e(2) compact_skip_ws is_ws_def del: plain.simps json_depth.simps)
      qed
    qed
  next
    fix d s es r assume rd: "read_elems (Suc f) d s = Some (es, r)"
    obtain v r0 where v: "read_value f d s = Some (v, r0)" using rd by (auto split: option.splits)
    obtain closed r1 where i: "item_end CHR '']'' r0 = Some (closed, r1)" using rd v by (auto split: option.splits)
    from V[OF v] obtain u where u: "compact False s = u @ compact False r0" "says u (plain v) (json_depth v)" by blast
    note ci = compact_item_end[OF i]
    show "\<exists>u. compact False s = u @ compact False r \<and> elems_read u es"
    proof (cases closed)
      case True
      with rd v i have "es = [(raw_slice s r0, v)]" "r = r1" by auto
      with elems_last[OF u(2)] u(1) ci True show ?thesis by (intro exI[of _ "u @ '']''"]) simp
    next
      case False
      then obtain es' where e: "read_elems f d r1 = Some (es', r)" "es = (raw_slice s r0, v) # es'"
        using rd v i by auto
      from E[OF e(1)] obtain w where "compact False r1 = w @ compact False r" "elems_read w es'" by blast
      with elems_more[OF u(2)] u(1) ci False e(2) show ?thesis by (intro exI[of _ "u @ '','' @ w"]) simp
    qed
  next
    fix d s ms r assume rd: "read_members (Suc f) d s = Some (ms, r)"
    obtain k s1 where k: "member_key s = Some (k, s1)" using rd by (auto split: option.splits)
    obtain v r0 where v: "read_value f d s1 = Some (v, r0)" using rd k by (auto split: option.splits)
    obtain closed r1 where i: "item_end CHR ''}'' r0 = Some (closed, r1)" using rd k v by (auto split: option.splits)
    from compact_member_key[OF k] obtain q where q: "key_reads q k"
      "compact False s = CHR 0x22 # q @ CHR '':'' # compact False s1" by blast
    from V[OF v] obtain u where u: "compact False s1 = u @ compact False r0" "says u (plain v) (json_depth v)" by blast
    note ci = compact_item_end[OF i]
    show "\<exists>u. compact False s = u @ compact False r \<and> members_read u ms"
    proof (cases closed)
      case True
      with rd k v i have "ms = [(k, raw_slice s1 r0, v)]" "r = r1" by auto
      with members_last[OF q(1) u(2)] q(2) u(1) ci True show ?thesis
        by (intro exI[of _ "CHR 0x22 # q @ CHR '':'' # u @ ''}''"]) simp
    next
      case False
      then obtain ms' where m: "read_members f d r1 = Some (ms', r)" "ms = (k, raw_slice s1 r0, v) # ms'"
        using rd k v i by auto
      from M[OF m(1)] obtain w where "compact False r1 = w @ compact False r" "members_read w ms'" by blast
      with members_more[OF q(1) u(2)] q(2) u(1) ci False m(2) show ?thesis
        by (intro exI[of _ "CHR 0x22 # q @ CHR '':'' # u @ '','' @ w"]) simp
    qed
  qed
qed

text \<open>A raw message inside a document says what it says alone.\<close>

lemma raw_says:
  assumes "read_document b = Some v"
  shows "says (compact False b) (plain v) (json_depth v)"
proof -
  obtain r where r: "read_value (2 * length (skip_ws b) + 2) 0 (skip_ws b) = Some (v, r)" "skip_ws r = []"
    using assms by (auto simp: read_document_def read_first_def Let_def split: option.splits if_splits)
  from compact_reads r(1) obtain u where u: "compact False (skip_ws b) = u @ compact False r"
    "says u (plain v) (json_depth v)" by blast
  have "compact False r = []" using compact_skip_ws[of r] r(2) by simp
  with u show ?thesis by (simp add: compact_skip_ws)
qed

subsection \<open>Nesting\<close>

text \<open>The reader accepts no value that is nested deeper than its bound.\<close>

lemma read_depth:
  "(\<forall>d s v r. read_value f d s = Some (v, r) \<longrightarrow> d \<le> max_depth \<longrightarrow> d + json_depth v \<le> max_depth)
   \<and> (\<forall>d s es r. read_elems f d s = Some (es, r) \<longrightarrow> d \<le> max_depth \<longrightarrow> d + elems_depth es \<le> max_depth)
   \<and> (\<forall>d s ms r. read_members f d s = Some (ms, r) \<longrightarrow> d \<le> max_depth \<longrightarrow> d + members_depth ms \<le> max_depth)"
proof (induction f)
  case (Suc f)
  have V: "d + json_depth v \<le> max_depth" if "read_value f d s = Some (v, r)" "d \<le> max_depth" for d s v r
    using Suc.IH that by blast
  have E: "d + elems_depth es \<le> max_depth" if "read_elems f d s = Some (es, r)" "d \<le> max_depth" for d s es r
    using Suc.IH that by blast
  have M: "d + members_depth ms \<le> max_depth" if "read_members f d s = Some (ms, r)" "d \<le> max_depth" for d s ms r
    using Suc.IH that by blast
  have z: "elems_depth [] = 0" "members_depth [] = 0" by (simp_all add: elems_depth_def members_depth_def)
  show ?case
  proof (intro conjI allI impI)
    fix d s v r assume rd: "read_value (Suc f) d s = Some (v, r)" and d: "d \<le> max_depth"
    obtain c q where s: "s = c # q" using rd by (cases s) auto
    show "d + json_depth v \<le> max_depth"
    proof (cases "c = CHR ''{'' \<or> c = CHR ''[''")
      case False
      then have "read_scalar s = Some (v, r)" using rd by (simp add: s)
      from compact_scalar[OF this] d show ?thesis by auto
    next
      case True
      then have lt: "Suc d \<le> max_depth" using rd by (auto simp: s split: if_splits)
      consider "v = JObj []" | "v = JArr []" | (o) ms r1 where "read_members f (Suc d) r1 = Some (ms, r)" "v = JObj ms"
        | (a) es r1 where "read_elems f (Suc d) r1 = Some (es, r)" "v = JArr es"
        using rd True by (auto simp: s split: if_splits option.splits)
      then show ?thesis
      proof cases
        case o
        from M[OF o(1) lt] show ?thesis unfolding o(2) depth_JArr_JObj by simp
      next
        case a
        from E[OF a(1) lt] show ?thesis unfolding a(2) depth_JArr_JObj by simp
      qed (use lt in simp_all)
    qed
  next
    fix d s es r assume rd: "read_elems (Suc f) d s = Some (es, r)" and d: "d \<le> max_depth"
    obtain v r0 where v: "read_value f d s = Some (v, r0)" using rd by (auto split: option.splits)
    obtain closed r1 where i: "item_end CHR '']'' r0 = Some (closed, r1)" using rd v by (auto split: option.splits)
    show "d + elems_depth es \<le> max_depth"
      using rd v i V[OF v d] E[of d r1 _ r] d by (auto simp: depth_Cons z split: if_splits)
  next
    fix d s ms r assume rd: "read_members (Suc f) d s = Some (ms, r)" and d: "d \<le> max_depth"
    obtain k s1 where k: "member_key s = Some (k, s1)" using rd by (auto split: option.splits)
    obtain v r0 where v: "read_value f d s1 = Some (v, r0)" using rd k by (auto split: option.splits)
    obtain closed r1 where i: "item_end CHR ''}'' r0 = Some (closed, r1)" using rd k v by (auto split: option.splits)
    show "d + members_depth ms \<le> max_depth"
      using rd k v i V[OF v d] M[of d r1 _ r] d by (auto simp: depth_Cons z split: if_splits)
  qed
qed simp

lemma says_depth:
  assumes "says t v h" and "h \<le> max_depth"
  shows "\<exists>v'. read_document t = Some v' \<and> plain v' = v \<and> json_depth v' \<le> h"
proof -
  obtain v' where r: "reads_as t v' h" "plain v' = v" using assms(1) by (auto simp: says_def)
  have "read_value (2 * length t + 1) (max_depth - h) (t @ []) = Some (v', [])"
    using reads_asD[OF r(1), of "2 * length t + 1" "max_depth - h" "[]"] assms(2) by (simp add: delimited_def)
  then have "max_depth - h + json_depth v' \<le> max_depth" using read_depth by (metis diff_le_self)
  with assms(2) have "json_depth v' \<le> h" by simp
  with r reads_as_document[OF r(1) assms(2)] show ?thesis by blast
qed

end
