(* ===== verification/Proxy_Server.thy ===== *)
theory Proxy_Server
  imports Lifecycle_Writes Proxy_Validation Network_Apply Network_Detector State_Report Go_Json_Compact
begin

text \<open>
  Package \<^verbatim>\<open>proxy\<close>, the server's handlers: from a WebSocket message to the frame that answers
  it. A handler is an action of the world of theory \<open>Incus\<close> that returns the text it writes to
  the connection; every handler writes exactly once. The services behind the handlers are the
  interfaces of \<^verbatim>\<open>server.go\<close>, any of which may be nil. The messages of \<^verbatim>\<open>encoding/json\<close>
  errors are parameters.
\<close>

subsection \<open>The server and its services\<close>

datatype apply_failure = Apply_Failure apply_error | Other_Failure string

record 's lifecycle_service =
  ls_handle :: "string \<Rightarrow> string \<Rightarrow> raw_message \<Rightarrow> ('s, result) act"
  ls_capabilities :: capabilities_response

record 's server =
  sv_auth_token :: string
  sv_incus :: "'s env"
  sv_reporter :: "('s, string + report) act option"
  sv_network_state :: "('s, string + network_state) act option"
  sv_network_applier :: "(raw_message \<Rightarrow> ('s, apply_failure + apply_response) act) option"
  sv_lifecycle :: "'s lifecycle_service option"

text \<open>The constructors differ in the services they leave nil.\<close>

definition new_server_with_lifecycle ::
  "string \<Rightarrow> 's env \<Rightarrow> ('s, string + report) act option \<Rightarrow> ('s, string + network_state) act option
     \<Rightarrow> (raw_message \<Rightarrow> ('s, apply_failure + apply_response) act) option \<Rightarrow> 's lifecycle_service option
     \<Rightarrow> 's server" where
  [svc_defs]: "new_server_with_lifecycle token backend rep ns ap lc =
     \<lparr>sv_auth_token = token, sv_incus = backend, sv_reporter = rep, sv_network_state = ns,
      sv_network_applier = ap, sv_lifecycle = lc\<rparr>"

definition new_server_with_network ::
  "string \<Rightarrow> 's env \<Rightarrow> ('s, string + report) act option \<Rightarrow> ('s, string + network_state) act option
     \<Rightarrow> (raw_message \<Rightarrow> ('s, apply_failure + apply_response) act) option \<Rightarrow> 's server" where
  [svc_defs]: "new_server_with_network token backend rep ns ap =
     \<lparr>sv_auth_token = token, sv_incus = backend, sv_reporter = rep, sv_network_state = ns,
      sv_network_applier = ap, sv_lifecycle = None\<rparr>"

definition new_server_with_reporter ::
  "string \<Rightarrow> 's env \<Rightarrow> ('s, string + report) act option \<Rightarrow> 's server" where
  [svc_defs]: "new_server_with_reporter token backend rep =
     \<lparr>sv_auth_token = token, sv_incus = backend, sv_reporter = rep, sv_network_state = None,
      sv_network_applier = None, sv_lifecycle = None\<rparr>"

definition new_server :: "string \<Rightarrow> 's env \<Rightarrow> 's server" where
  [svc_defs]: "new_server token client = new_server_with_reporter token client None"

text \<open>\<open>Some\<close> frame-free refusals of the HTTP layer; \<open>None\<close> lets the request through to the upgrade.\<close>

datatype http_reply = Http_Text int string

definition handle_health :: http_reply where
  [svc_defs]: "handle_health = Http_Text 200 ''{\"status\":\"ok\"}''"

definition check_token :: "'s server \<Rightarrow> string \<Rightarrow> http_reply option" where
  [svc_defs]: "check_token sv authorization =
     (if sv_auth_token sv \<noteq> [] then
        (if authorization \<noteq> ''Bearer '' @ sv_auth_token sv then Some (Http_Text 401 (''unauthorized'' @ line_feed))
         else None)
      else None)"

subsection \<open>Frames\<close>

record json_texts =
  jt_unmarshal :: "bytes \<Rightarrow> json_error \<Rightarrow> string"
  jt_raw :: "bytes \<Rightarrow> string"
  jt_time :: string

definition enc_proxy_response :: "proxy_response \<Rightarrow> bytes option" where
  [svc_defs]: "enc_proxy_response r = map_option (\<lambda>body. enc_object
     ([(''id'', enc_string (resp_id r)), (''status'', itoa (resp_status r)), (''body'', body)]
      @ omit_empty ''error'' (resp_error r))) (enc_raw (resp_body r))"

definition failure :: "string \<Rightarrow> int \<Rightarrow> string \<Rightarrow> proxy_response" where
  [svc_defs]: "failure i status message =
     \<lparr>resp_id = i, resp_status = status, resp_body = None, resp_error = message\<rparr>"

definition success :: "string \<Rightarrow> bytes \<Rightarrow> proxy_response" where
  [svc_defs]: "success i body =
     \<lparr>resp_id = i, resp_status = 200, resp_body = Some body, resp_error = []\<rparr>"

text \<open>\<^verbatim>\<open>data, _ := json.Marshal(resp)\<close>: a failed marshal would leave an empty frame.\<close>

definition frame_or_empty :: "proxy_response \<Rightarrow> bytes" where
  [svc_defs]: "frame_or_empty r = (case enc_proxy_response r of None \<Rightarrow> [] | Some d \<Rightarrow> d)"

definition send_error :: "string \<Rightarrow> string \<Rightarrow> bytes" where
  [svc_defs]: "send_error i message = frame_or_empty (failure i 500 message)"

definition send_protocol_error :: "string \<Rightarrow> string \<Rightarrow> bytes" where
  [svc_defs]: "send_protocol_error i message = frame_or_empty (failure i 400 message)"

definition write_response :: "json_texts \<Rightarrow> string \<Rightarrow> proxy_response option \<Rightarrow> bytes" where
  [svc_defs]: "write_response tx i resp =
     (let r = (case resp of None \<Rightarrow> failure i 500 ''empty response'' | Some r \<Rightarrow> r)
      in case enc_proxy_response r of
           None \<Rightarrow> send_error i (''marshal response: '' @ jt_raw tx (raw_bytes (resp_body r)))
         | Some d \<Rightarrow> d)"

definition respond :: "json_texts \<Rightarrow> proxy_request \<Rightarrow> proxy_response \<Rightarrow> ('s, bytes) act" where
  [svc_defs]: "respond tx req r = ret (write_response tx (req_id req) (Some r))"

subsection \<open>Agent requests\<close>

definition enc_capabilities :: "capabilities_response \<Rightarrow> bytes" where
  [svc_defs]: "enc_capabilities c = enc_object
     [(''supportedActions'', enc_array (map enc_string (cap_actions c))),
      (''operationNormalization'', enc_bool (cap_normalization c))]"

definition server_handle_lifecycle :: "json_texts \<Rightarrow> 's server \<Rightarrow> proxy_request \<Rightarrow> ('s, bytes) act" where
  [svc_defs]: "server_handle_lifecycle tx sv req =
     (case sv_lifecycle sv of
        None \<Rightarrow> respond tx req (failure (req_id req) 503 ''lifecycle service not configured'')
      | Some lc \<Rightarrow>
          if req_path req = ''/agent/v1/lifecycle/capabilities'' then
            (if req_method req \<noteq> ''GET''
             then respond tx req (failure (req_id req) 400 ''unsupported method for lifecycle capabilities'')
             else respond tx req (success (req_id req) (enc_capabilities (ls_capabilities lc))))
          else do {
            result \<leftarrow> ls_handle lc (req_method req) (req_path req) (req_body req);
            case res_err result of
              Some e \<Rightarrow> respond tx req (failure (req_id req) (err_status e) (err_message e))
            | None \<Rightarrow>
                respond tx req
                  \<lparr>resp_id = req_id req,
                   resp_status = (if res_status result = 0 then 503 else res_status result),
                   resp_body = res_body result, resp_error = []\<rparr> })"

definition handle_agent_state :: "json_texts \<Rightarrow> 's server \<Rightarrow> proxy_request \<Rightarrow> ('s, bytes) act" where
  [svc_defs]: "handle_agent_state tx sv req =
     (if req_method req \<noteq> ''GET''
      then respond tx req (failure (req_id req) 400 ''unsupported method for agent state'')
      else case sv_reporter sv of
        None \<Rightarrow> respond tx req (failure (req_id req) 500 ''agent state reporter not configured'')
      | Some rep \<Rightarrow> do {
          built \<leftarrow> rep;
          case built of
            Inl e \<Rightarrow> respond tx req (failure (req_id req) 500 (''build agent state report: '' @ e))
          | Inr r \<Rightarrow>
              (case enc_report r of
                 None \<Rightarrow> respond tx req
                   (failure (req_id req) 500 (''marshal agent state report: '' @ jt_time tx))
               | Some body \<Rightarrow> respond tx req (success (req_id req) body)) })"

definition handle_network_state :: "json_texts \<Rightarrow> 's server \<Rightarrow> proxy_request \<Rightarrow> ('s, bytes) act" where
  [svc_defs]: "handle_network_state tx sv req =
     (if req_method req \<noteq> ''GET''
      then respond tx req (failure (req_id req) 400 ''unsupported method for network state'')
      else case sv_network_state sv of
        None \<Rightarrow> respond tx req (failure (req_id req) 503 ''network state reporter not configured'')
      | Some ns \<Rightarrow> do {
          built \<leftarrow> ns;
          case built of
            Inl e \<Rightarrow> respond tx req (failure (req_id req) 500 (''build network state report: '' @ e))
          | Inr r \<Rightarrow>
              (case enc_network_state r of
                 None \<Rightarrow> respond tx req
                   (failure (req_id req) 500 (''marshal network state report: '' @ jt_time tx))
               | Some body \<Rightarrow> respond tx req (success (req_id req) body)) })"

definition apply_error_response :: "string \<Rightarrow> apply_failure \<Rightarrow> proxy_response" where
  [svc_defs]: "apply_error_response i e =
     (case e of
        Apply_Failure ae \<Rightarrow> failure i (ae_code ae) (ae_message ae)
      | Other_Failure m \<Rightarrow> failure i 500 m)"

definition handle_network_apply :: "json_texts \<Rightarrow> 's server \<Rightarrow> proxy_request \<Rightarrow> ('s, bytes) act" where
  [svc_defs]: "handle_network_apply tx sv req =
     (if req_method req \<noteq> ''POST''
      then respond tx req (failure (req_id req) 400 ''unsupported method for network apply'')
      else case sv_network_applier sv of
        None \<Rightarrow> respond tx req (failure (req_id req) 503 ''network applier not configured'')
      | Some apply_to \<Rightarrow> do {
          done \<leftarrow> apply_to (req_body req);
          case done of
            Inl e \<Rightarrow> respond tx req (apply_error_response (req_id req) e)
          | Inr r \<Rightarrow> respond tx req (success (req_id req) (enc_apply_response r)) })"

definition is_agent_request :: "string \<Rightarrow> bool" where
  [svc_defs]: "is_agent_request p \<longleftrightarrow>
     p = ''/agent/v1/state'' \<or> p = ''/agent/v1/''
     \<or> (length ''/agent/v1/'' < length p \<and> take (length ''/agent/v1/'') p = ''/agent/v1/'')"

definition handle_agent_request :: "json_texts \<Rightarrow> 's server \<Rightarrow> proxy_request \<Rightarrow> ('s, bytes) act" where
  [svc_defs]: "handle_agent_request tx sv req =
     (if req_path req = ''/agent/v1/lifecycle/capabilities'' \<or> has_prefix (req_path req) ''/agent/v1/lifecycle/''
      then server_handle_lifecycle tx sv req
      else if req_path req = ''/agent/v1/state'' then handle_agent_state tx sv req
      else if req_path req = ''/agent/v1/network/state'' then handle_network_state tx sv req
      else if req_path req = ''/agent/v1/network/apply'' then handle_network_apply tx sv req
      else respond tx req (failure (req_id req) 404 ''unknown agent path''))"

definition handle_request :: "json_texts \<Rightarrow> 's server \<Rightarrow> proxy_request \<Rightarrow> ('s, bytes) act" where
  [svc_defs]: "handle_request tx sv req =
     (if is_agent_request (req_path req) then handle_agent_request tx sv req
      else do {
        resp \<leftarrow> incus_execute (sv_incus sv) req;
        ret (write_response tx (req_id req) resp) })"

subsection \<open>Messages\<close>

definition zero_request :: proxy_request where
  [svc_defs]: "zero_request = \<lparr>req_id = [], req_method = [], req_path = [], req_body = None\<rparr>"

definition request_fields :: "proxy_request field_table" where
  [svc_defs]: "request_fields =
     [(''id'', at_field req_id req_id_update dec_string),
      (''method'', at_field req_method req_method_update dec_string),
      (''path'', at_field req_path req_path_update dec_string),
      (''body'', at_field req_body req_body_update dec_raw)]"

text \<open>One round of \<^verbatim>\<open>readLoop\<close>: an immediate answer, or a request for a handler of its own.\<close>

datatype round = Answer bytes | Dispatch proxy_request

definition read_message :: "json_texts \<Rightarrow> bytes \<Rightarrow> round" where
  [svc_defs]: "read_message tx msg =
     (case unmarshal (dec_struct False request_fields) msg zero_request of
        (req, Some e) \<Rightarrow> Answer (send_protocol_error [] (''invalid request: '' @ jt_unmarshal tx msg e))
      | (req, None) \<Rightarrow>
          (case validate_proxy_request req of
             Some e \<Rightarrow> Answer (send_protocol_error (req_id req) e)
           | None \<Rightarrow> Dispatch req))"

definition serve_message :: "json_texts \<Rightarrow> 's server \<Rightarrow> bytes \<Rightarrow> ('s, bytes) act" where
  [svc_defs]: "serve_message tx sv msg =
     (case read_message tx msg of Answer f \<Rightarrow> ret f | Dispatch req \<Rightarrow> handle_request tx sv req)"

text \<open>The frame of a broadcast event; \<open>None\<close> when its data is not JSON.\<close>

definition enc_event :: "event \<Rightarrow> bytes option" where
  [svc_defs]: "enc_event ev = map_option (\<lambda>d. enc_object
     [(''type'', enc_string (event_type ev)), (''data'', d)]) (enc_raw (event_data ev))"


subsection \<open>What the server sends to Incus\<close>

text \<open>
  A request the gate let through to Incus: a read of the allowlist, from a message that is not for
  the agent itself.
\<close>

definition forwarded_read :: "proxy_request \<Rightarrow> bool" where
  "forwarded_read q \<longleftrightarrow> req_id q \<noteq> [] \<and> req_method q = ''GET'' \<and> is_allowed_incus_read_path (req_path q)
     \<and> \<not> agent_path (req_path q)"

definition permitted :: "proxy_request \<Rightarrow> bool" where
  "permitted q \<longleftrightarrow> forwarded_read q \<or> allowed_lifecycle_request q \<or> report_request q"

lemma is_agent_request_iff: "is_agent_request p \<longleftrightarrow> agent_path p"
proof
  assume "is_agent_request p"
  then show "agent_path p"
    unfolding is_agent_request_def agent_path_def has_prefix_def by auto
next
  assume "agent_path p"
  then obtain r where "p = ''/agent/v1/'' @ r" by (auto simp: agent_path_def has_prefix_iff)
  then show "is_agent_request p" by (cases r) (simp_all add: is_agent_request_def)
qed

lemma dispatch_valid:
  "read_message tx msg = Dispatch req \<Longrightarrow> validate_proxy_request req = None"
  by (auto simp: read_message_def split: prod.splits option.splits)

lemma dispatch_forwarded:
  "read_message tx msg = Dispatch req \<Longrightarrow> \<not> is_agent_request (req_path req) \<Longrightarrow> forwarded_read req"
  by (drule dispatch_valid) (simp add: validate_None forwarded_read_def is_agent_request_iff)

text \<open>
  The contract the services owe the server: the lifecycle service sends allowlisted lifecycle
  requests, at most four; the reporter sends its fixed reads, at most five; the network services
  send nothing.
\<close>

locale confined_services =
  fixes sv :: "'s server"
  assumes lifecycle_sends_allowed:
      "sv_lifecycle sv = Some lc \<Longrightarrow> sends allowed_lifecycle_request 4 (ls_handle lc m p b)"
    and reporter_sends_reads: "sv_reporter sv = Some r \<Longrightarrow> sends report_request 5 r"
    and network_state_sends_nothing: "sv_network_state sv = Some n \<Longrightarrow> sends (\<lambda>_. False) 0 n"
    and applier_sends_nothing: "sv_network_applier sv = Some a \<Longrightarrow> sends (\<lambda>_. False) 0 (a body)"
begin

lemma respond_sends [simp]: "sends P n (respond tx req r)"
  by (simp add: respond_def)

lemma lifecycle_handler: "sends permitted 5 (server_handle_lifecycle tx sv req)"
proof (cases "sv_lifecycle sv")
  case (Some lc)
  have "sends permitted 4 (ls_handle lc m p b)" for m p b
    by (rule sends_mono[OF lifecycle_sends_allowed[OF Some]]) (simp_all add: permitted_def)
  then show ?thesis
    unfolding server_handle_lifecycle_def
    by (auto simp: Some intro!: sends_bind[where k = 4 and l = 0] split: option.split)
qed (simp add: server_handle_lifecycle_def)

lemma state_handler: "sends permitted 5 (handle_agent_state tx sv req)"
proof (cases "sv_reporter sv")
  case (Some r)
  have "sends permitted 5 r"
    by (rule sends_mono[OF reporter_sends_reads[OF Some]]) (simp_all add: permitted_def)
  then show ?thesis
    unfolding handle_agent_state_def
    by (auto simp: Some intro!: sends_bind[where k = 5 and l = 0] split: sum.split option.split)
qed (simp add: handle_agent_state_def)

lemma network_state_handler: "sends permitted 5 (handle_network_state tx sv req)"
proof (cases "sv_network_state sv")
  case (Some n)
  have "sends permitted 0 n"
    by (rule sends_mono[OF network_state_sends_nothing[OF Some]]) simp_all
  then show ?thesis
    unfolding handle_network_state_def
    by (auto simp: Some intro!: sends_bind[where k = 0 and l = 0] split: sum.split option.split)
qed (simp add: handle_network_state_def)

lemma apply_handler: "sends permitted 5 (handle_network_apply tx sv req)"
proof (cases "sv_network_applier sv")
  case (Some a)
  have "sends permitted 0 (a b)" for b
    by (rule sends_mono[OF applier_sends_nothing[OF Some]]) simp_all
  then show ?thesis
    unfolding handle_network_apply_def
    by (auto simp: Some intro!: sends_bind[where k = 0 and l = 0] split: sum.split)
qed (simp add: handle_network_apply_def)

lemma agent_handler: "sends permitted 5 (handle_agent_request tx sv req)"
  unfolding handle_agent_request_def
  using lifecycle_handler state_handler network_state_handler apply_handler by simp

text \<open>Whatever a client writes, only permitted requests reach Incus, at most five per message.\<close>

lemma message_sends_permitted: "sends permitted 5 (serve_message tx sv msg)"
proof (cases "read_message tx msg")
  case (Dispatch req)
  show ?thesis
  proof (cases "is_agent_request (req_path req)")
    case True
    with Dispatch show ?thesis by (simp add: serve_message_def handle_request_def agent_handler)
  next
    case False
    then have "permitted req" using dispatch_forwarded[OF Dispatch] by (simp add: permitted_def)
    with Dispatch False show ?thesis
      by (auto simp: serve_message_def handle_request_def intro!: sends_bind[where k = 5 and l = 0])
  qed
qed (simp add: serve_message_def)

end

text \<open>
  A service may owe more: that a lifecycle request writes at most once, and what it asks for. Then
  everything else a message makes the server send is a read.
\<close>

definition is_read :: "proxy_request \<Rightarrow> bool" where
  "is_read q \<longleftrightarrow> req_method q = ''GET''"

lemma allowed_read_is_read: "allowed_read q \<Longrightarrow> is_read q"
  by (simp add: allowed_read_def is_read_def)

lemma report_request_is_read: "report_request q \<Longrightarrow> is_read q"
  by (auto simp: report_request_def is_read_def state_read_def profile_request_def plain_request_def)

locale accountable_services = confined_services +
  assumes lifecycle_writes_once:
    "sv_lifecycle sv = Some lc \<Longrightarrow> writes_once allowed_read (wanted_write m p b) (ls_handle lc m p b)"
begin

lemma lifecycle_handler_once:
  "writes_once is_read (wanted_write (req_method req) (req_path req) (req_body req)) (server_handle_lifecycle tx sv req)"
proof (cases "sv_lifecycle sv")
  case (Some lc)
  have "writes_once is_read (wanted_write m p b) (ls_handle lc m p b)" for m p b
    by (rule writes_once_mono[OF lifecycle_writes_once[OF Some]]) (simp_all add: allowed_read_is_read)
  then show ?thesis
    unfolding server_handle_lifecycle_def
    by (auto simp: Some respond_def intro!: writes_once_after[where n = 0] split: option.split)
qed (auto simp: server_handle_lifecycle_def respond_def)

lemma agent_handler_once:
  "writes_once is_read (wanted_write (req_method req) (req_path req) (req_body req)) (handle_agent_request tx sv req)"
proof -
  have "sends is_read 5 (handle_agent_state tx sv req)"
  proof (cases "sv_reporter sv")
    case (Some r)
    have "sends is_read 5 r"
      by (rule sends_mono[OF reporter_sends_reads[OF Some]]) (simp_all add: report_request_is_read)
    then show ?thesis
      unfolding handle_agent_state_def
      by (auto simp: Some intro!: sends_bind[where k = 5 and l = 0] split: sum.split option.split)
  qed (simp add: handle_agent_state_def)
  moreover have "sends is_read 0 (handle_network_state tx sv req)"
  proof (cases "sv_network_state sv")
    case (Some n)
    have "sends is_read 0 n" by (rule sends_mono[OF network_state_sends_nothing[OF Some]]) simp_all
    then show ?thesis
      unfolding handle_network_state_def
      by (auto simp: Some intro!: sends_bind[where k = 0 and l = 0] split: sum.split option.split)
  qed (simp add: handle_network_state_def)
  moreover have "sends is_read 0 (handle_network_apply tx sv req)"
  proof (cases "sv_network_applier sv")
    case (Some a)
    have "sends is_read 0 (a b)" for b by (rule sends_mono[OF applier_sends_nothing[OF Some]]) simp_all
    then show ?thesis
      unfolding handle_network_apply_def
      by (auto simp: Some intro!: sends_bind[where k = 0 and l = 0] split: sum.split)
  qed (simp add: handle_network_apply_def)
  ultimately show ?thesis
    unfolding handle_agent_request_def respond_def
    by (intro writes_once_if lifecycle_handler_once writes_once_ret) (rule writes_once_reads, assumption)+
qed

text \<open>A message makes the server write at most once, and only what its lifecycle request asks for.\<close>

lemma request_writes_once:
  assumes "read_message tx msg = Dispatch req"
  shows "writes_once is_read (wanted_write (req_method req) (req_path req) (req_body req)) (handle_request tx sv req)"
proof (cases "is_agent_request (req_path req)")
  case True
  then show ?thesis by (simp add: handle_request_def agent_handler_once)
next
  case False
  then have "is_read req" using dispatch_forwarded[OF assms] by (simp add: forwarded_read_def is_read_def)
  then have "sends is_read 1 (do { resp \<leftarrow> incus_execute (sv_incus sv) req; ret (write_response tx (req_id req) resp) })"
    by (intro sends_bind[where k = 1 and l = 0]) auto
  with False show ?thesis by (auto simp: handle_request_def)
qed

end

subsection \<open>What an answer says\<close>

definition readable :: "raw_message \<Rightarrow> bool" where
  "readable m \<longleftrightarrow> (case m of None \<Rightarrow> True | Some b \<Rightarrow> read_document b \<noteq> None)"

definition shallow :: "raw_message \<Rightarrow> bool" where
  "shallow m \<longleftrightarrow> (case m of None \<Rightarrow> True
     | Some b \<Rightarrow> (case read_document b of None \<Rightarrow> True | Some v \<Rightarrow> json_depth v < max_depth))"

definition body_value :: "raw_message \<Rightarrow> json" where
  "body_value m = (case m of None \<Rightarrow> JNull
     | Some b \<Rightarrow> (case read_document b of None \<Rightarrow> JNull | Some v \<Rightarrow> plain v))"

definition json_answer :: "string \<Rightarrow> int \<Rightarrow> json \<Rightarrow> string \<Rightarrow> json" where
  "json_answer i status body message = jobj
     ([(''id'', JStr (to_valid i)), (''status'', JNum (itoa status)), (''body'', body)]
      @ (if message = [] then [] else [(''error'', JStr (to_valid message))]))"

text \<open>The specification of an answer: what was answered, or the error of an unreadable body.\<close>

definition answer_value :: "json_texts \<Rightarrow> string \<Rightarrow> proxy_response option \<Rightarrow> json" where
  "answer_value tx i resp =
     (case resp of
        None \<Rightarrow> json_answer i 500 JNull ''empty response''
      | Some r \<Rightarrow>
          if readable (resp_body r)
          then json_answer (resp_id r) (resp_status r) (body_value (resp_body r)) (resp_error r)
          else json_answer i 500 JNull (''marshal response: '' @ jt_raw tx (raw_bytes (resp_body r))))"

lemma frame_keys [simp]:
  "to_valid ''id'' = ''id''" "to_valid ''status'' = ''status''" "to_valid ''body'' = ''body''"
  "to_valid ''error'' = ''error''"
  by code_simp+

lemma enc_proxy_response_None: "enc_proxy_response r = None \<longleftrightarrow> \<not> readable (resp_body r)"
  by (auto simp: enc_proxy_response_def enc_raw_def readable_def split: option.splits)

lemma enc_raw_says:
  assumes "enc_raw m = Some d" and "shallow m"
  shows "\<exists>h. says d (body_value m) h \<and> Suc h \<le> max_depth"
proof (cases m)
  case None
  with assms(1) have "d = ''null''" by (simp add: enc_raw_def del: list.inject)
  then show ?thesis using says_null None by (auto simp: body_value_def max_depth_def intro!: exI[of _ 0])
next
  case (Some b)
  with assms(1) obtain v where v: "read_document b = Some v" "d = compact False b"
    by (auto simp: enc_raw_def split: option.splits)
  then show ?thesis using raw_says[OF v(1)] assms(2)
    by (intro exI[of _ "json_depth v"]) (simp add: body_value_def shallow_def Some)
qed

lemma frame_says:
  assumes "enc_proxy_response r = Some data" and "shallow (resp_body r)"
  shows "map_option plain (read_document data)
    = Some (json_answer (resp_id r) (resp_status r) (body_value (resp_body r)) (resp_error r))"
proof -
  obtain body where b: "enc_raw (resp_body r) = Some body"
    and d: "data = enc_object ([(''id'', enc_string (resp_id r)), (''status'', itoa (resp_status r)), (''body'', body)]
      @ omit_empty ''error'' (resp_error r))"
    using assms(1) by (auto simp: enc_proxy_response_def)
  obtain h where h: "says body (body_value (resp_body r)) h" "Suc h \<le> max_depth"
    using enc_raw_says[OF b assms(2)] by blast
  have "says data (json_answer (resp_id r) (resp_status r) (body_value (resp_body r)) (resp_error r)) (Suc h)"
    unfolding d json_answer_def
    by (rule says_object) (simp add: says_string says_int h(1) omit_empty_def)
  then show ?thesis using h(2) by (rule says_document)
qed

lemma failure_frame:
  "map_option plain (read_document (frame_or_empty (failure i status message)))
   = Some (json_answer i status JNull message)"
proof -
  have "readable (resp_body (failure i status message))" by (simp add: failure_def readable_def)
  then obtain d where d: "enc_proxy_response (failure i status message) = Some d"
    using enc_proxy_response_None by blast
  have "shallow (resp_body (failure i status message))" by (simp add: failure_def shallow_def)
  from frame_says[OF d this] d show ?thesis by (simp add: frame_or_empty_def failure_def body_value_def)
qed

lemma write_response_value:
  assumes "\<And>r. resp = Some r \<Longrightarrow> shallow (resp_body r)"
  shows "map_option plain (read_document (write_response tx i resp)) = Some (answer_value tx i resp)"
proof -
  define r where "r = (case resp of None \<Rightarrow> failure i 500 ''empty response'' | Some r \<Rightarrow> r)"
  have sh: "shallow (resp_body r)" using assms by (auto simp: r_def failure_def shallow_def split: option.split)
  show ?thesis
  proof (cases "enc_proxy_response r")
    case None
    then have "\<not> readable (resp_body r)" by (simp add: enc_proxy_response_None)
    moreover from this obtain q where "resp = Some q" by (cases resp) (auto simp: r_def failure_def readable_def)
    ultimately show ?thesis
      using None by (simp add: write_response_def answer_value_def r_def send_error_def failure_frame)
  next
    case (Some d)
    then have "readable (resp_body r)" using enc_proxy_response_None[of r] by auto
    with frame_says[OF Some sh] Some show ?thesis
      by (cases resp) (simp_all add: write_response_def answer_value_def r_def failure_def body_value_def)
  qed
qed

text \<open>
  C21. A read is proxied transparently. A message with a request for Incus that passes the gate is
  one exchange: the request goes to Incus as it came, and the frame that answers it says exactly
  what Incus answered: the id, the status, the value of the body (white space and character escapes
  apart) and the error; or, when the body is no JSON document, that it could not be marshalled.
\<close>

theorem proxied_read:
  assumes "read_message tx msg = Dispatch req" and "\<not> agent_path (req_path req)"
    and "env_execute (sv_incus sv) (outside w) req = (resp, s')"
    and "\<And>r. resp = Some r \<Longrightarrow> shallow (resp_body r)"
  shows "snd (run_state (serve_message tx sv msg) w) = \<lparr>exchanges = exchanges w @ [(req, resp)], outside = s'\<rparr>
    \<and> map_option plain (read_document (fst (run_state (serve_message tx sv msg) w)))
        = Some (answer_value tx (req_id req) resp)"
proof -
  have "run_state (serve_message tx sv msg) w
      = (write_response tx (req_id req) resp, \<lparr>exchanges = exchanges w @ [(req, resp)], outside = s'\<rparr>)"
    using assms(1-3)
    by (simp add: serve_message_def handle_request_def is_agent_request_iff run_state_bind incus_execute_def)
  with write_response_value[OF assms(4)] show ?thesis by simp
qed

definition sample_texts :: json_texts where
  "sample_texts = \<lparr>jt_unmarshal = (\<lambda>_ _. ''unexpected end of JSON input''),
     jt_raw = (\<lambda>_. ''unexpected end of JSON input''), jt_time = ''year outside of range [0,9999]''\<rparr>"

definition sample_server :: "proxy_response list server" where
  "sample_server = new_server_with_reporter ''secret'' scripted (Some (build_report ''linux'' ''amd64'' sample_reporter))"

definition sample_read :: bytes where
  "sample_read = ''{\"id\":\"7\",\"method\":\"GET\",\"path\":\"/1.0/instances\"}''"

lemma proxied_read_witness:
  "map_option plain (read_document (fst (run_state (serve_message sample_texts sample_server sample_read)
      (script [answer_with 200 ''{ \"metadata\" : [\"a<b\"] }'']))))
   = Some (json_answer [] 200 (jobj [(''metadata'', jarr [JStr ''a<b''])]) [])"
proof -
  let ?q = "\<lparr>req_id = ''7'', req_method = ''GET'', req_path = ''/1.0/instances'', req_body = None\<rparr>"
  let ?a = "answer_with 200 ''{ \"metadata\" : [\"a<b\"] }''"
  have d: "read_message sample_texts sample_read = Dispatch ?q" by code_simp
  have n: "\<not> agent_path (req_path ?q)" by code_simp
  have e: "env_execute (sv_incus sample_server) (outside (script [?a])) ?q = (Some ?a, [])"
    by (simp add: sample_server_def new_server_with_reporter_def scripted_def script_def)
  have sh: "shallow (resp_body ?a)" by code_simp
  have "answer_value sample_texts ''7'' (Some ?a) = json_answer [] 200 (jobj [(''metadata'', jarr [JStr ''a<b''])]) []"
    by code_simp
  with proxied_read[OF d n e] sh show ?thesis by simp
qed

subsection \<open>Refusals and agent answers\<close>

definition refusal_reasons :: "string list" where
  "refusal_reasons = [''missing id'', ''missing method'', ''unsupported method'', ''missing path'',
     ''path outside incus api'', ''incus write method not allowed'', ''incus read path not allowed'']"

lemma validate_reasons: "validate_proxy_request req = Some e \<Longrightarrow> e \<in> set refusal_reasons"
  by (auto simp: validate_proxy_request_def refusal_reasons_def split: if_splits)

text \<open>
  C24. A message that is no request, or whose request does not pass the gate, reaches nothing: the
  world is as before, and the frame that answers it is a 400 with one of seven reasons or the text
  of the decoding error.
\<close>

theorem refused_message:
  assumes "read_message tx msg = Answer f"
  shows "run_state (serve_message tx sv msg) w = (f, w)
    \<and> (\<exists>i reason. map_option plain (read_document f) = Some (json_answer i 400 JNull reason)
        \<and> (reason \<in> set refusal_reasons \<or> has_prefix reason ''invalid request: ''))"
proof -
  obtain i reason where "f = send_protocol_error i reason"
    "reason \<in> set refusal_reasons \<or> has_prefix reason ''invalid request: ''"
    using assms validate_reasons
    by (auto simp: read_message_def has_prefix_iff split: prod.splits option.splits)
  then show ?thesis
    using assms failure_frame[of i 400 reason] by (auto simp: serve_message_def send_protocol_error_def)
qed

lemma refused_message_witness:
  "snd (run_state (serve_message sample_texts sample_server ''{\"id\":\"7\",\"method\":\"PUT\",\"path\":\"/1.0/instances/a/state\"}'')
      (script [])) = script []"
proof -
  obtain f where f: "read_message sample_texts ''{\"id\":\"7\",\"method\":\"PUT\",\"path\":\"/1.0/instances/a/state\"}'' = Answer f"
  proof -
    have "case read_message sample_texts ''{\"id\":\"7\",\"method\":\"PUT\",\"path\":\"/1.0/instances/a/state\"}'' of
        Answer f \<Rightarrow> True | Dispatch r \<Rightarrow> False"
      by code_simp
    then show thesis using that by (auto split: round.splits)
  qed
  from refused_message[OF f, of sample_server "script []"] show ?thesis by simp
qed

lemma success_value:
  assumes "says data v h" and "h < max_depth"
  shows "map_option plain (read_document (write_response tx i (Some (success i data)))) = Some (json_answer i 200 v [])"
proof -
  obtain v' where v: "read_document data = Some v'" "plain v' = v" "json_depth v' \<le> h"
    using says_depth[OF assms(1)] assms(2) by auto
  have "shallow (resp_body (success i data))" using v assms(2) by (simp add: success_def shallow_def)
  then show ?thesis
    using write_response_value[of "Some (success i data)" tx i] v
    by (simp add: answer_value_def success_def readable_def body_value_def)
qed

text \<open>
  C25. A state request is answered with the report: when the reporter builds a report that can be
  written, the frame is the request's id, status 200 and as body exactly the fields of the report,
  and what was sent to Incus is what the reporter sent.
\<close>

theorem state_answered:
  assumes "read_message tx msg = Dispatch req" and "req_path req = ''/agent/v1/state''" and "req_method req = ''GET''"
    and "sv_reporter sv = Some reporter" and "run_state reporter w = (Inr rep, w')" and "enc_report rep \<noteq> None"
  shows "\<exists>frame. run_state (serve_message tx sv msg) w = (frame, w')
    \<and> map_option plain (read_document frame) = Some (json_answer (req_id req) 200 (json_report rep) [])"
proof -
  obtain data where d: "enc_report rep = Some data" using assms(6) by blast
  have "run_state (serve_message tx sv msg) w = (write_response tx (req_id req) (Some (success (req_id req) data)), w')"
    using assms(1-5) d
    by (simp add: serve_message_def handle_request_def is_agent_request_def handle_agent_request_def has_prefix_def
        handle_agent_state_def respond_def run_state_bind)
  with success_value[OF says_report[OF d]] show ?thesis by (simp add: max_depth_def)
qed

lemma state_answered_witness:
  "\<exists>frame w'. run_state (serve_message sample_texts sample_server ''{\"id\":\"7\",\"method\":\"GET\",\"path\":\"/agent/v1/state\"}'')
      (script [answer_with 500 []]) = (frame, w')
    \<and> map_option (\<lambda>v. v \<noteq> JNull) (map_option plain (read_document frame)) = Some True"
proof -
  let ?q = "\<lparr>req_id = ''7'', req_method = ''GET'', req_path = ''/agent/v1/state'', req_body = None\<rparr>"
  let ?msg = "''{\"id\":\"7\",\"method\":\"GET\",\"path\":\"/agent/v1/state\"}''"
  have d: "read_message sample_texts ?msg = Dispatch ?q" by code_simp
  define rep where "rep = (report_base ''linux'' ''amd64'' sample_reporter ''host-1'' zero_time False False)
    \<lparr>rep_incus := \<lparr>ri_available = False, ri_status_code = 500, ri_server_version = [], ri_api_version = []\<rparr>\<rparr>"
  obtain w' where r: "run_state (build_report ''linux'' ''amd64'' sample_reporter) (script [answer_with 500 []]) = (Inr rep, w')"
    by (simp add: rep_def build_report_def sample_reporter_def run_state_bind ask_detector_def probe_incus_def
        incus_execute_def script_def scripted_def answer_with_def summarize_incus_root_def is_success_def Let_def
        report_base_def)
  have "format_time zero_time \<noteq> None" by code_simp
  then have "enc_report rep \<noteq> None"
    by (auto simp: rep_def report_base_def sample_reporter_def enc_report_def enc_agent_summary_def)
  from state_answered[OF d _ _ _ r this, of sample_server]
  show ?thesis
    by (auto simp: sample_server_def new_server_with_reporter_def json_answer_def jobj_def)
qed

end
