(* ===== verification/Config.thy ===== *)
theory Config
  imports Go_Strings
begin

text \<open>
  Package \<^verbatim>\<open>config\<close>: the configuration read from the environment and the address the
  server listens on. The environment is a function from names to values, empty where unset,
  as \<^verbatim>\<open>os.Getenv\<close> reports it.
\<close>

record config =
  cfg_port :: int
  cfg_host :: string
  cfg_incus_socket :: string
  cfg_state_dir :: string
  cfg_auth_token :: string
  cfg_managed_prefix :: string

datatype config_error = Invalid_Port string

definition default_managed_interface_prefix :: string where
  [svc_defs]: "default_managed_interface_prefix = ''anvilwg''"

definition default_config :: config where
  [svc_defs]: "default_config =
     \<lparr>cfg_port = 9090, cfg_host = ''127.0.0.1'', cfg_incus_socket = ''/var/lib/incus/unix.socket'',
      cfg_state_dir = ''/var/lib/anvil-agent'', cfg_auth_token = [],
      cfg_managed_prefix = default_managed_interface_prefix\<rparr>"

text \<open>\<^verbatim>\<open>if v := os.Getenv(name); v != "" { ... }\<close>\<close>

definition override :: "(string \<Rightarrow> string) \<Rightarrow> string \<Rightarrow> string \<Rightarrow> string" where
  [svc_defs]: "override getenv name old = (if getenv name \<noteq> [] then getenv name else old)"

definition load_config :: "(string \<Rightarrow> string) \<Rightarrow> config_error + config" where
  [svc_defs]: "load_config getenv =
     (let v = getenv ''ANVIL_AGENT_PORT'';
          port = (if v \<noteq> [] then parse_int64 v else Some (cfg_port default_config))
      in case port of
           None \<Rightarrow> Inl (Invalid_Port v)
         | Some p \<Rightarrow> Inr
             \<lparr>cfg_port = p,
              cfg_host = override getenv ''ANVIL_AGENT_HOST'' (cfg_host default_config),
              cfg_incus_socket = override getenv ''INCUS_SOCKET'' (cfg_incus_socket default_config),
              cfg_state_dir = override getenv ''ANVIL_AGENT_STATE_DIR'' (cfg_state_dir default_config),
              cfg_auth_token = override getenv ''ANVIL_AGENT_AUTH_TOKEN'' (cfg_auth_token default_config),
              cfg_managed_prefix = override getenv ''ANVIL_AGENT_MANAGED_INTERFACE_PREFIX''
                (cfg_managed_prefix default_config)\<rparr>)"

definition listen_addr :: "config \<Rightarrow> string" where
  [svc_defs]: "listen_addr c = cfg_host c @ '':'' @ itoa (cfg_port c)"

lemma load_config_fails_iff:
  "(\<exists>e. load_config getenv = Inl e) \<longleftrightarrow>
     getenv ''ANVIL_AGENT_PORT'' \<noteq> [] \<and> parse_int64 (getenv ''ANVIL_AGENT_PORT'') = None"
  by (auto simp: load_config_def Let_def split: option.split)

text \<open>Every setting but the token has a non-empty value once loading succeeds.\<close>

lemma override_nonempty [simp]: "old \<noteq> [] \<Longrightarrow> override getenv name old \<noteq> []"
  by (simp add: override_def)

lemma load_config_InrD:
  assumes "load_config getenv = Inr c"
  shows "cfg_host c = override getenv ''ANVIL_AGENT_HOST'' (cfg_host default_config)"
    and "cfg_incus_socket c = override getenv ''INCUS_SOCKET'' (cfg_incus_socket default_config)"
    and "cfg_state_dir c = override getenv ''ANVIL_AGENT_STATE_DIR'' (cfg_state_dir default_config)"
    and "cfg_managed_prefix c = override getenv ''ANVIL_AGENT_MANAGED_INTERFACE_PREFIX''
           (cfg_managed_prefix default_config)"
    and "cfg_auth_token c = getenv ''ANVIL_AGENT_AUTH_TOKEN''"
    and "if getenv ''ANVIL_AGENT_PORT'' = [] then cfg_port c = 9090
         else parse_int64 (getenv ''ANVIL_AGENT_PORT'') = Some (cfg_port c)"
proof -
  obtain p where "(if getenv ''ANVIL_AGENT_PORT'' \<noteq> [] then parse_int64 (getenv ''ANVIL_AGENT_PORT'')
      else Some (cfg_port default_config)) = Some p"
    and c: "c = \<lparr>cfg_port = p,
              cfg_host = override getenv ''ANVIL_AGENT_HOST'' (cfg_host default_config),
              cfg_incus_socket = override getenv ''INCUS_SOCKET'' (cfg_incus_socket default_config),
              cfg_state_dir = override getenv ''ANVIL_AGENT_STATE_DIR'' (cfg_state_dir default_config),
              cfg_auth_token = override getenv ''ANVIL_AGENT_AUTH_TOKEN'' (cfg_auth_token default_config),
              cfg_managed_prefix = override getenv ''ANVIL_AGENT_MANAGED_INTERFACE_PREFIX''
                (cfg_managed_prefix default_config)\<rparr>"
    using assms unfolding load_config_def Let_def by (auto split: option.splits)
  then show "if getenv ''ANVIL_AGENT_PORT'' = [] then cfg_port c = 9090
         else parse_int64 (getenv ''ANVIL_AGENT_PORT'') = Some (cfg_port c)"
    by (simp add: default_config_def split: if_splits)
  show "cfg_auth_token c = getenv ''ANVIL_AGENT_AUTH_TOKEN''"
    by (simp add: c override_def default_config_def)
qed (use assms in \<open>auto simp: load_config_def Let_def split: option.splits\<close>)

lemma load_config_nonempty:
  assumes "load_config getenv = Inr c"
  shows "cfg_host c \<noteq> [] \<and> cfg_incus_socket c \<noteq> [] \<and> cfg_state_dir c \<noteq> []
    \<and> cfg_managed_prefix c \<noteq> []"
  unfolding load_config_InrD(1-4)[OF assms]
  by (simp add: default_config_def default_managed_interface_prefix_def)

subsection \<open>Which configurations there are\<close>

text \<open>The environment that sets everything.\<close>

definition settings :: "config \<Rightarrow> string \<Rightarrow> string" where
  "settings c name =
     (if name = ''ANVIL_AGENT_PORT'' then itoa (cfg_port c)
      else if name = ''ANVIL_AGENT_HOST'' then cfg_host c
      else if name = ''INCUS_SOCKET'' then cfg_incus_socket c
      else if name = ''ANVIL_AGENT_STATE_DIR'' then cfg_state_dir c
      else if name = ''ANVIL_AGENT_AUTH_TOKEN'' then cfg_auth_token c
      else if name = ''ANVIL_AGENT_MANAGED_INTERFACE_PREFIX'' then cfg_managed_prefix c
      else [])"

definition loadable :: "config \<Rightarrow> bool" where
  "loadable c \<longleftrightarrow> cfg_port c \<in> {-(2 ^ 63)..<2 ^ 63} \<and> cfg_host c \<noteq> [] \<and> cfg_incus_socket c \<noteq> []
     \<and> cfg_state_dir c \<noteq> [] \<and> cfg_managed_prefix c \<noteq> []"

lemma load_config_loadable:
  assumes "load_config getenv = Inr c"
  shows "loadable c"
proof -
  have "cfg_port c = 9090 \<or> (\<exists>v. parse_int64 v = Some (cfg_port c))"
    using load_config_InrD(6)[OF assms] by (metis)
  then have "cfg_port c \<in> {-(2 ^ 63)..<2 ^ 63}" using parse_int64_range by fastforce
  with load_config_nonempty[OF assms] show ?thesis by (simp add: loadable_def)
qed

lemma load_settings:
  assumes "loadable c"
  shows "load_config (settings c) = Inr c"
proof -
  have p: "parse_int64 (itoa (cfg_port c)) = Some (cfg_port c)"
    using assms by (intro parse_int64_itoa) (simp_all add: loadable_def)
  moreover have "parse_int64 [] = None" by code_simp
  ultimately have "itoa (cfg_port c) \<noteq> []" by (metis option.distinct(1))
  with p show ?thesis
    using assms by (simp add: load_config_def settings_def override_def loadable_def default_config_def)
qed

text \<open>
  C39. The environment can say every configuration that can be loaded at all, and its own variable is
  what says each setting: exactly those load that have a port of 64 bits (in particular, ports no
  listener can have are accepted) and no empty setting but the token.
\<close>

theorem config_settings:
  "(load_config (settings c) = Inr c \<longleftrightarrow> loadable c) \<and> ((\<exists>getenv. load_config getenv = Inr c) \<longleftrightarrow> loadable c)"
  using load_settings load_config_loadable by metis

end
