(* ===== verification/Main_Wiring.thy ===== *)
theory Main_Wiring
  imports Proxy_Server Lifecycle_Readiness Config
begin

text \<open>
  Command \<^verbatim>\<open>anvil-agent\<close>: how \<^verbatim>\<open>main\<close> wires the packages into a server. The machine the
  program runs on (environment variables, the Unix socket, the disk, the commands and files the
  detector probes, clock and host name) is a record of functions on one state, so the services
  share it. The interpretation discharges the contracts of the server's services for the
  wired ones.
\<close>

subsection \<open>The machine\<close>

record 's machine =
  mc_getenv :: "string \<Rightarrow> string"
  mc_bad_request :: "string \<Rightarrow> string \<Rightarrow> string"
  mc_buffers :: "nat \<Rightarrow> nat"
  mc_socket :: "string \<Rightarrow> 's transport"
  mc_ctx_err :: "('s, string option) state"
  mc_identity_host :: "'s identity_host"
  mc_lenient_time :: "string \<Rightarrow> instant option"
  mc_os :: "'s host_os"
  mc_upper :: "string \<Rightarrow> string"
  mc_stat :: "string \<Rightarrow> stat_result"
  mc_hostname :: "('s, string + string) state"
  mc_now :: "('s, instant) state"
  mc_goos :: string
  mc_goarch :: string

text \<open>The probe that \<^verbatim>\<open>NewDetector\<close> falls back to.\<close>

abbreviation mc_probe :: "'s machine \<Rightarrow> 's host_probe" where
  "mc_probe mc \<equiv> host_probe_of (mc_os mc)"

text \<open>An action of the machine sends nothing to Incus.\<close>

definition on_host :: "('s, 'a) state \<Rightarrow> ('s, 'a) act" where
  [svc_defs]: "on_host m = State (\<lambda>w. let (a, s') = run_state m (outside w) in (a, w\<lparr>outside := s'\<rparr>))"

lemma sends_on_host [simp, intro]: "sends P n (on_host m)"
  by (auto simp: sends_def on_host_def split: prod.split)

lemma run_on_host_iff:
  "run_state (on_host m) w = (a, w') \<longleftrightarrow>
     (\<exists>s'. run_state m (outside w) = (a, s') \<and> w' = w\<lparr>outside := s'\<rparr>)"
  by (auto simp: on_host_def split: prod.split)

subsection \<open>The parts\<close>

definition new_unix_client :: "'s machine \<Rightarrow> string \<Rightarrow> 's env" where
  [svc_defs]: "new_unix_client mc socket =
     client_env (mc_bad_request mc) (mc_buffers mc) (mc_socket mc socket)
       (\<lambda>s. let (err, s') = run_state (mc_ctx_err mc) s in (err \<noteq> None, s'))"

text \<open>\<^verbatim>\<open>WireGuardAvailable\<close> and \<^verbatim>\<open>VMLifecycleAvailable\<close> as the reporter calls them.\<close>

definition wire_guard_detector :: "'s machine \<Rightarrow> 's detector \<Rightarrow> ('s, bool option) act" where
  [svc_defs]: "wire_guard_detector mc d = do {
     r \<leftarrow> on_host (wire_guard_available (mc_ctx_err mc) d);
     ret (case r of Inl e \<Rightarrow> None | Inr b \<Rightarrow> Some b) }"

definition vm_detector :: "'s machine \<Rightarrow> 's readiness_detector \<Rightarrow> ('s, bool option) act" where
  [svc_defs]: "vm_detector mc d = do {
     r \<leftarrow> vm_lifecycle_available (mc_stat mc) (Some d);
     ret (case r of (b, None) \<Rightarrow> Some b | (b, Some e) \<Rightarrow> None) }"

definition network_applier :: "'s machine \<Rightarrow> string \<Rightarrow> raw_message \<Rightarrow> ('s, apply_failure + apply_response) act" where
  [svc_defs]: "network_applier mc prefix raw = do {
     err \<leftarrow> on_host (mc_ctx_err mc);
     ret (case apply_network (applier_prefix prefix) (err \<noteq> None) raw of
            Inl e \<Rightarrow> Inl (Apply_Failure e)
          | Inr r \<Rightarrow> Inr r) }"

definition lifecycle_of :: "'s env \<Rightarrow> 's lifecycle_service" where
  [svc_defs]: "lifecycle_of env = \<lparr>ls_handle = handle_lifecycle env, ls_capabilities = capabilities\<rparr>"

definition reporter_options_of ::
  "agent_identity \<Rightarrow> 's env \<Rightarrow> ('s, bool option) act \<Rightarrow> ('s, bool option) act option \<Rightarrow> 's reporter_options" where
  [svc_defs]: "reporter_options_of identity client wire_guard vm_life =
     \<lparr>ro_identity = identity, ro_version = default_version, ro_started_at = zero_time, ro_hostname = None,
      ro_now = None, ro_incus = Some client, ro_wire_guard = Some wire_guard, ro_vm_life = vm_life\<rparr>"

subsection \<open>The program\<close>

text \<open>What \<^verbatim>\<open>main\<close> dies of before it serves, or the configuration and the server it starts.\<close>

datatype main_error = Config_Failed config_error | Identity_Failed identity_error

definition agent_main :: "'s machine \<Rightarrow> ('s, main_error + config \<times> 's server) act" where
  [svc_defs]: "agent_main mc =
     (case load_config (mc_getenv mc) of
        Inl e \<Rightarrow> ret (Inl (Config_Failed e))
      | Inr cfg \<Rightarrow>
          (let incus_client = new_unix_client mc (cfg_incus_socket cfg)
           in do {
             loaded \<leftarrow> on_host (load_identity (mc_lenient_time mc) (mc_identity_host mc) (cfg_state_dir cfg));
             case loaded of
               Inl e \<Rightarrow> ret (Inl (Identity_Failed e))
             | Inr identity \<Rightarrow>
                 (let detector = new_detector (mc_probe mc) (cfg_managed_prefix cfg) None;
                      wire_guard = wire_guard_detector mc detector
                  in do {
                    _ \<leftarrow> new_reporter (on_host (mc_hostname mc)) (on_host (mc_now mc))
                      (reporter_options_of identity incus_client wire_guard None);
                    (let network_state = new_state_reporter detector
                           \<lparr>na_id = id_id identity, na_schema_version = id_schema_version identity\<rparr>;
                         lifecycle_svc = lifecycle_of incus_client;
                         vm_life = vm_detector mc (new_readiness_detector (mc_stat mc) (Some incus_client))
                     in do {
                       reporter \<leftarrow> new_reporter (on_host (mc_hostname mc)) (on_host (mc_now mc))
                         (reporter_options_of identity incus_client wire_guard (Some vm_life));
                       ret (Inr (cfg, new_server_with_lifecycle (cfg_auth_token cfg) incus_client
                         (Some (build_report (mc_goos mc) (mc_goarch mc) reporter))
                         (Some (on_host (reporter_network_state (mc_upper mc) (mc_ctx_err mc) network_state)))
                         (Some (network_applier mc (cfg_managed_prefix cfg)))
                         (Some lifecycle_svc))) }) }) }))"

text \<open>The server a run of \<^verbatim>\<open>main\<close> ends with, as a function of what it read.\<close>

definition wired_reporter :: "'s machine \<Rightarrow> config \<Rightarrow> agent_identity \<Rightarrow> instant \<Rightarrow> 's reporter" where
  "wired_reporter mc cfg identity started =
     (let client = new_unix_client mc (cfg_incus_socket cfg)
      in \<lparr>rr_identity = identity, rr_version = default_version, rr_started_at = started,
          rr_hostname = on_host (mc_hostname mc), rr_now = on_host (mc_now mc), rr_incus = Some client,
          rr_wire_guard = Some (wire_guard_detector mc (new_detector (mc_probe mc) (cfg_managed_prefix cfg) None)),
          rr_vm_life = Some (vm_detector mc (new_readiness_detector (mc_stat mc) (Some client)))\<rparr>)"

definition wired_server :: "'s machine \<Rightarrow> config \<Rightarrow> agent_identity \<Rightarrow> instant \<Rightarrow> 's server" where
  "wired_server mc cfg identity started =
     \<lparr>sv_auth_token = cfg_auth_token cfg, sv_incus = new_unix_client mc (cfg_incus_socket cfg),
      sv_reporter = Some (build_report (mc_goos mc) (mc_goarch mc) (wired_reporter mc cfg identity started)),
      sv_network_state = Some (on_host (detector_network_state (mc_upper mc) (mc_ctx_err mc)
        (new_detector (mc_probe mc) (cfg_managed_prefix cfg) None)
        \<lparr>na_id = id_id identity, na_schema_version = id_schema_version identity\<rparr>)),
      sv_network_applier = Some (network_applier mc (cfg_managed_prefix cfg)),
      sv_lifecycle = Some (lifecycle_of (new_unix_client mc (cfg_incus_socket cfg)))\<rparr>"

lemma run_new_reporter:
  "run_state (new_reporter h (on_host now) (reporter_options_of identity client wg vm)) w = (r, w') \<longleftrightarrow>
     (\<exists>t s'. run_state now (outside w) = (t, s') \<and> w' = w\<lparr>outside := s'\<rparr>
        \<and> r = \<lparr>rr_identity = identity, rr_version = default_version, rr_started_at = t, rr_hostname = h,
               rr_now = on_host now, rr_incus = Some client, rr_wire_guard = Some wg, rr_vm_life = vm\<rparr>)"
  by (auto simp: new_reporter_def reporter_options_of_def Let_def run_bind_iff run_on_host_iff)

lemma agent_main_wires:
  assumes "run_state (agent_main mc) w = (Inr (cfg, sv), w')"
  obtains identity started s1 where "load_config (mc_getenv mc) = Inr cfg"
    "run_state (load_identity (mc_lenient_time mc) (mc_identity_host mc) (cfg_state_dir cfg)) (outside w)
       = (Inr identity, s1)"
    "sv = wired_server mc cfg identity started" "exchanges w' = exchanges w"
proof -
  obtain c where c: "load_config (mc_getenv mc) = Inr c"
    using assms by (cases "load_config (mc_getenv mc)") (auto simp: agent_main_def)
  obtain loaded s1 where l: "run_state (load_identity (mc_lenient_time mc) (mc_identity_host mc) (cfg_state_dir c))
      (outside w) = (loaded, s1)" by fastforce
  obtain identity where i: "loaded = Inr identity"
    using assms c l by (cases loaded) (auto simp: agent_main_def Let_def run_bind_iff run_on_host_iff)
  obtain t1 s2 where t1: "run_state (mc_now mc) s1 = (t1, s2)" by fastforce
  obtain t2 s3 where t2: "run_state (mc_now mc) s2 = (t2, s3)" by fastforce
  have "cfg = c \<and> sv = wired_server mc c identity t2 \<and> w' = w\<lparr>outside := s3\<rparr>"
    using assms c l i t1 t2
    by (auto simp: agent_main_def Let_def run_bind_iff run_on_host_iff run_new_reporter wired_server_def wired_reporter_def
        new_server_with_lifecycle_def reporter_network_state_def new_state_reporter_def)
  with c l i that[of identity s1 t2] show thesis by simp
qed

interpretation wired: accountable_services "wired_server mc cfg identity started"
  for mc cfg identity started
proof
  fix lc m p b
  assume "sv_lifecycle (wired_server mc cfg identity started) = Some lc"
  then have "ls_handle lc = handle_lifecycle (new_unix_client mc (cfg_incus_socket cfg))"
    by (auto simp: wired_server_def lifecycle_of_def)
  then show "sends allowed_lifecycle_request 4 (ls_handle lc m p b)"
    by (auto intro!: sends_mono[OF sends_handle_lifecycle]
        simp: allowed_lifecycle_request_def lifecycle_budget_def split: option.split action.split)
next
  fix r
  assume "sv_reporter (wired_server mc cfg identity started) = Some r"
  then have r: "r = build_report (mc_goos mc) (mc_goarch mc) (wired_reporter mc cfg identity started)"
    by (simp add: wired_server_def)
  have "sends report_request 1 (vm_lifecycle_available stat d)" for stat and d :: "'a readiness_detector option"
    by (rule sends_mono[OF sends_ready]) (simp_all add: report_request_def)
  then have v: "sends report_request 1 (vm_detector mc d)" for d
    unfolding vm_detector_def by (intro sends_bind[where k = 1 and l = 0]) auto
  have g: "sends report_request 0 (wire_guard_detector mc d)" for d
    unfolding wire_guard_detector_def by (intro sends_bind[where k = 0 and l = 0]) auto
  show "sends report_request 5 r"
    unfolding r by (rule sends_build_report) (use v g in \<open>auto simp: wired_reporter_def Let_def\<close>)
next
  fix n
  assume "sv_network_state (wired_server mc cfg identity started) = Some n"
  then show "sends (\<lambda>_. False) 0 n" by (auto simp: wired_server_def)
next
  fix a body
  assume "sv_network_applier (wired_server mc cfg identity started) = Some a"
  then have "a = network_applier mc (cfg_managed_prefix cfg)" by (simp add: wired_server_def)
  then show "sends (\<lambda>_. False) 0 (a body)"
    unfolding network_applier_def by (auto intro: sends_bind[where k = 0 and l = 0])
next
  fix lc m p b
  assume "sv_lifecycle (wired_server mc cfg identity started) = Some lc"
  then have "ls_handle lc = handle_lifecycle (new_unix_client mc (cfg_incus_socket cfg))"
    by (auto simp: wired_server_def lifecycle_of_def)
  then show "writes_once allowed_read (wanted_write m p b) (ls_handle lc m p b)"
    by (simp add: lifecycle_once)
qed

subsection \<open>What the wired server reports\<close>

text \<open>The agent part of a report is that of its base, whatever Incus answers.\<close>

lemma probe_keeps_agent: "gives (\<lambda>rep. rep_agent rep = rep_agent base) (probe_incus env base)"
  unfolding probe_incus_def Let_def by (auto intro!: gives_bind simp: gives_ret)

definition speaks_for :: "'s reporter \<Rightarrow> report \<Rightarrow> bool" where
  "speaks_for r rep \<longleftrightarrow> ra_id (rep_agent rep) = id_id (rr_identity r)
     \<and> ra_schema_version (rep_agent rep) = id_schema_version (rr_identity r)
     \<and> ra_version (rep_agent rep) = rr_version r"

lemma report_agent:
  assumes "run_state (build_report goos goarch r) v = (Inr rep, v')"
  shows "speaks_for r rep"
proof -
  have b: "speaks_for r (report_base goos goarch r hostname now wg vm)" for hostname now wg vm
    by (simp add: speaks_for_def report_base_def)
  have "gives (speaks_for r) (probe_incus env (report_base goos goarch r hostname now wg vm))" for env hostname now wg vm
    by (rule gives_mono[OF probe_keeps_agent]) (use b in \<open>simp add: speaks_for_def\<close>)
  then have p: "gives (\<lambda>x. case x of Inl e \<Rightarrow> True | Inr rep \<Rightarrow> speaks_for r rep)
      (State_Monad.bind (probe_incus env (report_base goos goarch r hostname now wg vm)) (\<lambda>rep. ret (Inr rep)))"
    for env hostname now wg vm
    by (rule gives_bind_via) (simp add: gives_ret)
  have "gives (\<lambda>x. case x of Inl e \<Rightarrow> True | Inr rep \<Rightarrow> speaks_for r rep) (build_report goos goarch r)"
    unfolding build_report_def Let_def
    by (rule gives_bind) (auto intro!: gives_bind p simp: gives_ret b split: sum.split option.split)
  from givesD[OF this assms] show ?thesis by simp
qed

lemma network_state_agent:
  assumes "run_state (detector_network_state upper ctx d agent) s = (Inr n, s')"
  shows "nst_agent n = agent"
proof -
  obtain detected s1 where d: "run_state (detect ctx d) s = (detected, s1)" by fastforce
  then obtain caps where c: "detected = Inr caps"
    using assms by (cases detected) (auto simp: detector_network_state_def run_state_bind)
  obtain listed s2 where l: "run_state (list_managed_interfaces upper d) s1 = (listed, s2)" by fastforce
  show ?thesis
    using assms d c l
    by (cases listed) (auto simp: detector_network_state_def run_state_bind split: if_splits)
qed

text \<open>
  C26. One identity everywhere. When \<^verbatim>\<open>main\<close> gets as far as serving, nothing has been sent to Incus,
  and from then on every state report and every network state report of its server carries the
  identifier and the schema version of the identity it loaded from the disk, and the state report
  the version the build says.
\<close>

theorem main_identity:
  assumes "run_state (agent_main mc) w = (Inr (cfg, sv), w')"
  shows "exchanges w' = exchanges w \<and> (\<exists>identity s1.
    run_state (load_identity (mc_lenient_time mc) (mc_identity_host mc) (cfg_state_dir cfg)) (outside w)
      = (Inr identity, s1)
    \<and> (\<exists>reporter. sv_reporter sv = Some reporter
        \<and> (\<forall>v rep v'. run_state reporter v = (Inr rep, v') \<longrightarrow>
             ra_id (rep_agent rep) = id_id identity \<and> ra_schema_version (rep_agent rep) = id_schema_version identity
             \<and> ra_version (rep_agent rep) = default_version))
    \<and> (\<exists>network. sv_network_state sv = Some network
        \<and> (\<forall>v n v'. run_state network v = (Inr n, v') \<longrightarrow>
             nst_agent n = \<lparr>na_id = id_id identity, na_schema_version = id_schema_version identity\<rparr>)))"
proof -
  obtain identity started s1 where m:
    "run_state (load_identity (mc_lenient_time mc) (mc_identity_host mc) (cfg_state_dir cfg)) (outside w) = (Inr identity, s1)"
    "sv = wired_server mc cfg identity started" "exchanges w' = exchanges w"
    using agent_main_wires[OF assms] by metis
  let ?rep = "wired_reporter mc cfg identity started"
  have "rr_identity ?rep = identity" "rr_version ?rep = default_version"
    by (simp_all add: wired_reporter_def Let_def)
  then have r: "ra_id (rep_agent rep) = id_id identity \<and> ra_schema_version (rep_agent rep) = id_schema_version identity
      \<and> ra_version (rep_agent rep) = default_version"
    if "run_state (build_report (mc_goos mc) (mc_goarch mc) ?rep) v = (Inr rep, v')" for v rep v'
    using report_agent[OF that] by (simp add: speaks_for_def)
  show ?thesis
    using m r network_state_agent by (auto simp: wired_server_def run_on_host_iff)
qed

text \<open>A machine with a disk and nothing else: no Incus, no WireGuard.\<close>

definition sample_machine :: "bytes go_map machine" where
  "sample_machine =
     \<lparr>mc_getenv = (\<lambda>n. if n = ''ANVIL_AGENT_AUTH_TOKEN'' then ''secret''
        else if n = ''ANVIL_AGENT_STATE_DIR'' then ''/var/lib/anvil'' else []),
      mc_bad_request = (\<lambda>m p. ''invalid URL''), mc_buffers = (\<lambda>_. 4096),
      mc_socket = (\<lambda>path s r. (Inl ''no such file or directory'', s)),
      mc_ctx_err = State_Monad.return None, mc_identity_host = sample_disk_host, mc_lenient_time = (\<lambda>_. None),
      mc_os = \<lparr>os_look_path = (\<lambda>_. State_Monad.return (Inl ''executable file not found in $PATH'')),
        os_stat = (\<lambda>_. State_Monad.return (Some ''no such file or directory'')),
        os_read_file = (\<lambda>_. State_Monad.return (Inl ''no such file or directory'')),
        os_run_binary = (\<lambda>_ _. State_Monad.return (Inl ''no such file or directory''))\<rparr>,
      mc_upper = (\<lambda>s. s), mc_stat = (\<lambda>_. Stat_Not_Exist),
      mc_hostname = State_Monad.return (Inr ''host-1''),
      mc_now = State_Monad.return \<lparr>in_secs = 1700000000, in_nanos = 0\<rparr>,
      mc_goos = ''linux'', mc_goarch = ''amd64''\<rparr>"

definition sample_config :: config where
  "sample_config = default_config\<lparr>cfg_auth_token := ''secret'', cfg_state_dir := ''/var/lib/anvil''\<rparr>"

lemma sample_config_loads: "load_config (mc_getenv sample_machine) = Inr sample_config"
  by (simp add: sample_machine_def sample_config_def load_config_def override_def default_config_def Let_def)

lemma sample_config_state_dir: "cfg_state_dir sample_config = ''/var/lib/anvil''"
  by (simp add: sample_config_def)

lemma sample_main:
  obtains sv w' where "run_state (agent_main sample_machine) \<lparr>exchanges = [], outside = []\<rparr> = (Inr (sample_config, sv), w')"
proof -
  obtain s1 where l: "run_state (load_identity (\<lambda>_. None) sample_disk_host (cfg_state_dir sample_config)) [] = (Inr sample_identity, s1)"
    using sample_load by (metis prod.collapse sample_config_state_dir)
  have m: "mc_lenient_time sample_machine = (\<lambda>_. None)" "mc_identity_host sample_machine = sample_disk_host"
    "mc_now sample_machine = State_Monad.return \<lparr>in_secs = 1700000000, in_nanos = 0\<rparr>"
    by (simp_all add: sample_machine_def)
  have "\<exists>sv w'. run_state (agent_main sample_machine) \<lparr>exchanges = [], outside = []\<rparr> = (Inr (sample_config, sv), w')"
    by (simp add: agent_main_def Let_def run_bind_iff run_on_host_iff run_new_reporter sample_config_loads l m)
  then show thesis using that by blast
qed

lemma main_identity_witness:
  "\<exists>sv w' reporter. run_state (agent_main sample_machine) \<lparr>exchanges = [], outside = []\<rparr> = (Inr (sample_config, sv), w')
    \<and> exchanges w' = [] \<and> sv_reporter sv = Some reporter
    \<and> (\<forall>v rep v'. run_state reporter v = (Inr rep, v') \<longrightarrow> ra_id (rep_agent rep) = id_id sample_identity)"
proof -
  obtain sv w' where m: "run_state (agent_main sample_machine) \<lparr>exchanges = [], outside = []\<rparr> = (Inr (sample_config, sv), w')"
    by (rule sample_main)
  obtain s1 where "run_state (load_identity (mc_lenient_time sample_machine) (mc_identity_host sample_machine)
      (cfg_state_dir sample_config)) [] = (Inr sample_identity, s1)"
    using sample_load sample_config_state_dir by (simp add: sample_machine_def) (metis prod.collapse)
  with main_identity[OF m] m show ?thesis by auto
qed

end
