(* ===== verification/Proxy_System.thy ===== *)
theory Proxy_System
  imports Main_Wiring "HOL-Library.Multiset"
begin

text \<open>
  Package \<^verbatim>\<open>proxy\<close>, the running server: the connections, a handler per dispatched request, the
  bounded event channel and a writer per broadcast frame, as a state and steps over it. Every
  interleaving of the steps is a run, down to the single exchanges with Incus: while one handler
  waits for an answer, others send.

  A handler meets the outside in a state of its own, chosen freely when it starts. What the rest of
  the world, the other handlers included, does to Incus and the host while it runs is part of that
  choice, so a run of the model may answer a handler in any way the services allow; what the
  handlers send is one log.

  Connections are numbered in the order of their upgrades. \<open>ag_admitted\<close>, \<open>ag_asked\<close>, \<open>ag_done\<close>,
  \<open>ag_seen\<close> and \<open>ag_forwarded\<close> are history, not state of the code: with which header a connection
  came in, which messages it sent, what each finished handler exchanged and answered, and the events
  offered to and taken from the channel.
\<close>

subsection \<open>The state and its steps\<close>

datatype frame = Reply bytes | Notice bytes

text \<open>A goroutine of \<^verbatim>\<open>handleRequest\<close>: not yet running, or with exchanges behind and before it.\<close>

datatype task =
    Pending proxy_request
  | Running proxy_request "exchange list" "exchange list" bytes

primrec task_request :: "task \<Rightarrow> proxy_request" where
  "task_request (Pending req) = req"
| "task_request (Running req sent rest f) = req"

record agent =
  ag_log :: "exchange list"
  ag_clients :: "nat list"
  ag_open :: "nat list"
  ag_next :: nat
  ag_handlers :: "(nat \<times> task) list"
  ag_channel :: "event list"
  ag_writers :: "(nat \<times> bytes) list"
  ag_wire :: "(nat \<times> frame) list"
  ag_lost :: "(nat \<times> frame) list"
  ag_admitted :: "(nat \<times> string) list"
  ag_asked :: "(nat \<times> bytes) list"
  ag_done :: "(nat \<times> proxy_request \<times> exchange list \<times> bytes) list"
  ag_seen :: "event list"
  ag_forwarded :: "event list"

definition start_agent :: agent where
  [svc_defs]: "start_agent =
     \<lparr>ag_log = [], ag_clients = [], ag_open = [], ag_next = 0, ag_handlers = [], ag_channel = [], ag_writers = [],
      ag_wire = [], ag_lost = [], ag_admitted = [], ag_asked = [], ag_done = [], ag_seen = [],
      ag_forwarded = []\<rparr>"

definition event_capacity :: nat where
  [svc_defs]: "event_capacity = 64"

text \<open>
  \<^verbatim>\<open>c.conn.Write\<close>: \<open>ok\<close> is whether the write succeeds. On a closed connection it does not, and a
  failed write is logged only.
\<close>

definition write_frame :: "nat \<Rightarrow> frame \<Rightarrow> bool \<Rightarrow> agent \<Rightarrow> agent" where
  [svc_defs]: "write_frame c f ok a =
     (if ok \<and> c \<in> set (ag_open a) then a\<lparr>ag_wire := ag_wire a @ [(c, f)]\<rparr>
      else a\<lparr>ag_lost := ag_lost a @ [(c, f)]\<rparr>)"

text \<open>
  The HTTP layer. A call is a path, its \<^verbatim>\<open>Authorization\<close> header, and what \<^verbatim>\<open>websocket.Accept\<close> answers
  where it refuses to upgrade it. \<^verbatim>\<open>handleWebSocket\<close> refuses or registers a client; \<open>serve_http\<close> is the
  routing of \<^verbatim>\<open>Start\<close>, with what \<^verbatim>\<open>http.ServeMux\<close> answers elsewhere as a parameter.
\<close>

record http_call =
  hc_path :: string
  hc_authorization :: string
  hc_upgrade :: "http_reply option"

definition handle_web_socket :: "'s server \<Rightarrow> http_call \<Rightarrow> agent \<Rightarrow> http_reply + agent" where
  [svc_defs]: "handle_web_socket sv call a =
     (case check_token sv (hc_authorization call) of
        Some refusal \<Rightarrow> Inl refusal
      | None \<Rightarrow>
          (case hc_upgrade call of
             Some refusal \<Rightarrow> Inl refusal
           | None \<Rightarrow> Inr (a\<lparr>ag_clients := ag_next a # ag_clients a, ag_open := ag_next a # ag_open a,
                            ag_next := Suc (ag_next a),
                            ag_admitted := ag_admitted a @ [(ag_next a, hc_authorization call)]\<rparr>)))"

definition serve_http :: "(string \<Rightarrow> http_reply) \<Rightarrow> 's server \<Rightarrow> http_call \<Rightarrow> agent \<Rightarrow> http_reply + agent" where
  [svc_defs]: "serve_http elsewhere sv call a =
     (if hc_path call = ''/ws'' then handle_web_socket sv call a
      else if hc_path call = ''/health'' then Inl handle_health
      else Inl (elsewhere (hc_path call)))"

text \<open>
  Its deferred cleanup, when the read loop ends: the client leaves the map, and later, after the
  unlock, \<^verbatim>\<open>CloseNow\<close> closes its connection. A handler or a writer may still get a frame through in
  between.
\<close>

definition drop_client :: "nat \<Rightarrow> agent \<Rightarrow> agent" where
  [svc_defs]: "drop_client c a = a\<lparr>ag_clients := remove1 c (ag_clients a)\<rparr>"

definition close_connection :: "nat \<Rightarrow> agent \<Rightarrow> agent" where
  [svc_defs]: "close_connection c a = a\<lparr>ag_open := remove1 c (ag_open a)\<rparr>"

text \<open>One message in \<^verbatim>\<open>readLoop\<close>.\<close>

definition receive_message :: "json_texts \<Rightarrow> nat \<Rightarrow> bytes \<Rightarrow> bool \<Rightarrow> agent \<Rightarrow> agent" where
  [svc_defs]: "receive_message tx c msg ok a =
     (let a' = a\<lparr>ag_asked := ag_asked a @ [(c, msg)]\<rparr>
      in case read_message tx msg of
           Answer f \<Rightarrow> write_frame c (Reply f) ok a'
         | Dispatch req \<Rightarrow> a'\<lparr>ag_handlers := ag_handlers a' @ [(c, Pending req)]\<rparr>)"

text \<open>The handler number \<open>i\<close>: it starts, sends its next request, writes its answer and is gone.\<close>

definition start_handler :: "json_texts \<Rightarrow> 's server \<Rightarrow> nat \<Rightarrow> 's \<Rightarrow> agent \<Rightarrow> agent" where
  [svc_defs]: "start_handler tx sv i s a =
     (case ag_handlers a ! i of
        (c, Pending req) \<Rightarrow>
          (let (f, w) = run_state (handle_request tx sv req) \<lparr>exchanges = [], outside = s\<rparr>
           in a\<lparr>ag_handlers := (ag_handlers a)[i := (c, Running req [] (exchanges w) f)]\<rparr>)
      | _ \<Rightarrow> a)"

definition handler_sends :: "nat \<Rightarrow> agent \<Rightarrow> agent" where
  [svc_defs]: "handler_sends i a =
     (case ag_handlers a ! i of
        (c, Running req sent (x # rest) f) \<Rightarrow>
          a\<lparr>ag_log := ag_log a @ [x], ag_handlers := (ag_handlers a)[i := (c, Running req (sent @ [x]) rest f)]\<rparr>
      | _ \<Rightarrow> a)"

definition drop_nth :: "nat \<Rightarrow> 'a list \<Rightarrow> 'a list" where
  "drop_nth i xs = take i xs @ drop (Suc i) xs"

definition handler_writes :: "nat \<Rightarrow> bool \<Rightarrow> agent \<Rightarrow> agent" where
  [svc_defs]: "handler_writes i ok a =
     (case ag_handlers a ! i of
        (c, Running req sent [] f) \<Rightarrow>
          write_frame c (Reply f) ok
            (a\<lparr>ag_handlers := drop_nth i (ag_handlers a), ag_done := ag_done a @ [(c, req, sent, f)]\<rparr>)
      | _ \<Rightarrow> a)"

text \<open>\<^verbatim>\<open>broadcastEvent\<close>: a writer per client of the moment, none for an event that is not JSON.\<close>

definition broadcast_event :: "event \<Rightarrow> agent \<Rightarrow> agent" where
  [svc_defs]: "broadcast_event ev a =
     (case enc_event ev of
        None \<Rightarrow> a
      | Some msg \<Rightarrow> a\<lparr>ag_writers := ag_writers a @ map (\<lambda>c. (c, msg)) (ag_clients a)\<rparr>)"

definition forward_event :: "agent \<Rightarrow> agent" where
  [svc_defs]: "forward_event a =
     (case ag_channel a of
        [] \<Rightarrow> a
      | ev # evs \<Rightarrow> broadcast_event ev (a\<lparr>ag_channel := evs, ag_forwarded := ag_forwarded a @ [ev]\<rparr>))"

definition run_writer :: "nat \<Rightarrow> bool \<Rightarrow> agent \<Rightarrow> agent" where
  [svc_defs]: "run_writer i ok a =
     (let (c, msg) = ag_writers a ! i
      in write_frame c (Notice msg) ok (a\<lparr>ag_writers := drop_nth i (ag_writers a)\<rparr>))"

definition offer_event :: "event \<Rightarrow> agent \<Rightarrow> agent" where
  [svc_defs]: "offer_event ev a = a\<lparr>ag_channel := ag_channel a @ [ev], ag_seen := ag_seen a @ [ev]\<rparr>"

text \<open>
  \<^verbatim>\<open>listenEvents\<close>: one connection to the event stream after the other, each with whether the
  context is done in the wait after it. The events offered to the channel, and whether it may still
  offer more.
\<close>

fun server_listen_events :: "(dial_result \<times> bool) list \<Rightarrow> event list \<times> bool" where
  "server_listen_events [] = ([], True)"
| "server_listen_events ((d, done) # rounds) =
     (case listen_events d of
        (evs, None) \<Rightarrow> (evs, True)
      | (evs, Some e) \<Rightarrow>
          if done then (evs, False)
          else (let (more, alive) = server_listen_events rounds in (evs @ more, alive)))"

text \<open>What the server does on its own, and what it does because of the outside.\<close>

inductive internal :: "json_texts \<Rightarrow> 's server \<Rightarrow> agent \<Rightarrow> agent \<Rightarrow> bool"
  for tx :: json_texts and sv :: "'s server" where
  start: "i < length (ag_handlers a) \<Longrightarrow> ag_handlers a ! i = (c, Pending req)
    \<Longrightarrow> internal tx sv a (start_handler tx sv i s a)"
| send: "i < length (ag_handlers a) \<Longrightarrow> ag_handlers a ! i = (c, Running req sent (x # rest) f)
    \<Longrightarrow> internal tx sv a (handler_sends i a)"
| reply: "i < length (ag_handlers a) \<Longrightarrow> ag_handlers a ! i = (c, Running req sent [] f)
    \<Longrightarrow> internal tx sv a (handler_writes i ok a)"
| forward: "ag_channel a \<noteq> [] \<Longrightarrow> internal tx sv a (forward_event a)"
| notify: "i < length (ag_writers a) \<Longrightarrow> internal tx sv a (run_writer i ok a)"

inductive external :: "json_texts \<Rightarrow> 's server \<Rightarrow> agent \<Rightarrow> agent \<Rightarrow> bool"
  for tx :: json_texts and sv :: "'s server" where
  connect: "serve_http elsewhere sv call a = Inr b \<Longrightarrow> external tx sv a b"
| disconnect: "c \<in> set (ag_clients a) \<Longrightarrow> external tx sv a (drop_client c a)"
| closing: "c \<in> set (ag_open a) \<Longrightarrow> c \<notin> set (ag_clients a) \<Longrightarrow> external tx sv a (close_connection c a)"
| message: "c \<in> set (ag_clients a) \<Longrightarrow> external tx sv a (receive_message tx c msg ok a)"
| event: "length (ag_channel a) < event_capacity \<Longrightarrow> external tx sv a (offer_event ev a)"

definition server_step :: "json_texts \<Rightarrow> 's server \<Rightarrow> agent \<Rightarrow> agent \<Rightarrow> bool" where
  "server_step tx sv a b \<longleftrightarrow> internal tx sv a b \<or> external tx sv a b"

inductive reachable :: "json_texts \<Rightarrow> 's server \<Rightarrow> agent \<Rightarrow> bool"
  for tx :: json_texts and sv :: "'s server" where
  initial: "reachable tx sv start_agent"
| step: "reachable tx sv a \<Longrightarrow> server_step tx sv a b \<Longrightarrow> reachable tx sv b"

inductive_cases internalE: "internal tx sv a b"
inductive_cases externalE: "external tx sv a b"

text \<open>An invariant is checked step by step, one case per way of stepping.\<close>

lemma reachable_invariant [consumes 1, case_names initial start send reply forward notify connect disconnect closing message event]:
  assumes "reachable tx sv a"
    and "P start_agent"
    and "\<And>a i c req s. P a \<Longrightarrow> i < length (ag_handlers a) \<Longrightarrow> ag_handlers a ! i = (c, Pending req)
           \<Longrightarrow> P (start_handler tx sv i s a)"
    and "\<And>a i c req sent x rest f. P a \<Longrightarrow> i < length (ag_handlers a)
           \<Longrightarrow> ag_handlers a ! i = (c, Running req sent (x # rest) f) \<Longrightarrow> P (handler_sends i a)"
    and "\<And>a i c req sent f ok. P a \<Longrightarrow> i < length (ag_handlers a)
           \<Longrightarrow> ag_handlers a ! i = (c, Running req sent [] f) \<Longrightarrow> P (handler_writes i ok a)"
    and "\<And>a. P a \<Longrightarrow> ag_channel a \<noteq> [] \<Longrightarrow> P (forward_event a)"
    and "\<And>a i ok. P a \<Longrightarrow> i < length (ag_writers a) \<Longrightarrow> P (run_writer i ok a)"
    and "\<And>a elsewhere call b. P a \<Longrightarrow> serve_http elsewhere sv call a = Inr b \<Longrightarrow> P b"
    and "\<And>a c. P a \<Longrightarrow> c \<in> set (ag_clients a) \<Longrightarrow> P (drop_client c a)"
    and "\<And>a c. P a \<Longrightarrow> c \<in> set (ag_open a) \<Longrightarrow> c \<notin> set (ag_clients a) \<Longrightarrow> P (close_connection c a)"
    and "\<And>a c msg ok. P a \<Longrightarrow> c \<in> set (ag_clients a) \<Longrightarrow> P (receive_message tx c msg ok a)"
    and "\<And>a ev. P a \<Longrightarrow> length (ag_channel a) < event_capacity \<Longrightarrow> P (offer_event ev a)"
  shows "P a"
  using assms(1)
proof (induction rule: reachable.induct)
  case initial
  show ?case by (rule assms(2))
next
  case (step a b)
  then show ?case unfolding server_step_def
    by (elim disjE internalE externalE) (auto intro: assms(3-))
qed

subsection \<open>Frame lemmas\<close>

text \<open>What each operation leaves alone.\<close>

lemma write_frame_simps [simp]:
  "ag_log (write_frame c f ok a) = ag_log a" "ag_clients (write_frame c f ok a) = ag_clients a"
  "ag_open (write_frame c f ok a) = ag_open a"
  "ag_next (write_frame c f ok a) = ag_next a" "ag_handlers (write_frame c f ok a) = ag_handlers a"
  "ag_channel (write_frame c f ok a) = ag_channel a" "ag_writers (write_frame c f ok a) = ag_writers a"
  "ag_admitted (write_frame c f ok a) = ag_admitted a" "ag_asked (write_frame c f ok a) = ag_asked a"
  "ag_done (write_frame c f ok a) = ag_done a"
  "ag_seen (write_frame c f ok a) = ag_seen a" "ag_forwarded (write_frame c f ok a) = ag_forwarded a"
  by (simp_all add: write_frame_def)

lemma broadcast_event_simps [simp]:
  "ag_log (broadcast_event ev a) = ag_log a" "ag_clients (broadcast_event ev a) = ag_clients a"
  "ag_open (broadcast_event ev a) = ag_open a"
  "ag_next (broadcast_event ev a) = ag_next a" "ag_handlers (broadcast_event ev a) = ag_handlers a"
  "ag_channel (broadcast_event ev a) = ag_channel a" "ag_wire (broadcast_event ev a) = ag_wire a"
  "ag_lost (broadcast_event ev a) = ag_lost a" "ag_admitted (broadcast_event ev a) = ag_admitted a"
  "ag_asked (broadcast_event ev a) = ag_asked a" "ag_done (broadcast_event ev a) = ag_done a"
  "ag_seen (broadcast_event ev a) = ag_seen a" "ag_forwarded (broadcast_event ev a) = ag_forwarded a"
  by (simp_all add: broadcast_event_def split: option.split)

lemma forward_event_simps [simp]:
  "ag_log (forward_event a) = ag_log a" "ag_clients (forward_event a) = ag_clients a"
  "ag_open (forward_event a) = ag_open a"
  "ag_next (forward_event a) = ag_next a" "ag_handlers (forward_event a) = ag_handlers a"
  "ag_wire (forward_event a) = ag_wire a" "ag_lost (forward_event a) = ag_lost a"
  "ag_admitted (forward_event a) = ag_admitted a" "ag_asked (forward_event a) = ag_asked a"
  "ag_done (forward_event a) = ag_done a" "ag_seen (forward_event a) = ag_seen a"
  by (simp_all add: forward_event_def split: list.split)

lemma run_writer_simps [simp]:
  "ag_log (run_writer i ok a) = ag_log a" "ag_clients (run_writer i ok a) = ag_clients a"
  "ag_open (run_writer i ok a) = ag_open a"
  "ag_next (run_writer i ok a) = ag_next a" "ag_handlers (run_writer i ok a) = ag_handlers a"
  "ag_channel (run_writer i ok a) = ag_channel a" "ag_admitted (run_writer i ok a) = ag_admitted a"
  "ag_asked (run_writer i ok a) = ag_asked a" "ag_done (run_writer i ok a) = ag_done a"
  "ag_seen (run_writer i ok a) = ag_seen a" "ag_forwarded (run_writer i ok a) = ag_forwarded a"
  "ag_writers (run_writer i ok a) = drop_nth i (ag_writers a)"
  by (simp_all add: run_writer_def Let_def case_prod_beta)

lemma start_handler_simps [simp]:
  "ag_clients (start_handler tx sv i s a) = ag_clients a"
  "ag_open (start_handler tx sv i s a) = ag_open a"
  "ag_next (start_handler tx sv i s a) = ag_next a"
  "ag_channel (start_handler tx sv i s a) = ag_channel a"
  "ag_writers (start_handler tx sv i s a) = ag_writers a"
  "ag_admitted (start_handler tx sv i s a) = ag_admitted a"
  "ag_asked (start_handler tx sv i s a) = ag_asked a"
  "ag_seen (start_handler tx sv i s a) = ag_seen a"
  "ag_forwarded (start_handler tx sv i s a) = ag_forwarded a"
  "ag_wire (start_handler tx sv i s a) = ag_wire a"
  "ag_lost (start_handler tx sv i s a) = ag_lost a"
  "ag_log (start_handler tx sv i s a) = ag_log a"
  "ag_done (start_handler tx sv i s a) = ag_done a"
  by (simp_all add: start_handler_def Let_def case_prod_beta split: task.split)

lemma handler_sends_simps [simp]:
  "ag_clients (handler_sends i a) = ag_clients a"
  "ag_open (handler_sends i a) = ag_open a"
  "ag_next (handler_sends i a) = ag_next a"
  "ag_channel (handler_sends i a) = ag_channel a"
  "ag_writers (handler_sends i a) = ag_writers a"
  "ag_admitted (handler_sends i a) = ag_admitted a"
  "ag_asked (handler_sends i a) = ag_asked a"
  "ag_seen (handler_sends i a) = ag_seen a"
  "ag_forwarded (handler_sends i a) = ag_forwarded a"
  "ag_wire (handler_sends i a) = ag_wire a"
  "ag_lost (handler_sends i a) = ag_lost a"
  "ag_done (handler_sends i a) = ag_done a"
  by (simp_all add: handler_sends_def case_prod_beta split: task.split list.split)

lemma handler_writes_simps [simp]:
  "ag_clients (handler_writes i ok a) = ag_clients a"
  "ag_open (handler_writes i ok a) = ag_open a"
  "ag_next (handler_writes i ok a) = ag_next a"
  "ag_channel (handler_writes i ok a) = ag_channel a"
  "ag_writers (handler_writes i ok a) = ag_writers a"
  "ag_admitted (handler_writes i ok a) = ag_admitted a"
  "ag_asked (handler_writes i ok a) = ag_asked a"
  "ag_seen (handler_writes i ok a) = ag_seen a"
  "ag_forwarded (handler_writes i ok a) = ag_forwarded a"
  "ag_log (handler_writes i ok a) = ag_log a"
  by (simp_all add: handler_writes_def case_prod_beta split: task.split list.split)

lemma start_handler_eq:
  assumes "ag_handlers a ! i = (c, Pending req)"
    and "run_state (handle_request tx sv req) \<lparr>exchanges = [], outside = s\<rparr> = (f, w)"
  shows "start_handler tx sv i s a = a\<lparr>ag_handlers := (ag_handlers a)[i := (c, Running req [] (exchanges w) f)]\<rparr>"
  using assms by (simp add: start_handler_def)

lemma handler_sends_eq:
  "ag_handlers a ! i = (c, Running req sent (x # rest) f) \<Longrightarrow> handler_sends i a =
     a\<lparr>ag_log := ag_log a @ [x], ag_handlers := (ag_handlers a)[i := (c, Running req (sent @ [x]) rest f)]\<rparr>"
  by (simp add: handler_sends_def)

lemma handler_writes_eq:
  "ag_handlers a ! i = (c, Running req sent [] f) \<Longrightarrow> handler_writes i ok a =
     write_frame c (Reply f) ok (a\<lparr>ag_handlers := drop_nth i (ag_handlers a), ag_done := ag_done a @ [(c, req, sent, f)]\<rparr>)"
  by (simp add: handler_writes_def)

text \<open>The other handlers of a state with the handler \<open>i\<close> taken out or replaced.\<close>

lemma set_drop_nth: "set (drop_nth i xs) \<subseteq> set xs"
  unfolding drop_nth_def using set_take_subset[of i xs] set_drop_subset[of "Suc i" xs] by auto

lemma mset_drop_nth: "i < length xs \<Longrightarrow> mset xs = add_mset (xs ! i) (mset (drop_nth i xs))"
  unfolding drop_nth_def by (subst id_take_nth_drop[of i xs]) simp_all

lemma mset_update_nth: "i < length xs \<Longrightarrow> mset (xs[i := y]) = add_mset y (mset (drop_nth i xs))"
  unfolding drop_nth_def by (simp add: upd_conv_take_nth_drop)

lemma length_drop_nth [simp]: "i < length xs \<Longrightarrow> length (drop_nth i xs) = length xs - 1"
  by (simp add: drop_nth_def)

lemma receive_message_simps [simp]:
  "ag_log (receive_message tx c msg ok a) = ag_log a" "ag_clients (receive_message tx c msg ok a) = ag_clients a"
  "ag_open (receive_message tx c msg ok a) = ag_open a"
  "ag_next (receive_message tx c msg ok a) = ag_next a" "ag_channel (receive_message tx c msg ok a) = ag_channel a"
  "ag_writers (receive_message tx c msg ok a) = ag_writers a"
  "ag_admitted (receive_message tx c msg ok a) = ag_admitted a"
  "ag_asked (receive_message tx c msg ok a) = ag_asked a @ [(c, msg)]"
  "ag_done (receive_message tx c msg ok a) = ag_done a"
  "ag_seen (receive_message tx c msg ok a) = ag_seen a" "ag_forwarded (receive_message tx c msg ok a) = ag_forwarded a"
  by (simp_all add: receive_message_def Let_def split: round.split)

text \<open>The only call that changes anything is the upgrade of an admitted client.\<close>

lemma serve_http_Inr:
  "serve_http elsewhere sv call a = Inr b \<longleftrightarrow> hc_path call = ''/ws'' \<and> check_token sv (hc_authorization call) = None
     \<and> hc_upgrade call = None
     \<and> b = a\<lparr>ag_clients := ag_next a # ag_clients a, ag_open := ag_next a # ag_open a, ag_next := Suc (ag_next a),
              ag_admitted := ag_admitted a @ [(ag_next a, hc_authorization call)]\<rparr>"
  by (auto simp: serve_http_def handle_web_socket_def split: option.split)

subsection \<open>The event channel\<close>

text \<open>
  The event channel never holds more than its capacity of 64, and it is a queue: the events
  broadcast so far followed by the events waiting are the events received from Incus, in order,
  none lost and none twice.
\<close>

lemma channel_queue:
  assumes "reachable tx sv a"
  shows "length (ag_channel a) \<le> 64 \<and> ag_seen a = ag_forwarded a @ ag_channel a"
  using assms
  by (induction rule: reachable_invariant)
     (auto simp: start_agent_def serve_http_Inr drop_client_def close_connection_def offer_event_def event_capacity_def
       forward_event_def split: list.splits)

text \<open>
  The stream of a listener gets through: whatever \<^verbatim>\<open>listenEvents\<close> receives can be offered to the
  channel, with broadcasts in between where the channel is full.
\<close>

lemma room_possible:
  "\<exists>b. (server_step tx sv)\<^sup>*\<^sup>* a b \<and> ag_seen b = ag_seen a \<and> length (ag_channel b) < event_capacity"
proof (induction "length (ag_channel a)" arbitrary: a rule: less_induct)
  case less
  show ?case
  proof (cases "length (ag_channel a) < event_capacity")
    case False
    then obtain e evs where c: "ag_channel a = e # evs" by (cases "ag_channel a") (auto simp: event_capacity_def)
    then have "server_step tx sv a (forward_event a)" by (simp add: server_step_def internal.forward)
    moreover have "length (ag_channel (forward_event a)) < length (ag_channel a)" using c by (simp add: forward_event_def)
    ultimately show ?thesis using less[of "forward_event a"] by (auto intro: converse_rtranclp_into_rtranclp)
  qed blast
qed

lemma offer_possible: "\<exists>b. (server_step tx sv)\<^sup>*\<^sup>* a b \<and> ag_seen b = ag_seen a @ [ev]"
proof -
  obtain b where b: "(server_step tx sv)\<^sup>*\<^sup>* a b" "ag_seen b = ag_seen a" "length (ag_channel b) < event_capacity"
    using room_possible by blast
  then have "server_step tx sv b (offer_event ev b)" by (simp add: server_step_def external.event)
  with b show ?thesis by (intro exI[of _ "offer_event ev b"]) (auto simp: offer_event_def)
qed

lemma stream_offered:
  "\<exists>b. (server_step tx sv)\<^sup>*\<^sup>* a b \<and> ag_seen b = ag_seen a @ fst (server_listen_events rounds)"
proof -
  have "\<exists>b. (server_step tx sv)\<^sup>*\<^sup>* a b \<and> ag_seen b = ag_seen a @ evs" for evs
  proof (induction evs arbitrary: a)
    case (Cons ev evs)
    obtain b where b: "(server_step tx sv)\<^sup>*\<^sup>* a b" "ag_seen b = ag_seen a @ [ev]" using offer_possible by blast
    obtain c where "(server_step tx sv)\<^sup>*\<^sup>* b c" "ag_seen c = ag_seen b @ evs" using Cons by blast
    with b show ?case by (auto intro: rtranclp_trans)
  qed auto
  then show ?thesis by blast
qed

subsection \<open>Admission\<close>

text \<open>Connections get fresh numbers, and what is kept per connection is kept of an admitted one.\<close>

definition connections :: "agent \<Rightarrow> nat set" where
  "connections a = set (ag_clients a) \<union> set (ag_open a) \<union> fst ` set (ag_handlers a) \<union> fst ` set (ag_asked a)
     \<union> fst ` set (ag_writers a) \<union> fst ` (set (ag_wire a) \<union> set (ag_lost a)) \<union> fst ` set (ag_done a)"

definition admission_ok :: "'s server \<Rightarrow> agent \<Rightarrow> bool" where
  "admission_ok sv a \<longleftrightarrow> distinct (ag_clients a) \<and> distinct (ag_open a) \<and> set (ag_clients a) \<subseteq> set (ag_open a)
     \<and> map fst (ag_admitted a) = [0..<ag_next a]
     \<and> (\<forall>x \<in> set (ag_admitted a). check_token sv (snd x) = None) \<and> connections a \<subseteq> {..<ag_next a}"

lemma connections_write [simp]: "connections (write_frame c f ok a) = insert c (connections a)"
  by (auto simp: connections_def write_frame_def)

lemma handler_connection: "i < length (ag_handlers a) \<Longrightarrow> fst (ag_handlers a ! i) \<in> connections a"
  by (auto simp: connections_def)

lemma connections_update:
  assumes "i < length (ag_handlers a)" and "fst (ag_handlers a ! i) = c"
  shows "connections (a\<lparr>ag_log := l, ag_handlers := (ag_handlers a)[i := (c, t)]\<rparr>) \<subseteq> connections a"
    and "connections (a\<lparr>ag_handlers := (ag_handlers a)[i := (c, t)]\<rparr>) \<subseteq> connections a"
proof -
  have "map fst ((ag_handlers a)[i := (c, t)]) = map fst (ag_handlers a)"
    using assms by (simp add: map_update list_update_same_conv)
  then have "fst ` set ((ag_handlers a)[i := (c, t)]) = fst ` set (ag_handlers a)"
    by (metis set_map)
  then show "connections (a\<lparr>ag_log := l, ag_handlers := (ag_handlers a)[i := (c, t)]\<rparr>) \<subseteq> connections a"
    "connections (a\<lparr>ag_handlers := (ag_handlers a)[i := (c, t)]\<rparr>) \<subseteq> connections a"
    by (simp_all add: connections_def)
qed

lemma connections_start: "i < length (ag_handlers a) \<Longrightarrow> connections (start_handler tx sv i s a) \<subseteq> connections a"
  by (auto simp: start_handler_def Let_def case_prod_beta dest!: connections_update(2)[OF _ refl, THEN subsetD]
      split: task.split)

lemma connections_sends: "i < length (ag_handlers a) \<Longrightarrow> connections (handler_sends i a) \<subseteq> connections a"
  by (auto simp: handler_sends_def case_prod_beta dest!: connections_update(1)[OF _ refl, THEN subsetD]
      split: task.split list.split)

lemma connections_writes:
  assumes "i < length (ag_handlers a)"
  shows "connections (handler_writes i ok a) \<subseteq> connections a"
proof -
  have "connections (a\<lparr>ag_handlers := drop_nth i (ag_handlers a), ag_done := ag_done a @ [(fst (ag_handlers a ! i), d)]\<rparr>)
      \<subseteq> connections a" for d
    using set_drop_nth[of i "ag_handlers a"] handler_connection[OF assms] by (auto simp: connections_def)
  then show ?thesis
    using handler_connection[OF assms] by (simp add: handler_writes_def case_prod_beta split: task.split list.split)
qed

lemma connections_writer:
  assumes "i < length (ag_writers a)"
  shows "connections (run_writer i ok a) \<subseteq> connections a"
proof -
  have "ag_writers a ! i \<in> set (ag_writers a)" using assms by simp
  then have "fst (ag_writers a ! i) \<in> connections a" by (auto simp: connections_def)
  moreover have "connections (a\<lparr>ag_writers := drop_nth i (ag_writers a)\<rparr>) \<subseteq> connections a"
    using set_drop_nth[of i "ag_writers a"] by (auto simp: connections_def)
  ultimately show ?thesis by (simp add: run_writer_def Let_def case_prod_beta)
qed

lemma connections_forward: "connections (forward_event a) \<subseteq> connections a"
  by (auto simp: connections_def forward_event_def broadcast_event_def image_iff split: list.split option.split)

lemma connections_receive: "connections (receive_message tx c msg ok a) \<subseteq> insert c (connections a)"
  by (auto simp: connections_def receive_message_def write_frame_def Let_def split: round.split)

lemma connections_drop: "connections (drop_client c a) \<subseteq> connections a"
  using set_remove1_subset[of c "ag_clients a"] by (auto simp: connections_def drop_client_def)

lemma connections_close: "connections (close_connection c a) \<subseteq> connections a"
  using set_remove1_subset[of c "ag_open a"] by (auto simp: connections_def close_connection_def)

lemma client_connection: "c \<in> set (ag_clients a) \<Longrightarrow> c \<in> connections a"
  by (simp add: connections_def)

lemma open_connection: "c \<in> set (ag_open a) \<Longrightarrow> c \<in> connections a"
  by (simp add: connections_def)

lemmas connections_shrink = connections_start connections_sends connections_writes connections_writer
  connections_forward connections_drop connections_close

lemma admission_shrink:
  assumes "admission_ok sv a" and "connections b \<subseteq> connections a" and "distinct (ag_clients b)"
    and "distinct (ag_open b)" and "set (ag_clients b) \<subseteq> set (ag_open b)" and "ag_admitted b = ag_admitted a" and "ag_next b = ag_next a"
  shows "admission_ok sv b"
  using assms by (auto simp: admission_ok_def)

lemma admission_distinct: "admission_ok sv a \<Longrightarrow> distinct (ag_clients a)"
  by (simp add: admission_ok_def)

lemma admission_open: "admission_ok sv a \<Longrightarrow> distinct (ag_open a)" "admission_ok sv a \<Longrightarrow> set (ag_clients a) \<subseteq> set (ag_open a)"
  by (simp_all add: admission_ok_def)

lemma reachable_admission: "reachable tx sv a \<Longrightarrow> admission_ok sv a"
proof (induction rule: reachable_invariant)
  case initial
  show ?case by (simp add: admission_ok_def start_agent_def connections_def)
next
  case (start a i c req s)
  then show ?case by (intro admission_shrink[OF start(1)] connections_shrink) (simp_all add: admission_distinct admission_open)
next
  case (send a i c req sent x rest f)
  then show ?case by (intro admission_shrink[OF send(1)] connections_shrink) (simp_all add: admission_distinct admission_open)
next
  case (reply a i c req sent f ok)
  then show ?case by (intro admission_shrink[OF reply(1)] connections_shrink) (simp_all add: admission_distinct admission_open)
next
  case (forward a)
  then show ?case by (intro admission_shrink[OF forward(1)] connections_shrink) (simp_all add: admission_distinct admission_open)
next
  case (notify a i ok)
  then show ?case by (intro admission_shrink[OF notify(1)] connections_shrink) (simp_all add: admission_distinct admission_open)
next
  case (connect a elsewhere call b)
  then have b: "check_token sv (hc_authorization call) = None" "b = a\<lparr>ag_clients := ag_next a # ag_clients a,
      ag_open := ag_next a # ag_open a, ag_next := Suc (ag_next a), ag_admitted := ag_admitted a @ [(ag_next a, hc_authorization call)]\<rparr>"
    by (simp_all add: serve_http_Inr)
  have "ag_next a \<notin> connections a" using connect(1) by (auto simp: admission_ok_def)
  then have "ag_next a \<notin> set (ag_clients a)" "ag_next a \<notin> set (ag_open a)" using client_connection open_connection by blast+
  moreover have "connections b = insert (ag_next a) (connections a)" by (auto simp: b(2) connections_def)
  ultimately show ?case using connect(1) b by (auto simp: admission_ok_def lessThan_Suc)
next
  case (disconnect a c)
  then show ?case
    by (intro admission_shrink[OF disconnect(1)] connections_shrink) (use admission_distinct[OF disconnect(1)] admission_open[OF disconnect(1)] set_remove1_subset[of c "ag_clients a"] in \<open>auto simp: drop_client_def\<close>)
next
  case (closing a c)
  note d = admission_distinct[OF closing(1)] admission_open[OF closing(1)]
  then have "set (ag_clients a) \<subseteq> set (ag_open (close_connection c a))"
    using closing(3) by (auto simp: close_connection_def)
  with d show ?case
    by (intro admission_shrink[OF closing(1)] connections_shrink) (simp_all add: close_connection_def)
next
  case (message a c msg ok)
  then have "connections (receive_message tx c msg ok a) \<subseteq> connections a"
    using connections_receive[of tx c msg ok a] client_connection[of c a] by blast
  with message(1) show ?case by (rule admission_shrink) (use message(1) in \<open>simp_all add: admission_distinct admission_open\<close>)
next
  case (event a ev)
  then show ?case by (simp add: admission_ok_def offer_event_def connections_def)
qed

lemma distinct_keys_filter:
  "distinct (map fst xs) \<Longrightarrow> (c, h) \<in> set xs \<Longrightarrow> filter (\<lambda>x. fst x = c) xs = [(c, h)]"
proof (induction xs)
  case (Cons x xs)
  show ?case
  proof (cases "x = (c, h)")
    case True
    then have "filter (\<lambda>y. fst y = c) xs = []" using Cons.prems(1) by (auto simp: filter_empty_conv image_iff)
    with True show ?thesis by simp
  next
    case False
    then have "(c, h) \<in> set xs" using Cons.prems(2) by simp
    moreover from this have "fst x \<noteq> c" using Cons.prems(1) image_eqI[of c fst "(c, h)" "set xs"] by auto
    ultimately show ?thesis using Cons.IH Cons.prems(1) by simp
  qed
qed simp

lemma known_with_token:
  assumes "reachable tx sv a" and "sv_auth_token sv \<noteq> []" and "c \<in> connections a"
  shows "filter (\<lambda>x. fst x = c) (ag_admitted a) = [(c, ''Bearer '' @ sv_auth_token sv)]"
proof -
  have ok: "admission_ok sv a" using assms(1) by (rule reachable_admission)
  with assms(3) have "c \<in> set (map fst (ag_admitted a))" by (auto simp: admission_ok_def)
  then obtain h where h: "(c, h) \<in> set (ag_admitted a)" by auto
  then have "check_token sv h = None" using ok by (auto simp: admission_ok_def)
  then have "h = ''Bearer '' @ sv_auth_token sv" using assms(2) by (simp add: check_token_def split: if_splits)
  moreover have "distinct (map fst (ag_admitted a))" using ok by (simp add: admission_ok_def)
  ultimately show ?thesis using h by (simp add: distinct_keys_filter)
qed

lemma known_header:
  assumes "reachable tx sv a" and "sv_auth_token sv \<noteq> []" and "c \<in> connections a"
  shows "(c, ''Bearer '' @ sv_auth_token sv) \<in> set (ag_admitted a)"
proof -
  have "(c, ''Bearer '' @ sv_auth_token sv) \<in> set (filter (\<lambda>x. fst x = c) (ag_admitted a))"
    unfolding known_with_token[OF assms] by simp
  then show ?thesis by simp
qed

text \<open>
  C7. Nobody is served without the token. When the server has one, every connection that is open or
  registered, was listened to or had a frame written to it came in exactly once, with the header that
  carries the token.
\<close>

theorem served_with_token:
  assumes "reachable tx sv a" and "sv_auth_token sv \<noteq> []"
    and "c \<in> set (ag_clients a) \<or> c \<in> set (ag_open a) \<or> c \<in> fst ` set (ag_asked a) \<or> c \<in> fst ` set (ag_wire a)"
  shows "filter (\<lambda>x. fst x = c) (ag_admitted a) = [(c, ''Bearer '' @ sv_auth_token sv)]"
  using assms(3) by (intro known_with_token[OF assms(1,2)]) (auto simp: connections_def)

text \<open>A run: a client comes in, an event arrives, the client asks for the instances.\<close>

definition sample_event :: event where
  "sample_event = \<lparr>event_type = ''lifecycle'', event_data = Some ''{}''\<rparr>"

definition sample_call :: http_call where
  "sample_call = \<lparr>hc_path = ''/ws'', hc_authorization = ''Bearer secret'', hc_upgrade = None\<rparr>"

definition sample_connected :: agent where
  "sample_connected = start_agent\<lparr>ag_clients := [0], ag_open := [0], ag_next := 1, ag_admitted := [(0, ''Bearer secret'')]\<rparr>"

definition sample_busy :: agent where
  "sample_busy = receive_message sample_texts 0 sample_read True (offer_event sample_event sample_connected)"

lemma sample_token: "sv_auth_token sample_server = ''secret''"
  by (simp add: sample_server_def new_server_with_reporter_def)

lemma connected_reachable:
  assumes "sv_auth_token sv = ''secret''"
  shows "reachable tx sv sample_connected"
proof -
  have "serve_http (\<lambda>_. Http_Text 404 []) sv sample_call start_agent = Inr sample_connected"
    using assms by (simp add: serve_http_Inr sample_call_def sample_connected_def start_agent_def check_token_def)
  then show ?thesis
    by (intro reachable.step[OF reachable.initial]) (auto simp: server_step_def intro: external.connect)
qed

lemma reachable_external: "reachable tx sv a \<Longrightarrow> external tx sv a b \<Longrightarrow> reachable tx sv b"
  by (erule reachable.step) (simp add: server_step_def)

lemma reachable_internal: "reachable tx sv a \<Longrightarrow> internal tx sv a b \<Longrightarrow> reachable tx sv b"
  by (erule reachable.step) (simp add: server_step_def)

lemma reachable_internals: "(internal tx sv)\<^sup>*\<^sup>* a b \<Longrightarrow> reachable tx sv a \<Longrightarrow> reachable tx sv b"
  by (induction rule: rtranclp_induct) (auto intro: reachable_internal)

lemma sample_busy_reachable: "reachable sample_texts sample_server sample_busy"
proof -
  have "external sample_texts sample_server sample_connected (offer_event sample_event sample_connected)"
    by (rule external.event) (simp add: sample_connected_def start_agent_def event_capacity_def)
  then have r: "reachable sample_texts sample_server (offer_event sample_event sample_connected)"
    by (rule reachable_external[OF connected_reachable[OF sample_token]])
  have "external sample_texts sample_server (offer_event sample_event sample_connected) sample_busy"
    unfolding sample_busy_def by (rule external.message) (simp add: offer_event_def sample_connected_def)
  with r show ?thesis by (rule reachable_external)
qed

lemma channel_queue_witness:
  "length (ag_channel sample_busy) \<le> 64 \<and> ag_seen sample_busy = ag_forwarded sample_busy @ ag_channel sample_busy"
  using channel_queue[OF sample_busy_reachable] by simp

lemma served_with_token_witness:
  "filter (\<lambda>x. fst x = 0) (ag_admitted sample_busy) = [(0, ''Bearer secret'')]"
proof -
  have "0 \<in> set (ag_clients sample_busy)"
    by (simp add: sample_busy_def offer_event_def sample_connected_def)
  then show ?thesis using served_with_token[OF sample_busy_reachable, of 0] sample_token by simp
qed

end
