(* ===== verification/Proxy_Handlers.thy ===== *)
theory Proxy_Handlers
  imports Proxy_System "HOL-Library.Sublist"
begin

text \<open>
  The running server's handlers: each one is a run of \<open>handle_request\<close> on a request that a client
  sent and the gate let through, its exchanges appear in the log in their order, whatever the
  other handlers send in between, and its answer is the frame of that run. So what is known of a
  handler on its own holds of the log of the running server.
\<close>

subsection \<open>Runs of a handler\<close>

definition handled :: "json_texts \<Rightarrow> 's server \<Rightarrow> proxy_request \<Rightarrow> exchange list \<Rightarrow> bytes \<Rightarrow> bool" where
  "handled tx sv req tr f \<longleftrightarrow>
     (\<exists>s s'. run_state (handle_request tx sv req) \<lparr>exchanges = [], outside = s\<rparr> = (f, \<lparr>exchanges = tr, outside = s'\<rparr>))"

lemma handledI:
  "run_state (handle_request tx sv req) \<lparr>exchanges = [], outside = s\<rparr> = (f, w) \<Longrightarrow> handled tx sv req (exchanges w) f"
  by (cases w) (auto simp: handled_def)

definition asked_for :: "json_texts \<Rightarrow> agent \<Rightarrow> nat \<Rightarrow> proxy_request \<Rightarrow> bool" where
  "asked_for tx a c req \<longleftrightarrow> (\<exists>msg. (c, msg) \<in> set (ag_asked a) \<and> read_message tx msg = Dispatch req)"

text \<open>The exchanges behind a handler are in the log; with those before it they are a run.\<close>

definition task_ok :: "json_texts \<Rightarrow> 's server \<Rightarrow> exchange list \<Rightarrow> task \<Rightarrow> bool" where
  "task_ok tx sv log t \<longleftrightarrow>
     (case t of Pending req \<Rightarrow> True
      | Running req sent rest f \<Rightarrow> handled tx sv req (sent @ rest) f \<and> subseq sent log)"

lemma subseq_grow [intro]: "subseq xs ys \<Longrightarrow> subseq xs (ys @ [y])"
  by (metis append_Nil2 list_emb_append_mono list_emb_Nil)

lemma subseq_snoc: "subseq xs ys \<Longrightarrow> subseq (xs @ [x]) (ys @ [x])"
  by (simp add: list_emb_append_mono)

lemma task_ok_grow: "task_ok tx sv log t \<Longrightarrow> task_ok tx sv (log @ [x]) t"
  by (auto simp: task_ok_def split: task.splits)

text \<open>The invariant is kept when what is new is in order and the log and the messages only grow.\<close>

definition task_good :: "json_texts \<Rightarrow> 's server \<Rightarrow> agent \<Rightarrow> nat \<times> task \<Rightarrow> bool" where
  "task_good tx sv a h \<longleftrightarrow> task_ok tx sv (ag_log a) (snd h) \<and> asked_for tx a (fst h) (task_request (snd h))"

definition run_good :: "json_texts \<Rightarrow> 's server \<Rightarrow> agent \<Rightarrow> nat \<times> proxy_request \<times> exchange list \<times> bytes \<Rightarrow> bool" where
  "run_good tx sv a r \<longleftrightarrow>
     (case r of (c, req, tr, f) \<Rightarrow> handled tx sv req tr f \<and> subseq tr (ag_log a) \<and> asked_for tx a c req)"

definition handlers_ok :: "json_texts \<Rightarrow> 's server \<Rightarrow> agent \<Rightarrow> bool" where
  "handlers_ok tx sv a \<longleftrightarrow> Ball (set (ag_handlers a)) (task_good tx sv a) \<and> Ball (set (ag_done a)) (run_good tx sv a)"

definition extends :: "agent \<Rightarrow> agent \<Rightarrow> bool" where
  "extends b a \<longleftrightarrow> (ag_log b = ag_log a \<or> (\<exists>x. ag_log b = ag_log a @ [x])) \<and> set (ag_asked a) \<subseteq> set (ag_asked b)"

lemma asked_for_extends: "extends b a \<Longrightarrow> asked_for tx a c req \<Longrightarrow> asked_for tx b c req"
  by (auto simp: extends_def asked_for_def)

lemma task_good_extends: "extends b a \<Longrightarrow> task_good tx sv a h \<Longrightarrow> task_good tx sv b h"
  using asked_for_extends[of b a] task_ok_grow[of tx sv "ag_log a"] by (auto simp: extends_def task_good_def)

lemma run_good_extends: "extends b a \<Longrightarrow> run_good tx sv a r \<Longrightarrow> run_good tx sv b r"
  using asked_for_extends[of b a] by (auto simp: extends_def run_good_def)

lemma handlers_ok_extends:
  assumes "handlers_ok tx sv a" and "extends b a"
    and "\<And>h. h \<in> set (ag_handlers b) \<Longrightarrow> h \<in> set (ag_handlers a) \<or> task_good tx sv b h"
    and "\<And>r. r \<in> set (ag_done b) \<Longrightarrow> r \<in> set (ag_done a) \<or> run_good tx sv b r"
  shows "handlers_ok tx sv b"
  using assms task_good_extends[OF assms(2)] run_good_extends[OF assms(2)] unfolding handlers_ok_def by blast

lemma handlers_ok_nth:
  "handlers_ok tx sv a \<Longrightarrow> i < length (ag_handlers a) \<Longrightarrow> task_good tx sv a (ag_handlers a ! i)"
  by (simp add: handlers_ok_def)

lemma in_update: "x \<in> set (xs[i := y]) \<Longrightarrow> x \<in> set xs \<or> x = y"
  using set_update_subset_insert[of xs i y] by auto

lemma reachable_handlers: "reachable tx sv a \<Longrightarrow> handlers_ok tx sv a"
proof (induction rule: reachable_invariant)
  case initial
  show ?case by (simp add: handlers_ok_def start_agent_def)
next
  case (start a i c req s)
  obtain f w where r: "run_state (handle_request tx sv req) \<lparr>exchanges = [], outside = s\<rparr> = (f, w)" by fastforce
  let ?b = "start_handler tx sv i s a"
  have "task_good tx sv ?b (c, Running req [] (exchanges w) f)"
    using handledI[OF r] handlers_ok_nth[OF start(1,2)] start(3) by (simp add: task_good_def task_ok_def asked_for_def)
  then show ?case
    by (intro handlers_ok_extends[OF start(1)])
       (auto simp: extends_def start_handler_eq[OF start(3) r] dest!: in_update)
next
  case (send a i c req sent x rest f)
  have "task_good tx sv (handler_sends i a) (c, Running req (sent @ [x]) rest f)"
    using handlers_ok_nth[OF send(1,2)] send(3) subseq_snoc
    by (auto simp: task_good_def task_ok_def asked_for_def handler_sends_eq)
  then show ?case
    by (intro handlers_ok_extends[OF send(1)])
       (auto simp: extends_def handler_sends_eq[OF send(3)] dest!: in_update)
next
  case (reply a i c req sent f ok)
  have "run_good tx sv (handler_writes i ok a) (c, req, sent, f)"
    using handlers_ok_nth[OF reply(1,2)] reply(3)
    by (auto simp: task_good_def run_good_def task_ok_def asked_for_def handler_writes_eq)
  then show ?case
    using set_drop_nth[of i "ag_handlers a"]
    by (intro handlers_ok_extends[OF reply(1)]) (auto simp: extends_def handler_writes_eq[OF reply(3)])
next
  case (connect a elsewhere call b)
  then show ?case by (intro handlers_ok_extends[OF connect(1)]) (auto simp: extends_def serve_http_Inr)
next
  case (message a c msg ok)
  let ?b = "receive_message tx c msg ok a"
  have "h \<in> set (ag_handlers a) \<or> task_good tx sv ?b h" if "h \<in> set (ag_handlers ?b)" for h
  proof (cases "read_message tx msg")
    case (Dispatch req)
    have "asked_for tx ?b c req" using Dispatch by (auto simp: asked_for_def)
    with that show ?thesis
      by (auto simp: receive_message_def Dispatch task_good_def task_ok_def asked_for_def)
  qed (use that in \<open>simp add: receive_message_def\<close>)
  then show ?case by (intro handlers_ok_extends[OF message(1)]) (auto simp: extends_def)
qed (auto intro: handlers_ok_extends simp: extends_def drop_client_def close_connection_def offer_event_def)

text \<open>What a finished handler did, as a fact of a reachable state.\<close>

lemma done_handled:
  assumes "reachable tx sv a" and "(c, req, tr, f) \<in> set (ag_done a)"
  shows "handled tx sv req tr f" and "subseq tr (ag_log a)" and "asked_for tx a c req"
  using reachable_handlers[OF assms(1)] assms(2) by (auto simp: handlers_ok_def run_good_def)

subsection \<open>A handler can go to its end\<close>

text \<open>Left alone with the server, a handler sends all it has to send and writes its answer.\<close>

lemma drop_update_nth: "i < length xs \<Longrightarrow> drop_nth i (xs[i := y]) = drop_nth i xs"
  by (simp add: drop_nth_def)

lemma handler_sends_all:
  assumes "i < length (ag_handlers a)" and "ag_handlers a ! i = (c, Running req sent rest f)"
  shows "(internal tx sv)\<^sup>*\<^sup>* a
    (a\<lparr>ag_log := ag_log a @ rest, ag_handlers := (ag_handlers a)[i := (c, Running req (sent @ rest) [] f)]\<rparr>)"
  using assms
proof (induction rest arbitrary: a sent)
  case Nil
  have "(ag_handlers a)[i := (c, Running req sent [] f)] = ag_handlers a" using Nil by (metis list_update_id)
  then show ?case by simp
next
  case (Cons x rest)
  let ?b = "a\<lparr>ag_log := ag_log a @ [x], ag_handlers := (ag_handlers a)[i := (c, Running req (sent @ [x]) rest f)]\<rparr>"
  have "internal tx sv a ?b"
    using internal.send[OF Cons.prems, of tx sv] by (simp add: handler_sends_eq[OF Cons.prems(2)])
  moreover have "(internal tx sv)\<^sup>*\<^sup>* ?b
      (?b\<lparr>ag_log := ag_log ?b @ rest, ag_handlers := (ag_handlers ?b)[i := (c, Running req ((sent @ [x]) @ rest) [] f)]\<rparr>)"
    using Cons.prems(1) by (intro Cons.IH) simp_all
  ultimately show ?case by (simp add: converse_rtranclp_into_rtranclp)
qed

lemma handler_finishes:
  assumes "i < length (ag_handlers a)" and "ag_handlers a ! i = (c, Pending req)"
    and "run_state (handle_request tx sv req) \<lparr>exchanges = [], outside = s\<rparr> = (f, w)"
  shows "(internal tx sv)\<^sup>*\<^sup>* a (write_frame c (Reply f) ok
    (a\<lparr>ag_log := ag_log a @ exchanges w, ag_handlers := drop_nth i (ag_handlers a),
       ag_done := ag_done a @ [(c, req, exchanges w, f)]\<rparr>))"
proof -
  let ?b = "a\<lparr>ag_handlers := (ag_handlers a)[i := (c, Running req [] (exchanges w) f)]\<rparr>"
  let ?d = "a\<lparr>ag_log := ag_log a @ exchanges w, ag_handlers := (ag_handlers a)[i := (c, Running req (exchanges w) [] f)]\<rparr>"
  have "internal tx sv a ?b"
    using internal.start[OF assms(1,2), of tx sv s] by (simp add: start_handler_eq[OF assms(2,3)])
  moreover have "(internal tx sv)\<^sup>*\<^sup>* ?b ?d"
    using handler_sends_all[of i ?b c req "[]" "exchanges w" f tx sv] assms(1) by simp
  moreover have n: "ag_handlers ?d ! i = (c, Running req (exchanges w) [] f)" "i < length (ag_handlers ?d)"
    using assms(1) by simp_all
  have "internal tx sv ?d (handler_writes i ok ?d)" using internal.reply[OF n(2,1)] .
  ultimately have "(internal tx sv)\<^sup>*\<^sup>* a (handler_writes i ok ?d)"
    by (meson converse_rtranclp_into_rtranclp rtranclp.rtrancl_into_rtrancl)
  then show ?thesis by (simp add: handler_writes_eq[OF n(1)] drop_update_nth[OF assms(1)])
qed

end
