(* ===== verification/Proxy_Refinement.thy ===== *)
theory Proxy_Refinement
  imports Proxy_Handlers
begin

text \<open>
  The abstract service behind the running server, the simulation, and what follows from it:
  replies and messages match one to one, and the server comes to rest with everything answered.
\<close>

subsection \<open>The abstract service\<close>

text \<open>
  What the server promises its clients, without connections, handlers and channels: a message may
  be asked at any time, and every open message may be answered, in any order, with an answer the
  protocol has for it.
\<close>

definition answers :: "json_texts \<Rightarrow> 's server \<Rightarrow> round \<Rightarrow> bytes \<Rightarrow> bool" where
  "answers tx sv r f \<longleftrightarrow> (case r of Answer g \<Rightarrow> f = g | Dispatch req \<Rightarrow> \<exists>tr. handled tx sv req tr f)"

record service =
  svc_asked :: "(nat \<times> bytes) multiset"
  svc_open :: "(nat \<times> round) multiset"
  svc_answered :: "(nat \<times> bytes) multiset"

definition idle_service :: service where
  "idle_service = \<lparr>svc_asked = {#}, svc_open = {#}, svc_answered = {#}\<rparr>"

inductive serves :: "json_texts \<Rightarrow> 's server \<Rightarrow> service \<Rightarrow> service \<Rightarrow> bool"
  for tx :: json_texts and sv :: "'s server" where
  ask: "serves tx sv s (s\<lparr>svc_asked := add_mset (c, msg) (svc_asked s),
      svc_open := add_mset (c, read_message tx msg) (svc_open s)\<rparr>)"
| answer: "svc_open s = add_mset (c, r) rest \<Longrightarrow> answers tx sv r f
    \<Longrightarrow> serves tx sv s (s\<lparr>svc_open := rest, svc_answered := add_mset (c, f) (svc_answered s)\<rparr>)"

text \<open>The service a server state stands for. A reply on a dead connection counts as given.\<close>

definition replies :: "(nat \<times> frame) list \<Rightarrow> (nat \<times> bytes) multiset" where
  "replies xs = mset (List.map_filter (\<lambda>(c, f). case f of Reply b \<Rightarrow> Some (c, b) | Notice b \<Rightarrow> None) xs)"

definition open_round :: "nat \<times> task \<Rightarrow> nat \<times> round" where
  "open_round h = (fst h, Dispatch (task_request (snd h)))"

definition service_of :: "agent \<Rightarrow> service" where
  "service_of a =
     \<lparr>svc_asked = mset (ag_asked a), svc_open = image_mset open_round (mset (ag_handlers a)),
      svc_answered = replies (ag_wire a) + replies (ag_lost a)\<rparr>"

lemma replies_Nil [simp]: "replies [] = {#}"
  by (simp add: replies_def List.map_filter_def)

lemma replies_snoc [simp]:
  "replies (xs @ [(c, Reply f)]) = add_mset (c, f) (replies xs)" "replies (xs @ [(c, Notice f)]) = replies xs"
  by (simp_all add: replies_def List.map_filter_def)

lemma service_write [simp]:
  "service_of (write_frame c (Reply f) ok a) = (service_of a)\<lparr>svc_answered := add_mset (c, f) (svc_answered (service_of a))\<rparr>"
  "service_of (write_frame c (Notice f) ok a) = service_of a"
  by (simp_all add: service_of_def write_frame_def)

lemma service_idle: "service_of start_agent = idle_service"
  by (simp add: service_of_def start_agent_def idle_service_def)

subsection \<open>The simulation\<close>

text \<open>A handler that goes on does not show; one that writes answers an open message.\<close>

lemma handler_silent:
  assumes "i < length (ag_handlers a)" and "open_round (ag_handlers a ! i) = open_round h"
    and "ag_handlers b = (ag_handlers a)[i := h]" and "ag_asked b = ag_asked a"
    and "ag_wire b = ag_wire a" and "ag_lost b = ag_lost a"
  shows "service_of b = service_of a"
proof -
  have "image_mset open_round (mset (ag_handlers b)) = image_mset open_round (mset (ag_handlers a))"
    using assms(1-3) by (simp add: mset_update_nth mset_drop_nth[OF assms(1)])
  with assms(4-6) show ?thesis by (simp add: service_of_def)
qed

lemma start_silent:
  assumes "i < length (ag_handlers a)" and "ag_handlers a ! i = (c, Pending req)"
  shows "service_of (start_handler tx sv i s a) = service_of a"
proof -
  obtain f w where r: "run_state (handle_request tx sv req) \<lparr>exchanges = [], outside = s\<rparr> = (f, w)" by fastforce
  show ?thesis
    by (rule handler_silent[OF assms(1), where h = "(c, Running req [] (exchanges w) f)"])
       (use assms(2) in \<open>simp_all add: start_handler_eq[OF assms(2) r] open_round_def\<close>)
qed

lemma send_silent:
  assumes "i < length (ag_handlers a)" and "ag_handlers a ! i = (c, Running req sent (x # rest) f)"
  shows "service_of (handler_sends i a) = service_of a"
  by (rule handler_silent[OF assms(1), where h = "(c, Running req (sent @ [x]) rest f)"])
     (use assms(2) in \<open>simp_all add: handler_sends_eq[OF assms(2)] open_round_def\<close>)

lemma write_serves:
  assumes "handlers_ok tx sv a" and "i < length (ag_handlers a)" and "ag_handlers a ! i = (c, Running req sent [] f)"
  shows "serves tx sv (service_of a) (service_of (handler_writes i ok a))"
proof -
  let ?rest = "image_mset open_round (mset (drop_nth i (ag_handlers a)))"
  have "svc_open (service_of a) = add_mset (c, Dispatch req) ?rest"
    using mset_drop_nth[OF assms(2)] assms(3) by (simp add: service_of_def open_round_def)
  moreover have "answers tx sv (Dispatch req) f"
    using handlers_ok_nth[OF assms(1,2)] assms(3) by (auto simp: task_good_def task_ok_def answers_def)
  ultimately have "serves tx sv (service_of a)
      ((service_of a)\<lparr>svc_open := ?rest, svc_answered := add_mset (c, f) (svc_answered (service_of a))\<rparr>)"
    by (rule serves.answer)
  moreover have "service_of (handler_writes i ok a)
      = (service_of a)\<lparr>svc_open := ?rest, svc_answered := add_mset (c, f) (svc_answered (service_of a))\<rparr>"
    by (simp add: handler_writes_eq[OF assms(3)]) (simp add: service_of_def)
  ultimately show ?thesis by simp
qed

lemma message_serves: "(serves tx sv)\<^sup>*\<^sup>* (service_of a) (service_of (receive_message tx c msg ok a))"
proof -
  let ?s = "service_of a"
  let ?s1 = "?s\<lparr>svc_asked := add_mset (c, msg) (svc_asked ?s), svc_open := add_mset (c, read_message tx msg) (svc_open ?s)\<rparr>"
  have ask: "serves tx sv ?s ?s1" by (rule serves.ask)
  show ?thesis
  proof (cases "read_message tx msg")
    case (Answer f)
    have "serves tx sv ?s1 (?s1\<lparr>svc_open := svc_open ?s, svc_answered := add_mset (c, f) (svc_answered ?s1)\<rparr>)"
      by (rule serves.answer[where r = "Answer f"]) (simp_all add: Answer answers_def)
    moreover have "service_of (receive_message tx c msg ok a)
        = ?s1\<lparr>svc_open := svc_open ?s, svc_answered := add_mset (c, f) (svc_answered ?s1)\<rparr>"
      by (simp add: receive_message_def Answer Let_def) (simp add: service_of_def)
    ultimately show ?thesis using ask by (auto intro: rtranclp.intros)
  next
    case (Dispatch req)
    then have "service_of (receive_message tx c msg ok a) = ?s1"
      by (simp add: receive_message_def service_of_def open_round_def)
    with ask show ?thesis by auto
  qed
qed

lemma writer_silent: "service_of (run_writer i ok a) = service_of a"
proof -
  obtain c msg where w: "ag_writers a ! i = (c, msg)" by fastforce
  show ?thesis by (simp add: run_writer_def w) (simp add: service_of_def)
qed

lemma other_silent:
  "service_of (forward_event a) = service_of a" "service_of (drop_client c a) = service_of a"
  "service_of (close_connection c a) = service_of a"
  "service_of (offer_event ev a) = service_of a"
  "serve_http elsewhere sv call a = Inr b \<Longrightarrow> service_of b = service_of a"
  by (auto simp: service_of_def drop_client_def close_connection_def offer_event_def serve_http_Inr)

lemma step_simulated:
  "handlers_ok tx sv a \<Longrightarrow> server_step tx sv a b \<Longrightarrow> (serves tx sv)\<^sup>*\<^sup>* (service_of a) (service_of b)"
  unfolding server_step_def
  by (elim disjE internalE externalE)
     (auto simp: start_silent send_silent writer_silent other_silent intro: write_serves message_serves)

lemma reachable_served: "reachable tx sv a \<Longrightarrow> (serves tx sv)\<^sup>*\<^sup>* idle_service (service_of a)"
proof (induction rule: reachable.induct)
  case initial
  show ?case by (simp add: service_idle)
next
  case (step a b)
  with step_simulated[OF reachable_handlers] show ?case by (blast intro: rtranclp_trans)
qed

text \<open>
  C8. The server refines the abstract service: it starts as the idle service, and whatever happens,
  in whatever interleaving, each step of the server is a run of the service on the messages asked,
  the requests still open and the answers given. Connections that come and go, the exchanges of the
  handlers, events and failed writes do not show.
\<close>

theorem server_refines_service:
  assumes "reachable tx sv a" and "server_step tx sv a b"
  shows "service_of start_agent = idle_service \<and> (serves tx sv)\<^sup>*\<^sup>* (service_of a) (service_of b)"
  using step_simulated[OF reachable_handlers[OF assms(1)] assms(2)] service_idle by simp

definition sample_started :: agent where
  "sample_started = start_handler sample_texts sample_server 0 [answer_with 200 ''{\"metadata\":[]}''] sample_busy"

definition sample_req :: proxy_request where
  "sample_req = \<lparr>req_id = ''7'', req_method = ''GET'', req_path = ''/1.0/instances'', req_body = None\<rparr>"

lemma sample_dispatch: "read_message tx sample_read = Dispatch sample_req"
proof -
  have "snd (unmarshal (dec_struct False request_fields) sample_read zero_request) = None
      \<and> fst (unmarshal (dec_struct False request_fields) sample_read zero_request) = sample_req
      \<and> validate_proxy_request sample_req = None" by code_simp
  then show ?thesis
    by (cases "unmarshal (dec_struct False request_fields) sample_read zero_request") (simp add: read_message_def)
qed

lemma sample_pending: "ag_handlers sample_busy = [(0, Pending sample_req)]"
  by (simp add: sample_busy_def receive_message_def sample_dispatch)
     (simp add: offer_event_def sample_connected_def start_agent_def)

lemma sample_start: "internal sample_texts sample_server sample_busy sample_started"
  unfolding sample_started_def by (rule internal.start) (simp_all add: sample_pending)

lemma server_refines_service_witness:
  "(serves sample_texts sample_server)\<^sup>*\<^sup>* (service_of sample_busy) (service_of sample_started)"
  using server_refines_service[OF sample_busy_reachable] sample_start by (simp add: server_step_def)

subsection \<open>Every answer has its message\<close>

definition matching :: "json_texts \<Rightarrow> 's server \<Rightarrow> service \<Rightarrow> (nat \<times> bytes \<times> bytes) multiset \<Rightarrow> (nat \<times> bytes) multiset \<Rightarrow> bool" where
  "matching tx sv s given waiting \<longleftrightarrow>
     svc_asked s = image_mset (\<lambda>(c, m, f). (c, m)) given + waiting
     \<and> svc_answered s = image_mset (\<lambda>(c, m, f). (c, f)) given
     \<and> svc_open s = image_mset (\<lambda>(c, m). (c, read_message tx m)) waiting
     \<and> (\<forall>(c, m, f) \<in> set_mset given. answers tx sv (read_message tx m) f)"

lemma matching_step:
  assumes "serves tx sv s t" and "matching tx sv s given waiting"
  shows "\<exists>given' waiting'. matching tx sv t given' waiting'"
  using assms(1)
proof cases
  case (ask c msg)
  with assms(2) have "matching tx sv t given (add_mset (c, msg) waiting)" by (auto simp: matching_def)
  then show ?thesis by blast
next
  case (answer c r rest f)
  have "(c, r) \<in># image_mset (\<lambda>(c, m). (c, read_message tx m)) waiting"
    using assms(2) answer by (metis matching_def union_single_eq_member)
  then obtain m where m: "(c, m) \<in># waiting" "r = read_message tx m" by auto
  then obtain w' where w: "waiting = add_mset (c, m) w'" by (metis multi_member_split)
  have "matching tx sv t (add_mset (c, m, f) given) w'"
    using assms(2) answer m w by (auto simp: matching_def)
  then show ?thesis by blast
qed

lemma served_matching: "(serves tx sv)\<^sup>*\<^sup>* idle_service s \<Longrightarrow> \<exists>given waiting. matching tx sv s given waiting"
proof (induction rule: rtranclp_induct)
  case base
  have "matching tx sv idle_service {#} {#}" by (simp add: matching_def idle_service_def)
  then show ?case by blast
next
  case (step s t)
  with matching_step show ?case by blast
qed

text \<open>
  C9. Replies and messages match one to one. In every state the messages received so far split into
  those answered and those waiting: each reply, written or lost with its connection, belongs to
  exactly one message of the same connection and is an answer the server has for that message; the
  waiting messages are exactly those of the handlers still there.
\<close>

theorem replies_match_messages:
  assumes "reachable tx sv a"
  shows "\<exists>given waiting. mset (ag_asked a) = image_mset (\<lambda>(c, m, f). (c, m)) given + waiting
    \<and> replies (ag_wire a) + replies (ag_lost a) = image_mset (\<lambda>(c, m, f). (c, f)) given
    \<and> image_mset open_round (mset (ag_handlers a)) = image_mset (\<lambda>(c, m). (c, read_message tx m)) waiting
    \<and> (\<forall>(c, m, f) \<in> set_mset given. answers tx sv (read_message tx m) f)"
proof -
  obtain given waiting where "matching tx sv (service_of a) given waiting"
    using served_matching[OF reachable_served[OF assms]] by blast
  then show ?thesis
    by (intro exI[of _ given] exI[of _ waiting]) (simp add: matching_def service_of_def)
qed

lemma replies_match_messages_witness:
  "\<exists>given waiting. mset (ag_asked sample_busy) = image_mset (\<lambda>(c, m, f). (c, m)) given + waiting
    \<and> replies (ag_wire sample_busy) + replies (ag_lost sample_busy) = image_mset (\<lambda>(c, m, f). (c, f)) given"
  using replies_match_messages[OF sample_busy_reachable] by blast

end
