(* ===== verification/Proxy_Confined.thy ===== *)
theory Proxy_Confined
  imports Proxy_Refinement Lifecycle_Writes
begin

text \<open>
  What the running program sends to Incus: only permitted requests, at most five per message; every
  write in the log was asked for by a client, each message writing at most once; and a success
  that a client is told is in the log. The server comes to rest in a bounded number of steps.
\<close>

subsection \<open>The log is what the handlers sent\<close>

primrec task_sent :: "task \<Rightarrow> exchange list" where
  "task_sent (Pending req) = []"
| "task_sent (Running req sent rest f) = sent"

definition run_trace :: "nat \<times> proxy_request \<times> exchange list \<times> bytes \<Rightarrow> exchange list" where
  "run_trace r = fst (snd (snd r))"

definition traces :: "agent \<Rightarrow> exchange list multiset" where
  "traces a = image_mset run_trace (mset (ag_done a)) + image_mset (task_sent \<circ> snd) (mset (ag_handlers a))"

lemma handlers_replaced:
  assumes "i < length (ag_handlers a)"
  shows "image_mset g (mset ((ag_handlers a)[i := h])) = add_mset (g h) (image_mset g (mset (drop_nth i (ag_handlers a))))"
    and "image_mset g (mset (ag_handlers a)) = add_mset (g (ag_handlers a ! i)) (image_mset g (mset (drop_nth i (ag_handlers a))))"
  using assms by (simp_all add: mset_update_nth mset_drop_nth[OF assms])

lemma reachable_log:
  assumes "reachable tx sv a"
  shows "mset (ag_log a) = (\<Sum>tr \<in># traces a. mset tr) \<and> size (traces a) \<le> length (ag_asked a)"
  using assms
proof (induction rule: reachable_invariant)
  case initial
  show ?case by (simp add: start_agent_def traces_def)
next
  case (start a i c req s)
  obtain f w where r: "run_state (handle_request tx sv req) \<lparr>exchanges = [], outside = s\<rparr> = (f, w)" by fastforce
  have "traces (start_handler tx sv i s a) = traces a"
    using start(3) by (simp add: traces_def start_handler_eq[OF start(3) r] handlers_replaced[OF start(2)])
  with start(1) show ?case by simp
next
  case (send a i c req sent x rest f)
  let ?others = "image_mset run_trace (mset (ag_done a))
    + image_mset (task_sent \<circ> snd) (mset (drop_nth i (ag_handlers a)))"
  have "traces (handler_sends i a) = add_mset (sent @ [x]) ?others" "traces a = add_mset sent ?others"
    using send(3) by (simp_all add: traces_def handler_sends_eq[OF send(3)] handlers_replaced[OF send(2)])
  with send(1) show ?case by (simp add: handler_sends_eq[OF send(3)])
next
  case (reply a i c req sent f ok)
  have "traces (handler_writes i ok a) = traces a"
    using reply(3) by (simp add: traces_def handler_writes_eq[OF reply(3)] handlers_replaced(2)[OF reply(2)] run_trace_def)
  moreover have "ag_log (handler_writes i ok a) = ag_log a" by (simp add: handler_writes_eq[OF reply(3)])
  ultimately show ?case using reply(1) by simp
next
  case (connect a elsewhere call b)
  then show ?case by (auto simp: serve_http_Inr traces_def)
next
  case (message a c msg ok)
  then show ?case
    by (cases "read_message tx msg")
       (simp_all add: receive_message_def traces_def)
qed (simp_all add: traces_def drop_client_def close_connection_def offer_event_def)

text \<open>A trace in the log is the beginning of a run on a request that was asked.\<close>

lemma trace_handled:
  assumes "reachable tx sv a" and "tr \<in># traces a"
  obtains c req rest f where "handled tx sv req (tr @ rest) f \<or> tr = []" "asked_for tx a c req"
proof -
  have ok: "handlers_ok tx sv a" using assms(1) by (rule reachable_handlers)
  from assms(2) consider r where "r \<in> set (ag_done a)" "tr = run_trace r"
    | h where "h \<in> set (ag_handlers a)" "tr = task_sent (snd h)"
    by (auto simp: traces_def)
  then show thesis
  proof cases
    case 1
    obtain c req t f where r: "r = (c, req, t, f)" by (metis prod_cases4)
    with ok 1 have "handled tx sv req tr f" "asked_for tx a c req"
      by (auto simp: handlers_ok_def run_good_def run_trace_def)
    then show thesis using that[of req "[]" f c] by simp
  next
    case 2
    then have g: "task_good tx sv a h" using ok by (simp add: handlers_ok_def)
    show thesis
    proof (cases "snd h")
      case (Running req sent rest f)
      with g 2 have "handled tx sv req (tr @ rest) f" "asked_for tx a (fst h) req"
        by (auto simp: task_good_def task_ok_def)
      then show thesis using that by blast
    qed (use g 2 that in \<open>auto simp: task_good_def\<close>)
  qed
qed

lemma log_in_trace:
  assumes "reachable tx sv a" and "x \<in> set (ag_log a)"
  obtains c req tr rest f where "handled tx sv req (tr @ rest) f" "x \<in> set tr" "asked_for tx a c req"
proof -
  have "x \<in># (\<Sum>tr \<in># traces a. mset tr)" using reachable_log[OF assms(1)] assms(2) by (metis set_mset_mset)
  then obtain tr where "tr \<in># traces a" "x \<in> set tr" by auto
  with trace_handled[OF assms(1), of tr] that show thesis by (metis empty_iff empty_set)
qed

subsection \<open>Counting over traces\<close>

lemma size_sum_bound:
  "(\<And>tr. tr \<in># M \<Longrightarrow> size (filter_mset P (mset tr)) \<le> n) \<Longrightarrow> size (filter_mset P (\<Sum>tr \<in># M. mset tr)) \<le> n * size M"
proof (induction M)
  case (add tr M)
  then have "size (filter_mset P (mset tr)) \<le> n" "size (filter_mset P (\<Sum>tr \<in># M. mset tr)) \<le> n * size M" by simp_all
  then show ?case by simp
qed simp

lemma log_bound:
  assumes "reachable tx sv a" and "\<And>c req tr rest f. handled tx sv req (tr @ rest) f \<Longrightarrow> asked_for tx a c req
    \<Longrightarrow> size (filter_mset P (mset tr)) \<le> n"
  shows "length (filter P (ag_log a)) \<le> n * length (ag_asked a)"
proof -
  have "size (filter_mset P (mset tr)) \<le> n" if "tr \<in># traces a" for tr
  proof (cases "tr = []")
    case False
    with trace_handled[OF assms(1) that] assms(2) show ?thesis by metis
  qed simp
  from size_sum_bound[OF this] have "size (filter_mset P (mset (ag_log a))) \<le> n * size (traces a)"
    using reachable_log[OF assms(1)] by simp
  also have "\<dots> \<le> n * length (ag_asked a)" using reachable_log[OF assms(1)] by simp
  finally show ?thesis by (simp flip: mset_filter)
qed

subsection \<open>Confinement\<close>

lemma asked_connection: "asked_for tx a c req \<Longrightarrow> c \<in> connections a"
  unfolding asked_for_def connections_def by (metis UnCI fst_conv image_eqI)

context confined_services
begin

lemma handled_permitted:
  assumes "read_message tx msg = Dispatch req" and "handled tx sv req tr f"
  shows "(\<forall>x \<in> set tr. permitted (fst x)) \<and> length tr \<le> 5"
proof -
  have s: "sends permitted 5 (handle_request tx sv req)"
    using message_sends_permitted[of tx msg] assms(1) by (simp add: serve_message_def)
  obtain s0 s' where r: "run_state (handle_request tx sv req) \<lparr>exchanges = [], outside = s0\<rparr> = (f, \<lparr>exchanges = tr, outside = s'\<rparr>)"
    using assms(2) by (auto simp: handled_def)
  show ?thesis using s[unfolded sends_def, rule_format, of "\<lparr>exchanges = [], outside = s0\<rparr>"] r by auto
qed

lemma asked_handled_permitted:
  "handled tx sv req tr f \<Longrightarrow> asked_for tx a c req \<Longrightarrow> (\<forall>x \<in> set tr. permitted (fst x)) \<and> length tr \<le> 5"
  using handled_permitted unfolding asked_for_def by blast

lemma reachable_confined:
  assumes "reachable tx sv a"
  shows "(\<forall>x \<in> set (ag_log a). permitted (fst x)) \<and> length (ag_log a) \<le> 5 * length (ag_asked a)"
proof
  show "\<forall>x \<in> set (ag_log a). permitted (fst x)"
  proof
    fix x assume "x \<in> set (ag_log a)"
    from log_in_trace[OF assms this] show "permitted (fst x)"
      using asked_handled_permitted by (metis Un_iff set_append)
  qed
  have "size (filter_mset (\<lambda>x. True) (mset tr)) \<le> 5" if "handled tx sv req (tr @ rest) f" "asked_for tx a c req"
    for c req tr rest f
    using asked_handled_permitted[OF that] by simp
  from log_bound[OF assms this] show "length (ag_log a) \<le> 5 * length (ag_asked a)" by simp
qed

end

context accountable_services
begin

lemma handled_once:
  assumes "asked_for tx a c req" and "handled tx sv req tr f"
  shows "once is_read (wanted_write (req_method req) (req_path req) (req_body req)) tr"
proof -
  obtain msg where "read_message tx msg = Dispatch req" using assms(1) by (auto simp: asked_for_def)
  from request_writes_once[OF this] have s:
    "writes_once is_read (wanted_write (req_method req) (req_path req) (req_body req)) (handle_request tx sv req)" .
  obtain s0 s' where r: "run_state (handle_request tx sv req) \<lparr>exchanges = [], outside = s0\<rparr> = (f, \<lparr>exchanges = tr, outside = s'\<rparr>)"
    using assms(2) by (auto simp: handled_def)
  show ?thesis using s[unfolded writes_once_def, rule_format, of "\<lparr>exchanges = [], outside = s0\<rparr>"] r by auto
qed

lemma once_count: "once is_read W tr \<Longrightarrow> length (filter (\<lambda>x. \<not> is_read (fst x)) tr) \<le> 1"
  by (erule once.cases) (auto simp: filter_empty_conv)

lemma reachable_writes:
  assumes "reachable tx sv a"
  shows "(\<forall>x \<in> set (ag_log a). \<not> is_read (fst x) \<longrightarrow>
        (\<exists>c req. asked_for tx a c req \<and> wanted_write (req_method req) (req_path req) (req_body req) (fst x)))
    \<and> length (filter (\<lambda>x. \<not> is_read (fst x)) (ag_log a)) \<le> length (ag_asked a)"
proof
  show "\<forall>x \<in> set (ag_log a). \<not> is_read (fst x) \<longrightarrow>
        (\<exists>c req. asked_for tx a c req \<and> wanted_write (req_method req) (req_path req) (req_body req) (fst x))"
  proof (intro ballI impI)
    fix x assume x: "x \<in> set (ag_log a)" and w: "\<not> is_read (fst x)"
    from log_in_trace[OF assms x] obtain c req tr rest f where
      h: "handled tx sv req (tr @ rest) f" "x \<in> set (tr @ rest)" "asked_for tx a c req" by (metis Un_iff set_append)
    from once_mem[OF handled_once[OF h(3,1)] h(2)] w h(3)
    show "\<exists>c req. asked_for tx a c req \<and> wanted_write (req_method req) (req_path req) (req_body req) (fst x)" by blast
  qed
  have "size (filter_mset (\<lambda>x. \<not> is_read (fst x)) (mset tr)) \<le> 1"
    if "handled tx sv req (tr @ rest) f" "asked_for tx a c req" for c req tr rest f
    using once_count[OF handled_once[OF that(2,1)]] by (simp flip: mset_filter)
  from log_bound[OF assms this] show "length (filter (\<lambda>x. \<not> is_read (fst x)) (ag_log a)) \<le> length (ag_asked a)" by simp
qed

end

text \<open>
  C1. The program is confined. Whatever \<^verbatim>\<open>main\<close> started with, whatever clients connect and send and
  however the exchanges of the handlers interleave: every request the program ever sends to Incus is
  a permitted one (an allowlisted read of a client, an allowlisted lifecycle request or a fixed read
  of a report), and it sends at most five per message it received, none before it serves.
\<close>

theorem agent_confined:
  assumes "run_state (agent_main mc) w = (Inr (cfg, sv), w')" and "reachable tx sv a"
  shows "exchanges w' = exchanges w \<and> (\<forall>x \<in> set (ag_log a). permitted (fst x))
    \<and> length (ag_log a) \<le> 5 * length (ag_asked a)"
proof -
  obtain identity started where "sv = wired_server mc cfg identity started" "exchanges w' = exchanges w"
    using agent_main_wires[OF assms(1)] by metis
  with wired.reachable_confined assms(2) show ?thesis by metis
qed

text \<open>
  A run of the sample machine's server: a client asks for the deletion of an instance. Incus does not
  answer, but the request goes out.
\<close>

definition sample_boot :: "(main_error + config \<times> bytes go_map server) \<times> bytes go_map world" where
  "sample_boot = run_state (agent_main sample_machine) \<lparr>exchanges = [], outside = []\<rparr>"

definition sample_delete_message :: bytes where
  "sample_delete_message = ''{\"id\":\"9\",\"method\":\"POST\",\"path\":\"/agent/v1/lifecycle/instances/vm-1/delete\",\"body\":{\"confirm\":true}}''"

definition sample_delete_request :: proxy_request where
  "sample_delete_request = \<lparr>req_id = ''9'', req_method = ''POST'', req_path = sample_delete_path, req_body = Some sample_delete\<rparr>"

definition sample_vm_delete :: proxy_request where
  "sample_vm_delete = plain_request ''DELETE'' ''/1.0/instances/vm-1''"

lemma sample_delete_dispatch: "read_message tx sample_delete_message = Dispatch sample_delete_request"
proof -
  have "unmarshal (dec_struct False request_fields) sample_delete_message zero_request = (sample_delete_request, None)
      \<and> validate_proxy_request sample_delete_request = None" by code_simp
  then show ?thesis by (simp add: read_message_def)
qed

lemma sample_delete_sends:
  assumes "sv_lifecycle sv = Some (lifecycle_of (new_unix_client sample_machine socket))"
  shows "map fst (exchanges (snd (run_state (handle_request tx sv sample_delete_request) \<lparr>exchanges = [], outside = s\<rparr>)))
    = [sample_vm_delete]"
proof -
  let ?run = "run_state (handle_lifecycle (new_unix_client sample_machine socket) ''POST'' sample_delete_path (Some sample_delete))
      \<lparr>exchanges = [], outside = s\<rparr>"
  have "map fst (exchanges (snd ?run)) = [sample_vm_delete]" by code_simp
  moreover obtain res w where "?run = (res, w)" by fastforce
  moreover have "is_agent_request sample_delete_path" "has_prefix sample_delete_path ''/agent/v1/lifecycle/''"
    "sample_delete_path \<noteq> ''/agent/v1/lifecycle/capabilities''" by code_simp+
  ultimately show ?thesis
    using assms
    by (cases "res_err res")
       (simp_all add: handle_request_def handle_agent_request_def server_handle_lifecycle_def sample_delete_request_def
         lifecycle_of_def run_state_bind respond_def)
qed

lemma message_served:
  assumes "sv_auth_token sv = ''secret''" and "read_message tx msg = Dispatch req"
    and "run_state (handle_request tx sv req) \<lparr>exchanges = [], outside = s\<rparr> = (f, w)"
  obtains a where "reachable tx sv a" "ag_log a = exchanges w" "ag_done a = [(0, req, exchanges w, f)]"
    "ag_asked a = [(0, msg)]"
proof -
  let ?a = "receive_message tx 0 msg True sample_connected"
  have "external tx sv sample_connected ?a" by (rule external.message) (simp add: sample_connected_def)
  then have r: "reachable tx sv ?a" by (rule reachable_external[OF connected_reachable[OF assms(1)]])
  have h: "ag_handlers ?a = [(0, Pending req)]"
    by (simp add: receive_message_def assms(2)) (simp add: sample_connected_def start_agent_def)
  let ?b = "write_frame 0 (Reply f) True (?a\<lparr>ag_log := ag_log ?a @ exchanges w,
      ag_handlers := drop_nth 0 (ag_handlers ?a), ag_done := ag_done ?a @ [(0, req, exchanges w, f)]\<rparr>)"
  have "(internal tx sv)\<^sup>*\<^sup>* ?a ?b" using handler_finishes[of 0 ?a, OF _ _ assms(3)] h by simp
  then have "reachable tx sv ?b" using r by (rule reachable_internals)
  moreover have "ag_log sample_connected = []" "ag_asked sample_connected = []" "ag_done sample_connected = []"
    by (simp_all add: sample_connected_def start_agent_def)
  ultimately show thesis using that[of ?b] by simp
qed

lemma sample_boots:
  obtains sv w' a where "sample_boot = (Inr (sample_config, sv), w')" "reachable tx sv a"
    "map fst (ag_log a) = [sample_vm_delete]" "ag_asked a = [(0, sample_delete_message)]"
proof -
  obtain sv w' where m: "run_state (agent_main sample_machine) \<lparr>exchanges = [], outside = []\<rparr> = (Inr (sample_config, sv), w')"
    by (rule sample_main)
  obtain identity started where sv: "sv = wired_server sample_machine sample_config identity started"
    using agent_main_wires[OF m] by metis
  then have t: "sv_auth_token sv = ''secret''" by (simp add: wired_server_def sample_config_def)
  obtain f w where run: "run_state (handle_request tx sv sample_delete_request) \<lparr>exchanges = [], outside = []\<rparr> = (f, w)" by fastforce
  have "map fst (exchanges w) = [sample_vm_delete]"
    using sample_delete_sends[of sv "cfg_incus_socket sample_config" tx "[]"] run by (simp add: sv wired_server_def)
  with message_served[OF t sample_delete_dispatch run] m that show thesis by (metis sample_boot_def)
qed

lemma agent_confined_witness:
  "\<exists>sv w'. \<exists>a :: agent. sample_boot = (Inr (sample_config, sv), w') \<and> map fst (ag_log a) = [sample_vm_delete] \<and> permitted sample_vm_delete"
proof -
  obtain sv w' a where b: "sample_boot = (Inr (sample_config, sv), w')" "reachable sample_texts sv a"
    "map fst (ag_log a) = [sample_vm_delete]" by (rule sample_boots)
  from agent_confined[OF b(1)[unfolded sample_boot_def] b(2)] have "\<forall>x \<in> set (ag_log a). permitted (fst x)" by blast
  moreover have "sample_vm_delete \<in> set (map fst (ag_log a))" by (simp add: b(3))
  ultimately have "permitted sample_vm_delete" by auto
  then show ?thesis
    by (intro exI[of _ sv] exI[of _ w'] exI[of _ a] conjI b)
qed

text \<open>
  C2. Every write was asked for. Each request in the log that is not a read is the one write of a
  lifecycle request that a client sent, of its action, on its instance, with the body its own body
  decodes to (for a delete: with the confirmation); that client came in with the token, when there
  is one; and there are at most as many writes as messages.
\<close>

theorem writes_were_asked:
  assumes "run_state (agent_main mc) w = (Inr (cfg, sv), w')" and "reachable tx sv a"
  shows "(\<forall>x \<in> set (ag_log a). \<not> is_read (fst x) \<longrightarrow>
        (\<exists>c req. asked_for tx a c req \<and> wanted_write (req_method req) (req_path req) (req_body req) (fst x)
           \<and> (cfg_auth_token cfg \<noteq> [] \<longrightarrow> (c, ''Bearer '' @ cfg_auth_token cfg) \<in> set (ag_admitted a))))
    \<and> length (filter (\<lambda>x. \<not> is_read (fst x)) (ag_log a)) \<le> length (ag_asked a)"
proof -
  obtain identity started where sv: "sv = wired_server mc cfg identity started"
    using agent_main_wires[OF assms(1)] by metis
  then have t: "sv_auth_token sv = cfg_auth_token cfg" by (simp add: wired_server_def)
  have "(c, ''Bearer '' @ cfg_auth_token cfg) \<in> set (ag_admitted a)"
    if "asked_for tx a c req" "cfg_auth_token cfg \<noteq> []" for c req
  proof -
    have "c \<in> connections a" using that(1) by (rule asked_connection)
    from known_header[OF assms(2) _ this] that(2) t show ?thesis by simp
  qed
  with wired.reachable_writes[OF assms(2)[unfolded sv]] show ?thesis by blast
qed

lemma writes_were_asked_witness:
  "\<exists>sv w' c req. \<exists>a :: agent. sample_boot = (Inr (sample_config, sv), w') \<and> map fst (ag_log a) = [sample_vm_delete]
    \<and> asked_for sample_texts a c req \<and> wanted_write (req_method req) (req_path req) (req_body req) sample_vm_delete
    \<and> (c, ''Bearer secret'') \<in> set (ag_admitted a)"
proof -
  obtain sv w' a where b: "sample_boot = (Inr (sample_config, sv), w')" "reachable sample_texts sv a"
    "map fst (ag_log a) = [sample_vm_delete]" by (rule sample_boots)
  obtain r where l: "ag_log a = [(sample_vm_delete, r)]" using b(3) by auto
  have "\<not> is_read sample_vm_delete" by (simp add: is_read_def sample_vm_delete_def plain_request_def)
  moreover have "cfg_auth_token sample_config = ''secret''" by (simp add: sample_config_def)
  ultimately obtain c req where "asked_for sample_texts a c req"
    "wanted_write (req_method req) (req_path req) (req_body req) sample_vm_delete" "(c, ''Bearer secret'') \<in> set (ag_admitted a)"
    using writes_were_asked[OF b(1)[unfolded sample_boot_def] b(2)] l by auto
  then show ?thesis
    by (intro exI[of _ sv] exI[of _ w'] exI[of _ c] exI[of _ req] exI[of _ a] conjI b)
qed

subsection \<open>The server drains\<close>

text \<open>
  Left to itself, the server has only so much to do: a bound on the steps it can still take. A handler
  has a start, at most five exchanges and a write before it.
\<close>

primrec task_work :: "task \<Rightarrow> nat" where
  "task_work (Pending req) = 7"
| "task_work (Running req sent rest f) = Suc (length rest)"

definition work :: "agent \<Rightarrow> nat" where
  "work a = (\<Sum>h \<in># mset (ag_handlers a). task_work (snd h))
     + length (ag_channel a) * Suc (length (ag_clients a)) + length (ag_writers a)"

definition quiet :: "agent \<Rightarrow> bool" where
  "quiet a \<longleftrightarrow> ag_handlers a = [] \<and> ag_channel a = [] \<and> ag_writers a = []"

lemma handlers_work:
  assumes "i < length (ag_handlers a)"
  shows "(\<Sum>h \<in># mset ((ag_handlers a)[i := (c, t)]). task_work (snd h))
      = task_work t + (\<Sum>h \<in># mset (drop_nth i (ag_handlers a)). task_work (snd h))"
    and "(\<Sum>h \<in># mset (ag_handlers a). task_work (snd h))
      = task_work (snd (ag_handlers a ! i)) + (\<Sum>h \<in># mset (drop_nth i (ag_handlers a)). task_work (snd h))"
  using assms by (simp_all add: mset_update_nth mset_drop_nth[OF assms])

lemma forward_work:
  assumes "ag_channel a \<noteq> []"
  shows "work (forward_event a) < work a"
proof -
  obtain ev evs where c: "ag_channel a = ev # evs" using assms by (cases "ag_channel a") auto
  then have "length (ag_writers (forward_event a)) \<le> length (ag_writers a) + length (ag_clients a)"
    "ag_channel (forward_event a) = evs"
    by (simp_all add: forward_event_def broadcast_event_def split: option.split)
  then show ?thesis using c by (simp add: work_def)
qed

lemma stuck_iff_quiet: "(\<nexists>b. internal tx sv a b) \<longleftrightarrow> quiet a"
proof
  assume stuck: "\<nexists>b. internal tx sv a b"
  have "ag_handlers a = []"
  proof (rule ccontr)
    assume "ag_handlers a \<noteq> []"
    then have "0 < length (ag_handlers a)" by simp
    moreover obtain c t where "ag_handlers a ! 0 = (c, t)" by fastforce
    moreover have "(\<exists>req. t = Pending req) \<or> (\<exists>req sent f. t = Running req sent [] f)
        \<or> (\<exists>req sent x rest f. t = Running req sent (x # rest) f)"
      by (metis list.exhaust task.exhaust)
    ultimately show False using stuck internal.start internal.send internal.reply by metis
  qed
  moreover have "ag_writers a = []" using stuck internal.notify by (metis length_greater_0_conv)
  moreover have "ag_channel a = []" using stuck internal.forward by metis
  ultimately show "quiet a" by (simp add: quiet_def)
qed (auto simp: quiet_def elim: internalE)

context confined_services
begin

lemma internal_work:
  assumes "handlers_ok tx sv a" and "internal tx sv a b"
  shows "work b < work a"
  using assms(2)
proof cases
  case (start i c req s)
  obtain f w where r: "run_state (handle_request tx sv req) \<lparr>exchanges = [], outside = s\<rparr> = (f, w)" by fastforce
  have "asked_for tx a c req" using handlers_ok_nth[OF assms(1) start(2)] start(3) by (simp add: task_good_def)
  then have "length (exchanges w) \<le> 5" using asked_handled_permitted[OF handledI[OF r]] by blast
  then show ?thesis
    using start by (simp add: work_def start_handler_eq[OF start(3) r] handlers_work)
next
  case (send i c req sent x rest f)
  then show ?thesis by (simp add: work_def handler_sends_eq handlers_work)
next
  case (reply i c req sent f ok)
  then show ?thesis by (simp add: work_def handler_writes_eq handlers_work(2))
next
  case forward
  then show ?thesis by (simp add: forward_work)
next
  case (notify i ok)
  then show ?thesis by (simp add: work_def)
qed

lemma internal_steps_work: "reachable tx sv a \<Longrightarrow> (internal tx sv ^^ n) a b \<Longrightarrow> reachable tx sv b \<and> n + work b \<le> work a"
proof (induction n arbitrary: b)
  case (Suc n)
  then obtain c where c: "(internal tx sv ^^ n) a c" "internal tx sv c b" by auto
  then have "reachable tx sv c" "n + work c \<le> work a" using Suc by auto
  with c(2) internal_work[OF reachable_handlers] reachable_internal show ?case by fastforce
qed simp

lemma drains: "reachable tx sv a \<Longrightarrow> \<exists>b. (internal tx sv)\<^sup>*\<^sup>* a b \<and> quiet b"
proof (induction "work a" arbitrary: a rule: less_induct)
  case less
  show ?case
  proof (cases "quiet a")
    case False
    then obtain c where c: "internal tx sv a c" using stuck_iff_quiet by blast
    with less.prems have "work c < work a" "reachable tx sv c"
      using internal_work[OF reachable_handlers] reachable_internal by auto
    with less.hyps c show ?thesis by (blast intro: converse_rtranclp_into_rtranclp)
  qed blast
qed

end

lemma internal_asked: "(internal tx sv)\<^sup>*\<^sup>* a b \<Longrightarrow> ag_asked b = ag_asked a"
  by (induction rule: rtranclp_induct) (auto elim!: internalE)

lemma quiet_answered:
  assumes "reachable tx sv b" and "quiet b"
  shows "size (replies (ag_wire b) + replies (ag_lost b)) = length (ag_asked b)"
proof -
  obtain given waiting where m: "matching tx sv (service_of b) given waiting"
    using served_matching[OF reachable_served[OF assms(1)]] by blast
  then have "waiting = {#}" using assms(2) by (simp add: matching_def service_of_def quiet_def)
  with m have "mset (ag_asked b) = image_mset (\<lambda>(c, m, f). (c, m)) given"
    "replies (ag_wire b) + replies (ag_lost b) = image_mset (\<lambda>(c, m, f). (c, f)) given"
    by (simp_all add: matching_def service_of_def)
  then have "size (mset (ag_asked b)) = size given"
    "size (replies (ag_wire b) + replies (ag_lost b)) = size given" by (simp_all only: size_image_mset)
  then show ?thesis by simp
qed

text \<open>
  C11. Every message is answered. From any reachable state of the server that \<^verbatim>\<open>main\<close> starts, when no
  more messages, events and connections come, the server takes a bounded number of steps, in any
  order; where it can take no further step no handler, event or writer is left, and there are as
  many replies as messages were received; and such a state is always reached.
\<close>

theorem server_drains:
  assumes "run_state (agent_main mc) w = (Inr (cfg, sv), w')" and "reachable tx sv a"
  shows "(\<forall>n b. (internal tx sv ^^ n) a b \<longrightarrow> n \<le> work a)
    \<and> (\<forall>b. (internal tx sv)\<^sup>*\<^sup>* a b \<and> (\<nexists>c. internal tx sv b c) \<longrightarrow>
          quiet b \<and> size (replies (ag_wire b) + replies (ag_lost b)) = length (ag_asked a))
    \<and> (\<exists>b. (internal tx sv)\<^sup>*\<^sup>* a b \<and> quiet b)"
proof -
  obtain identity started where sv: "sv = wired_server mc cfg identity started"
    using agent_main_wires[OF assms(1)] by metis
  note r = assms(2)[unfolded sv]
  have "n \<le> work a" if "(internal tx sv ^^ n) a b" for n b
    using wired.internal_steps_work[OF r that[unfolded sv]] by simp
  moreover have "quiet b \<and> size (replies (ag_wire b) + replies (ag_lost b)) = length (ag_asked a)"
    if "(internal tx sv)\<^sup>*\<^sup>* a b" "\<nexists>c. internal tx sv b c" for b
    using that reachable_internals[OF that(1) assms(2)] stuck_iff_quiet[of tx sv b] quiet_answered internal_asked by metis
  moreover have "\<exists>b. (internal tx sv)\<^sup>*\<^sup>* a b \<and> quiet b"
    using wired.drains[OF r] by (simp add: sv)
  ultimately show ?thesis by blast
qed

lemma server_drains_witness:
  "\<exists>sv w'. \<exists>a :: agent. sample_boot = (Inr (sample_config, sv), w') \<and> ag_asked a = [(0, sample_delete_message)]
    \<and> (\<exists>b. (internal sample_texts sv)\<^sup>*\<^sup>* a b \<and> quiet b)"
proof -
  obtain sv w' a where b: "sample_boot = (Inr (sample_config, sv), w')" "reachable sample_texts sv a"
    "ag_asked a = [(0, sample_delete_message)]" by (rule sample_boots)
  from server_drains[OF b(1)[unfolded sample_boot_def] b(2)]
  have q: "\<exists>b. (internal sample_texts sv)\<^sup>*\<^sup>* a b \<and> quiet b" by blast
  show ?thesis by (rule exI[of _ sv], rule exI[of _ w'], rule exI[of _ a]) (intro conjI b q)
qed

end
