(* ===== verification/Proxy_Truthful.thy ===== *)
theory Proxy_Truthful
  imports Proxy_Confined
begin

text \<open>
  What an answer without an error is worth: the exchanges that make it true are in the log of the
  running server.
\<close>

subsection \<open>A success that is told is in the log\<close>

lemma error_has_message:
  assumes "safe_error e"
  shows "err_message e \<noteq> []"
proof -
  have "list_all (\<lambda>m. snd m \<noteq> []) lifecycle_errors" by code_simp
  with assms show ?thesis by (auto simp: safe_error_def list_all_iff)
qed

lemma error_answer_differs: "message \<noteq> [] \<Longrightarrow> json_answer i status v message \<noteq> json_answer i' status' v' []"
  by (simp add: json_answer_def jobj_def)

text \<open>On a lifecycle path, an answer without an error member is that of a result without an error.\<close>

lemma answered_without_error:
  assumes "sv_lifecycle sv = Some (lifecycle_of env)" and "handled tx sv req tr f"
    and "has_prefix (req_path req) ''/agent/v1/lifecycle/''" and "req_path req \<noteq> ''/agent/v1/lifecycle/capabilities''"
    and "map_option plain (read_document f) = Some (json_answer i status v [])"
  obtains s res w where "run_state (handle_lifecycle env (req_method req) (req_path req) (req_body req))
      \<lparr>exchanges = [], outside = s\<rparr> = (res, w)" "res_err res = None" "exchanges w = tr"
proof -
  obtain s s' where run: "run_state (handle_request tx sv req) \<lparr>exchanges = [], outside = s\<rparr> = (f, \<lparr>exchanges = tr, outside = s'\<rparr>)"
    using assms(2) by (auto simp: handled_def)
  obtain res w where h: "run_state (handle_lifecycle env (req_method req) (req_path req) (req_body req))
      \<lparr>exchanges = [], outside = s\<rparr> = (res, w)" by fastforce
  obtain rest where p: "req_path req = ''/agent/v1/lifecycle/'' @ rest" using assms(3) by (auto simp: has_prefix_iff)
  have "is_agent_request (req_path req)" by (simp add: p is_agent_request_iff agent_path_def has_prefix_def)
  then have run': "run_state (server_handle_lifecycle tx sv req) \<lparr>exchanges = [], outside = s\<rparr> = (f, \<lparr>exchanges = tr, outside = s'\<rparr>)"
    using run assms(3) by (simp add: handle_request_def handle_agent_request_def)
  show thesis
  proof (cases "res_err res")
    case None
    with run' h assms(1,4) have "exchanges w = tr"
      by (simp add: server_handle_lifecycle_def lifecycle_of_def run_state_bind respond_def)
    with h None that show thesis by blast
  next
    case (Some e)
    have "failed res \<or> succeeded res" using givesD[OF handle_lifecycle_outcome h] .
    with Some have "safe_error e" by (auto simp: failed_def succeeded_def)
    then have m: "err_message e \<noteq> []" by (rule error_has_message)
    have "f = write_response tx (req_id req) (Some (failure (req_id req) (err_status e) (err_message e)))"
      using run' h Some assms(1,4)
      by (simp add: server_handle_lifecycle_def lifecycle_of_def run_state_bind respond_def)
    then have "map_option plain (read_document f) = Some (json_answer (req_id req) (err_status e) JNull (err_message e))"
      using write_response_value[of "Some (failure (req_id req) (err_status e) (err_message e))" tx "req_id req"]
      by (simp add: answer_value_def failure_def readable_def shallow_def body_value_def)
    with assms(5) error_answer_differs[OF m] show thesis by simp
  qed
qed

text \<open>
  C3. A client that is told of a success can rely on it. When the running server has answered a
  create without an error, then in the log, in this order and with whatever else in between, Incus
  answered the read of the default profile with a success, then the POST of exactly the request the
  client's body decodes to, on the root disk of that profile, with a success; an asynchronous
  operation was waited for until its terminal status was a success, and the instance was read back.
\<close>

theorem create_truthful:
  assumes "reachable tx sv a" and "sv_lifecycle sv = Some (lifecycle_of env)"
    and "(c, req, tr, f) \<in> set (ag_done a)" and "req_path req = path_create"
    and "map_option plain (read_document f) = Some (json_answer i status v [])"
  shows "asked_for tx a c req \<and> subseq tr (ag_log a) \<and> (\<exists>create disk p rest res.
    decode_create (req_body req) = Inr create \<and> validate_create create = None
    \<and> tr = (profile_request, Some p) # rest \<and> is_success (resp_status p) \<and> root_disk_from_profile (Some p) = Inr disk
    \<and> performed Create (cr_name create)
        \<lparr>req_id = [], req_method = ''POST'', req_path = ''/1.0/instances'',
         req_body = Some (create_body create disk)\<rparr> rest res)"
proof -
  have d: "handled tx sv req tr f" "subseq tr (ag_log a)" "asked_for tx a c req"
    using done_handled[OF assms(1,3)] .
  have "has_prefix path_create ''/agent/v1/lifecycle/''" "path_create \<noteq> ''/agent/v1/lifecycle/capabilities''" by code_simp+
  then obtain s res w where h: "run_state (handle_lifecycle env (req_method req) path_create (req_body req))
      \<lparr>exchanges = [], outside = s\<rparr> = (res, w)" "res_err res = None" "exchanges w = tr"
    using answered_without_error[OF assms(2) d(1) _ _ assms(5)] assms(4) by metis
  from create_success[OF h(1,2)] h(3) d(2,3) show ?thesis by auto
qed

text \<open>The same for a start, a stop, a restart and a delete.\<close>

lemma change_route:
  assumes "parse_lifecycle_path p = Some route" and "route_action route \<noteq> Create"
  shows "has_prefix p ''/agent/v1/lifecycle/''" and "p \<noteq> ''/agent/v1/lifecycle/capabilities''"
proof -
  have "has_prefix p path_instances" using assms by (auto simp: parse_lifecycle_path_def split: if_splits)
  then obtain rest where p: "p = ''/agent/v1/lifecycle/instances/'' @ rest" by (auto simp: has_prefix_iff path_instances_def)
  then show "has_prefix p ''/agent/v1/lifecycle/''" "p \<noteq> ''/agent/v1/lifecycle/capabilities''"
    by (simp_all add: has_prefix_def)
qed

text \<open>
  C4. When the running server has answered a start, stop, restart or delete without an error, then
  Incus answered the one write the client's body asks for with a success, an asynchronous operation
  was waited for until its terminal status was a success, and these are, in this order, exchanges of
  the log; nothing else was sent for that message.
\<close>

theorem change_truthful:
  assumes "reachable tx sv a" and "sv_lifecycle sv = Some (lifecycle_of env)"
    and "(c, req, tr, f) \<in> set (ag_done a)"
    and "parse_lifecycle_path (req_path req) = Some route" and "route_action route \<noteq> Create"
    and "map_option plain (read_document f) = Some (json_answer i status v [])"
  shows "asked_for tx a c req \<and> subseq tr (ag_log a) \<and> (\<exists>q res.
    wanted_write (req_method req) (req_path req) (req_body req) q
    \<and> performed (route_action route) (route_name route) q tr res)"
proof -
  have d: "handled tx sv req tr f" "subseq tr (ag_log a)" "asked_for tx a c req"
    using done_handled[OF assms(1,3)] .
  obtain s res w where h: "run_state (handle_lifecycle env (req_method req) (req_path req) (req_body req))
      \<lparr>exchanges = [], outside = s\<rparr> = (res, w)" "res_err res = None" "exchanges w = tr"
    using answered_without_error[OF assms(2) d(1) change_route[OF assms(4,5)] assms(6)] by metis
  from change_success[OF assms(4,5) h(1,2)] h(3) d(2,3) show ?thesis by auto
qed

subsection \<open>Runs\<close>

text \<open>A message for the lifecycle service whose run succeeds is answered with the body of the result.\<close>

definition sample_lifecycle_server :: "proxy_response list server" where
  "sample_lifecycle_server = new_server_with_lifecycle ''secret'' scripted None None None (Some (lifecycle_of scripted))"

lemma lifecycle_served:
  assumes "read_message sample_texts msg = Dispatch req"
    and "has_prefix (req_path req) ''/agent/v1/lifecycle/''" and "req_path req \<noteq> ''/agent/v1/lifecycle/capabilities''"
    and "run_state (handle_lifecycle scripted (req_method req) (req_path req) (req_body req)) (script rs) = (res, w)"
    and "res_err res = None" and "readable (res_body res)" and "shallow (res_body res)" and "res_status res = 200"
  obtains a f where "reachable sample_texts sample_lifecycle_server a" "(0, req, exchanges w, f) \<in> set (ag_done a)"
    "map_option plain (read_document f) = Some (json_answer (req_id req) (res_status res) (body_value (res_body res)) [])"
proof -
  define answer where "answer = \<lparr>resp_id = req_id req, resp_status = res_status res, resp_body = res_body res, resp_error = []\<rparr>"
  let ?f = "write_response sample_texts (req_id req) (Some answer)"
  obtain rest where p: "req_path req = ''/agent/v1/lifecycle/'' @ rest" using assms(2) by (auto simp: has_prefix_iff)
  have "is_agent_request (req_path req)" by (simp add: p is_agent_request_iff agent_path_def has_prefix_def)
  with assms(2-5,8) have run: "run_state (handle_request sample_texts sample_lifecycle_server req)
      \<lparr>exchanges = [], outside = rs\<rparr> = (?f, w)"
    by (simp add: handle_request_def handle_agent_request_def server_handle_lifecycle_def sample_lifecycle_server_def
        new_server_with_lifecycle_def lifecycle_of_def run_state_bind respond_def answer_def script_def)
  have t: "sv_auth_token sample_lifecycle_server = ''secret''"
    by (simp add: sample_lifecycle_server_def new_server_with_lifecycle_def)
  obtain a where "reachable sample_texts sample_lifecycle_server a" "ag_done a = [(0, req, exchanges w, ?f)]"
    using message_served[OF t assms(1) run] by metis
  moreover have "map_option plain (read_document ?f) = Some (json_answer (req_id req) (res_status res) (body_value (res_body res)) [])"
    using write_response_value[of "Some answer" sample_texts "req_id req"] assms(6,7)
    by (simp add: answer_value_def answer_def)
  ultimately show thesis using that[of a ?f] by simp
qed

lemma sample_service: "sv_lifecycle sample_lifecycle_server = Some (lifecycle_of scripted)"
  by (simp add: sample_lifecycle_server_def new_server_with_lifecycle_def)

lemma finish_result: "res_err (finish act n kind i) = None" "res_status (finish act n kind i) = 200"
  by (simp_all add: finish_def)

definition sample_create_message :: bytes where
  "sample_create_message = ''{\"id\":\"8\",\"method\":\"POST\",\"path\":\"'' @ path_create @ ''\",\"body\":'' @ sample_create @ ''}''"

definition sample_create_request :: proxy_request where
  "sample_create_request = \<lparr>req_id = ''8'', req_method = ''POST'', req_path = path_create, req_body = Some sample_create\<rparr>"

lemma sample_create_dispatch: "read_message tx sample_create_message = Dispatch sample_create_request"
proof -
  have "unmarshal (dec_struct False request_fields) sample_create_message zero_request = (sample_create_request, None)
      \<and> validate_proxy_request sample_create_request = None" by code_simp
  then show ?thesis by (simp add: read_message_def)
qed

lemma create_truthful_witness:
  "\<exists>a :: agent. \<exists>create p rest. asked_for sample_texts a 0 sample_create_request
    \<and> decode_create (Some sample_create) = Inr create \<and> validate_create create = None
    \<and> subseq ((profile_request, Some p) # rest) (ag_log a)"
proof -
  have p: "req_path sample_create_request = path_create" "req_body sample_create_request = Some sample_create"
    by (simp_all add: sample_create_request_def)
  have r: "run_state (handle_lifecycle scripted (req_method sample_create_request) (req_path sample_create_request)
      (req_body sample_create_request)) (script [sample_profile, sample_accepted, sample_waited, answer_with 200 ''{}''])
      = (fst sample_run, snd sample_run)"
    by (simp add: sample_run_def sample_create_request_def)
  have l: "has_prefix path_create ''/agent/v1/lifecycle/''" "path_create \<noteq> ''/agent/v1/lifecycle/capabilities''" by code_simp+
  have b: "readable (res_body (fst sample_run))" "shallow (res_body (fst sample_run))"
    unfolding sample_run_result by code_simp+
  obtain a f where a: "reachable sample_texts sample_lifecycle_server a"
    "(0, sample_create_request, exchanges (snd sample_run), f) \<in> set (ag_done a)"
    "map_option plain (read_document f) = Some (json_answer (req_id sample_create_request) (res_status (fst sample_run))
       (body_value (res_body (fst sample_run))) [])"
    using lifecycle_served[OF sample_create_dispatch l[folded p] r _ b] finish_result sample_run_result by metis
  from create_truthful[OF a(1) sample_service a(2) p(1) a(3)] p(2) show ?thesis by metis
qed

lemma sample_delete_result: "fst sample_delete_run = finish Delete ''vm-1'' ''async'' ''op-1''"
  by code_simp

lemma change_truthful_witness:
  "\<exists>a :: agent. \<exists>tr res. asked_for sample_texts a 0 sample_delete_request \<and> subseq tr (ag_log a)
    \<and> (\<exists>q. wanted_write ''POST'' sample_delete_path (Some sample_delete) q \<and> performed Delete ''vm-1'' q tr res)"
proof -
  have p: "req_method sample_delete_request = ''POST''" "req_path sample_delete_request = sample_delete_path"
    "req_body sample_delete_request = Some sample_delete" by (simp_all add: sample_delete_request_def)
  have r: "run_state (handle_lifecycle scripted (req_method sample_delete_request) (req_path sample_delete_request)
      (req_body sample_delete_request)) (script [sample_accepted, sample_waited]) = (fst sample_delete_run, snd sample_delete_run)"
    by (simp add: sample_delete_run_def p)
  have g: "parse_lifecycle_path (req_path sample_delete_request) = Some \<lparr>route_action = Delete, route_name = ''vm-1''\<rparr>"
    unfolding p(2) by code_simp
  have b: "readable (res_body (fst sample_delete_run))" "shallow (res_body (fst sample_delete_run))"
    unfolding sample_delete_result by code_simp+
  obtain a f where a: "reachable sample_texts sample_lifecycle_server a"
    "(0, sample_delete_request, exchanges (snd sample_delete_run), f) \<in> set (ag_done a)"
    "map_option plain (read_document f) = Some (json_answer (req_id sample_delete_request) (res_status (fst sample_delete_run))
       (body_value (res_body (fst sample_delete_run))) [])"
    using lifecycle_served[OF sample_delete_dispatch change_route[OF g] r _ b] finish_result sample_delete_result
    by (metis action.distinct(7) lifecycle_route.select_convs(1))
  from change_truthful[OF a(1) sample_service a(2) g _ a(3)] p show ?thesis by auto
qed

end
