(* ===== verification/Proxy_Liveness.thy ===== *)
theory Proxy_Liveness
  imports Proxy_Truthful
begin

text \<open>
  That messages are not forgotten: a request that got a handler has been answered by the time the
  server has no handlers left, and with a cooperating Incus the answer to a valid create is a success.
\<close>

subsection \<open>No request is forgotten\<close>

definition answered_or_open :: "nat \<Rightarrow> proxy_request \<Rightarrow> agent \<Rightarrow> bool" where
  "answered_or_open c req a \<longleftrightarrow> (\<exists>t. (c, t) \<in> set (ag_handlers a) \<and> task_request t = req)
     \<or> (\<exists>tr f. (c, req, tr, f) \<in> set (ag_done a) \<and> (c, Reply f) \<in> set (ag_wire a) \<union> set (ag_lost a))"

lemma update_keeps:
  assumes "(c, t) \<in> set xs" and "i < length xs" and "xs ! i = (d, u)" and "task_request u' = task_request u"
  shows "\<exists>t'. (c, t') \<in> set (xs[i := (d, u')]) \<and> task_request t' = task_request t"
proof -
  obtain k where k: "k < length xs" "xs ! k = (c, t)" using assms(1) by (auto simp: in_set_conv_nth)
  show ?thesis
  proof (cases "k = i")
    case True
    with k assms have "(c, u') \<in> set (xs[i := (d, u')])" "task_request u' = task_request t"
      by (auto simp: set_update_memI)
    then show ?thesis by blast
  next
    case False
    then have "xs[i := (d, u')] ! k = (c, t)" "k < length (xs[i := (d, u')])" using k by simp_all
    then show ?thesis by (metis nth_mem)
  qed
qed

lemma drop_keeps:
  assumes "x \<in> set xs" and "i < length xs"
  shows "x \<in> set (drop_nth i xs) \<or> x = xs ! i"
proof -
  have "x \<in># mset xs" using assms(1) by simp
  then show ?thesis unfolding mset_drop_nth[OF assms(2)] by auto
qed

lemma open_kept:
  assumes "answered_or_open c req a"
    and "\<And>t. (c, t) \<in> set (ag_handlers a) \<Longrightarrow> \<exists>t'. (c, t') \<in> set (ag_handlers b) \<and> task_request t' = task_request t"
    and "set (ag_done a) \<subseteq> set (ag_done b)" and "set (ag_wire a) \<subseteq> set (ag_wire b)" and "set (ag_lost a) \<subseteq> set (ag_lost b)"
  shows "answered_or_open c req b"
  using assms unfolding answered_or_open_def by blast

lemma write_frame_grows:
  "set (ag_wire a) \<subseteq> set (ag_wire (write_frame c f ok a))" "set (ag_lost a) \<subseteq> set (ag_lost (write_frame c f ok a))"
  "(c, f) \<in> set (ag_wire (write_frame c f ok a)) \<union> set (ag_lost (write_frame c f ok a))"
  by (auto simp: write_frame_def)

lemma forward_quiet [simp]: "ag_wire (forward_event a) = ag_wire a" "ag_lost (forward_event a) = ag_lost a"
  by (simp_all add: forward_event_def split: list.split)

lemma reply_step_keeps:
  assumes "answered_or_open c req a" and "i < length (ag_handlers a)" and "ag_handlers a ! i = (d, Running req' sent [] f)"
  shows "answered_or_open c req (handler_writes i ok a)"
proof (cases "c = d \<and> req = req'")
  case True
  then show ?thesis
    using write_frame_grows(3) unfolding answered_or_open_def handler_writes_eq[OF assms(3)]
    by (intro disjI2 exI[of _ sent] exI[of _ f]) simp
next
  case False
  from assms(1) consider t where "(c, t) \<in> set (ag_handlers a)" "task_request t = req"
    | tr g where "(c, req, tr, g) \<in> set (ag_done a)" "(c, Reply g) \<in> set (ag_wire a) \<union> set (ag_lost a)"
    unfolding answered_or_open_def by blast
  then show ?thesis
  proof cases
    case 1
    from False 1 have "(c, t) \<noteq> ag_handlers a ! i" by (auto simp: assms(3))
    with drop_keeps[OF 1(1) assms(2)] 1(2) show ?thesis
      unfolding answered_or_open_def handler_writes_eq[OF assms(3)] by auto
  next
    case 2
    then show ?thesis
      using write_frame_grows(1,2)[of "a\<lparr>ag_handlers := drop_nth i (ag_handlers a), ag_done := ag_done a @ [(d, req', sent, f)]\<rparr>"]
      unfolding answered_or_open_def handler_writes_eq[OF assms(3)]
      by (intro disjI2 exI[of _ tr] exI[of _ g]) fastforce
  qed
qed

lemma step_keeps:
  assumes "server_step tx sv a b" and "answered_or_open c req a"
  shows "answered_or_open c req b"
  using assms(1) unfolding server_step_def
proof (elim disjE)
  assume "internal tx sv a b"
  then show ?thesis
  proof cases
    case (start i d q s)
    obtain f w where r: "run_state (handle_request tx sv q) \<lparr>exchanges = [], outside = s\<rparr> = (f, w)" by fastforce
    show ?thesis using start update_keeps[OF _ start(2,3), of c _ "Running q [] (exchanges w) f"]
      by (intro open_kept[OF assms(2)]) (simp_all add: start_handler_eq[OF start(3) r])
  next
    case (send i d q sent x rest f)
    show ?thesis using send update_keeps[OF _ send(2,3), of c _ "Running q (sent @ [x]) rest f"]
      by (intro open_kept[OF assms(2)]) (simp_all add: handler_sends_eq[OF send(3)])
  next
    case (reply i d q sent f ok)
    then show ?thesis using reply_step_keeps[OF assms(2)] by simp
  next
    case forward
    then show ?thesis by (intro open_kept[OF assms(2)]) auto
  next
    case (notify i ok)
    have "set (ag_wire a) \<subseteq> set (ag_wire (run_writer i ok a))" "set (ag_lost a) \<subseteq> set (ag_lost (run_writer i ok a))"
      by (auto simp: run_writer_def Let_def case_prod_beta write_frame_def)
    with notify show ?thesis by (intro open_kept[OF assms(2)]) (auto simp: run_writer_def Let_def case_prod_beta)
  qed
next
  assume "external tx sv a b"
  then show ?thesis
  proof cases
    case (message d msg ok)
    then show ?thesis
      by (intro open_kept[OF assms(2)]) (auto simp: receive_message_def Let_def write_frame_def split: round.splits)
  qed (rule open_kept[OF assms(2)]; auto simp: serve_http_Inr drop_client_def close_connection_def offer_event_def)+
qed

lemma steps_keep: "(server_step tx sv)\<^sup>*\<^sup>* a b \<Longrightarrow> answered_or_open c req a \<Longrightarrow> answered_or_open c req b"
  by (induction rule: rtranclp_induct) (auto intro: step_keeps)

lemma reachable_steps: "(server_step tx sv)\<^sup>*\<^sup>* a b \<Longrightarrow> reachable tx sv a \<Longrightarrow> reachable tx sv b"
  by (induction rule: rtranclp_induct) (auto intro: reachable.step)

lemma dispatched_answered:
  assumes "reachable tx sv a" and "c \<in> set (ag_clients a)" and "read_message tx msg = Dispatch req"
    and "(server_step tx sv)\<^sup>*\<^sup>* (receive_message tx c msg ok a) b" and "ag_handlers b = []"
  obtains tr f where "(c, req, tr, f) \<in> set (ag_done b)" "handled tx sv req tr f"
    "(c, Reply f) \<in> set (ag_wire b) \<union> set (ag_lost b)"
proof -
  have "external tx sv a (receive_message tx c msg ok a)" using assms(2) by (rule external.message)
  then have "reachable tx sv b" using reachable_steps[OF assms(4)] reachable_external[OF assms(1)] by blast
  moreover have "answered_or_open c req (receive_message tx c msg ok a)"
    by (auto simp: answered_or_open_def receive_message_def assms(3) intro!: exI[of _ "Pending req"])
  then have "answered_or_open c req b" by (rule steps_keep[OF assms(4)])
  ultimately show thesis using that done_handled(1) assms(5) unfolding answered_or_open_def by fastforce
qed

subsection \<open>A create that should succeed is answered with a success\<close>

definition json_success :: "action \<Rightarrow> string \<Rightarrow> string \<Rightarrow> string \<Rightarrow> json" where
  "json_success act n kind op_id = jobj
     [(''action'', JStr (to_valid (action_name act))), (''instance'', JStr (to_valid n)),
      (''status'', JStr (to_valid (lifecycle_success_status kind))),
      (''operationId'', JStr (to_valid op_id)), (''operationKind'', JStr (to_valid kind))]"

lemma response_keys: "to_valid ''action'' = ''action''" "to_valid ''instance'' = ''instance''"
  "to_valid ''status'' = ''status''" "to_valid ''operationId'' = ''operationId''" "to_valid ''operationKind'' = ''operationKind''"
  by code_simp+

lemma says_finish: "says (enc_response (success_response act n kind op_id)) (json_success act n kind op_id) (Suc 0)"
  unfolding enc_response_def json_success_def
  by (rule says_object) (simp add: success_response_def omit_empty_def says_string response_keys)

lemma finished_answer:
  assumes "sv_lifecycle sv = Some (lifecycle_of env)" and "handled tx sv req tr f"
    and "has_prefix (req_path req) ''/agent/v1/lifecycle/''" and "req_path req \<noteq> ''/agent/v1/lifecycle/capabilities''"
    and "gives (\<lambda>x. x = finish act n kind op_id) (handle_lifecycle env (req_method req) (req_path req) (req_body req))"
  shows "map_option plain (read_document f) = Some (json_answer (req_id req) 200 (json_success act n kind op_id) [])"
proof -
  obtain s s' where run: "run_state (handle_request tx sv req) \<lparr>exchanges = [], outside = s\<rparr> = (f, \<lparr>exchanges = tr, outside = s'\<rparr>)"
    using assms(2) by (auto simp: handled_def)
  obtain res w where h: "run_state (handle_lifecycle env (req_method req) (req_path req) (req_body req))
      \<lparr>exchanges = [], outside = s\<rparr> = (res, w)" by fastforce
  have res: "res = finish act n kind op_id" using givesD[OF assms(5) h] .
  obtain rest where p: "req_path req = ''/agent/v1/lifecycle/'' @ rest" using assms(3) by (auto simp: has_prefix_iff)
  have "is_agent_request (req_path req)" by (simp add: p is_agent_request_iff agent_path_def has_prefix_def)
  with run h assms(1,3,4) have "f = write_response tx (req_id req)
      (Some (success (req_id req) (enc_response (success_response act n kind op_id))))"
    by (simp add: handle_request_def handle_agent_request_def server_handle_lifecycle_def lifecycle_of_def
        run_state_bind respond_def res finish_def success_def)
  with success_value[OF says_finish] show ?thesis by (simp add: max_depth_def)
qed

text \<open>
  C5. A valid create comes true. When the context is never done and Incus answers every request in a
  way that depends on the request only, with a profile with one usable root disk, an accepted POST
  whose operation ends well and a readable instance, then a client that sends a valid create has,
  whatever else happens meanwhile, by the time the server has no handlers left, been sent the success
  of that instance: the frame was written to its connection, or lost because that write failed.
\<close>

theorem create_answered:
  assumes "reachable tx sv a" and "c \<in> set (ag_clients a)" and "read_message tx msg = Dispatch req"
    and "req_method req = ''POST''" and "req_path req = path_create"
    and "sv_lifecycle sv = Some (lifecycle_of env)"
    and "\<And>s. \<not> fst (env_ctx_err env s)" and "\<And>s q. fst (env_execute env s q) = Some (ans q)"
    and "decode_create (req_body req) = Inr create" and "is_success (resp_status (ans profile_request))"
    and "root_disk_from_profile (Some (ans profile_request)) = Inr disk"
    and "build_incus_request Create (cr_name create) (Create_Payload create disk) = Inr post"
    and "carries_out ans Create (cr_name create) post"
    and "(server_step tx sv)\<^sup>*\<^sup>* (receive_message tx c msg ok a) b" and "ag_handlers b = []"
  shows "\<exists>f. (c, Reply f) \<in> set (ag_wire b) \<union> set (ag_lost b)
    \<and> map_option plain (read_document f) = Some (json_answer (req_id req) 200
        (json_success Create (cr_name create) (fst (operation_of (ans post))) (snd (operation_of (ans post)))) [])"
proof -
  obtain tr f where f: "handled tx sv req tr f" "(c, Reply f) \<in> set (ag_wire b) \<union> set (ag_lost b)"
    using dispatched_answered[OF assms(1-3,14,15)] by metis
  have "cooperative env ans" using assms(7,8) by (rule cooperative.intro)
  from cooperative.create_completes[OF this assms(9-13)]
  have g: "gives (\<lambda>x. x = finish Create (cr_name create) (fst (operation_of (ans post))) (snd (operation_of (ans post))))
      (handle_lifecycle env (req_method req) (req_path req) (req_body req))"
    by (simp add: assms(4,5))
  have "has_prefix path_create ''/agent/v1/lifecycle/''" "path_create \<noteq> ''/agent/v1/lifecycle/capabilities''" by code_simp+
  from finished_answer[OF assms(6) f(1) this[folded assms(5)] g] f(2) show ?thesis by blast
qed

definition steady_server :: "unit server" where
  "steady_server = new_server_with_lifecycle ''secret'' sample_env None None None (Some (lifecycle_of sample_env))"

lemma steady_run:
  obtains b where "(server_step sample_texts steady_server)\<^sup>*\<^sup>* (receive_message sample_texts 0 sample_create_message True sample_connected) b"
    "ag_handlers b = []" "ag_lost b = []"
proof -
  let ?a = "receive_message sample_texts 0 sample_create_message True sample_connected"
  have h: "ag_handlers ?a = [(0, Pending sample_create_request)]" "0 \<in> set (ag_open ?a)" "ag_lost ?a = []"
    by (simp_all add: receive_message_def sample_create_dispatch) (simp_all add: sample_connected_def start_agent_def)
  obtain f w where run: "run_state (handle_request sample_texts steady_server sample_create_request) \<lparr>exchanges = [], outside = ()\<rparr> = (f, w)"
    by fastforce
  let ?b = "write_frame 0 (Reply f) True (?a\<lparr>ag_log := ag_log ?a @ exchanges w,
      ag_handlers := drop_nth 0 (ag_handlers ?a), ag_done := ag_done ?a @ [(0, sample_create_request, exchanges w, f)]\<rparr>)"
  have "(internal sample_texts steady_server)\<^sup>*\<^sup>* ?a ?b" using handler_finishes[of 0 ?a, OF _ _ run] h by simp
  then have "(server_step sample_texts steady_server)\<^sup>*\<^sup>* ?a ?b"
    by (rule rtranclp_mono[THEN predicate2D, rotated]) (auto simp: server_step_def)
  moreover have "ag_handlers ?b = []" using h(1) by (simp add: drop_nth_def)
  moreover have "ag_lost ?b = []" using h(2,3) by (simp add: write_frame_def)
  ultimately show thesis using that by blast
qed

lemma create_answered_witness:
  "\<exists>b :: agent. \<exists>f. ag_handlers b = [] \<and> (0, Reply f) \<in> set (ag_wire b)
    \<and> map_option plain (read_document f) = Some (json_answer ''8'' 200 (json_success Create ''vm-1'' ''async'' ''op-1'') [])"
proof -
  obtain b where b: "(server_step sample_texts steady_server)\<^sup>*\<^sup>* (receive_message sample_texts 0 sample_create_message True sample_connected) b"
    "ag_handlers b = []" "ag_lost b = []" by (rule steady_run)
  define post where "post = \<lparr>req_id = [], req_method = ''POST'', req_path = ''/1.0/instances'',
         req_body = Some (create_body sample_request sample_read_disk)\<rparr>"
  have q: "req_id sample_create_request = ''8''" "req_method sample_create_request = ''POST''"
    "req_path sample_create_request = path_create" "req_body sample_create_request = Some sample_create"
    by (simp_all add: sample_create_request_def)
  have s: "sv_auth_token steady_server = ''secret''" "sv_lifecycle steady_server = Some (lifecycle_of sample_env)"
    by (simp_all add: steady_server_def new_server_with_lifecycle_def)
  have c: "0 \<in> set (ag_clients sample_connected)" by (simp add: sample_connected_def)
  have e: "\<not> fst (env_ctx_err sample_env u)" "fst (env_execute sample_env u r) = Some (sample_answers r)" for u r
    by (simp_all add: sample_env_def)
  have d: "decode_create (req_body sample_create_request) = Inr sample_request" unfolding q by code_simp
  have p: "is_success (resp_status (sample_answers profile_request))"
    "root_disk_from_profile (Some (sample_answers profile_request)) = Inr sample_read_disk" by code_simp+
  have w: "build_incus_request Create (cr_name sample_request) (Create_Payload sample_request sample_read_disk) = Inr post"
    "carries_out sample_answers Create (cr_name sample_request) post"
    "operation_of (sample_answers post) = (''async'', ''op-1'')" unfolding post_def by code_simp+
  have n: "cr_name sample_request = ''vm-1''" by (simp add: sample_request_def)
  from create_answered[OF connected_reachable[OF s(1)] c sample_create_dispatch q(2,3) s(2) e d p w(1,2) b(1,2)]
  obtain f where "(0, Reply f) \<in> set (ag_wire b)" "map_option plain (read_document f)
      = Some (json_answer ''8'' 200 (json_success Create ''vm-1'' ''async'' ''op-1'') [])"
    by (simp only: q(1) w(3) n b(3) fst_conv snd_conv list.set Un_empty_right) blast
  with b(2) show ?thesis by (intro exI[of _ b] exI[of _ f] conjI)
qed

end
