(* ===== verification/Proxy_Wire.thy ===== *)
theory Proxy_Wire
  imports Proxy_Confined
begin

text \<open>
  From the log to the socket: what the client makes of the requests the running program sends. A
  request is checked as text and parsed again by \<^verbatim>\<open>net/http\<close>; the theorem is about the HTTP requests
  that result.
\<close>

subsection \<open>Paths that are their own request target\<close>

lemma cut_char_no: "c \<notin> set s \<Longrightarrow> cut_char c s = None"
  by (simp add: cut_char_None)

lemma own_target:
  assumes "CHR ''?'' \<notin> set p" and "CHR ''#'' \<notin> set p" and "\<not> list_ex is_ctl p"
    and "valid_encoded p" and "path_unescape p = Some x"
  shows "request_target p = Some p"
proof -
  define u where "u = \<lparr>url_path = x, url_raw_path = (if escape_with escape_path_char x = p then [] else p),
    url_force_query = False, url_raw_query = []\<rparr>"
  have "parse_rooted_uri p = Some u"
    using assms(1,3,5) by (simp add: parse_rooted_uri_def cut_char_no u_def)
  moreover have "escaped_path u = p" using assms(4,5) by (auto simp: u_def escaped_path_def)
  ultimately show ?thesis using request_target_no_fragment[OF assms(2)] by (simp add: u_def)
qed

definition path_char :: "char \<Rightarrow> bool" where
  "path_char c \<longleftrightarrow> is_unreserved c \<or> c \<in> set ''/$&+:=@%''"

lemma unreserved_printable: "is_unreserved c \<Longrightarrow> \<not> is_ctl c"
proof -
  assume "is_unreserved c"
  then have "45 \<le> byte c \<and> byte c \<le> 126"
    by (auto simp: is_unreserved_def is_alnum_def is_digit_def is_lower_def is_upper_def)
  then show ?thesis by (simp add: is_ctl_def)
qed

lemma path_char_query: "path_char c \<Longrightarrow> c \<noteq> CHR ''?''" "path_char c \<Longrightarrow> c \<noteq> CHR ''#''"
  unfolding path_char_def using not_unreserved by auto

lemma path_char_printable: "path_char c \<Longrightarrow> \<not> is_ctl c"
  using unreserved_printable by (auto simp: path_char_def is_ctl_def)

lemma path_char_encoded: "path_char c \<Longrightarrow> c \<in> set (''!$&()*+,;=:@[]%'') \<or> \<not> escape_path_char c"
  by (auto simp: path_char_def escape_path_char_def)

lemma own_target_chars:
  assumes "list_all path_char p" and "path_unescape p = Some x"
  shows "request_target p = Some p"
proof (rule own_target[OF _ _ _ _ assms(2)])
  show "CHR ''?'' \<notin> set p" "CHR ''#'' \<notin> set p" using assms(1) path_char_query by (auto simp: list_all_iff)
  show "\<not> list_ex is_ctl p" using assms(1) path_char_printable by (auto simp: list_all_iff list_ex_iff)
  show "valid_encoded p" using assms(1) path_char_encoded unfolding valid_encoded_def list_all_iff by blast
qed

lemma path_unescape_plain: "CHR ''%'' \<notin> set s \<Longrightarrow> path_unescape s = Some s"
  by (induction s) auto

text \<open>What was escaped is unescaped, whatever follows it.\<close>

lemma unescape_escape_then:
  assumes "esc CHR ''%''"
  shows "path_unescape (escape_with esc s @ t) = map_option (append s) (path_unescape t)"
proof (induction s)
  case Nil
  show ?case by (cases "path_unescape t") simp_all
next
  case (Cons c s)
  have b: "byte c div 16 < 16" using byte_less_256[of c] by linarith
  have d: "char_of (16 * (byte c div 16) + byte c mod 16) = c" by (simp only: mult_div_mod_eq char_of_char)
  show ?case
  proof (cases "esc c")
    case True
    with Cons b d show ?thesis by (cases "path_unescape t") (simp_all add: comp_def)
  next
    case False
    then have "c \<noteq> CHR ''%''" using assms by auto
    with Cons False show ?thesis by (cases "path_unescape t") (simp_all add: comp_def)
  qed
qed

lemma escape_segment_percent: "escape_segment_char CHR ''%''"
  by (simp add: escape_segment_char_def not_unreserved)

lemma escaped_chars: "list_all path_char (path_escape s)"
proof -
  have "\<And>c. is_unreserved c \<or> c \<in> set (''$&+:=@%'') \<Longrightarrow> path_char c" by (auto simp: path_char_def)
  then show ?thesis unfolding list_all_iff using path_escape_alphabet[of _ s] by blast
qed

lemma name_chars:
  assumes "instance_name_re name"
  shows "list_all path_char name" and "CHR ''%'' \<notin> set name"
proof -
  have "list_all is_unreserved name" using assms by (rule instance_name_unreserved)
  then show "list_all path_char name" unfolding list_all_iff path_char_def by blast
  from \<open>list_all is_unreserved name\<close> show "CHR ''%'' \<notin> set name"
    unfolding list_all_iff using not_unreserved by blast
qed

lemma wait_target:
  "request_target (''/1.0/operations/'' @ path_escape op_id @ ''/wait'') = Some (''/1.0/operations/'' @ path_escape op_id @ ''/wait'')"
proof (rule own_target_chars)
  have "list_all path_char ''/1.0/operations/''" "list_all path_char ''/wait''" by code_simp+
  then show "list_all path_char (''/1.0/operations/'' @ path_escape op_id @ ''/wait'')"
    unfolding list_all_append using escaped_chars by blast
  show "path_unescape (''/1.0/operations/'' @ path_escape op_id @ ''/wait'') = Some (''/1.0/operations/'' @ op_id @ ''/wait'')"
    by (simp add: path_escape_def unescape_escape_then escape_segment_percent)
qed

lemma name_target:
  assumes "instance_name_re name" and "list_all path_char post" and "CHR ''%'' \<notin> set post"
  shows "request_target (''/1.0/instances/'' @ name @ post) = Some (''/1.0/instances/'' @ name @ post)"
proof (rule own_target_chars)
  have "list_all path_char ''/1.0/instances/''" by code_simp
  then show "list_all path_char (''/1.0/instances/'' @ name @ post)"
    unfolding list_all_append using name_chars(1)[OF assms(1)] assms(2) by blast
  have "CHR ''%'' \<notin> set (''/1.0/instances/'' @ name @ post)" using name_chars(2)[OF assms(1)] assms(3) by simp
  then show "path_unescape (''/1.0/instances/'' @ name @ post) = Some (''/1.0/instances/'' @ name @ post)"
    by (rule path_unescape_plain)
qed

subsection \<open>The requests on the socket\<close>

text \<open>
  The abstract specification: reads of the allowlist, the default profile, or the wait for an
  operation whose identifier is one segment; and the writes of the lifecycle service on the
  collection, or on one instance with an allowlisted name.
\<close>

definition wire_read :: "string \<Rightarrow> bool" where
  "wire_read t \<longleftrightarrow> confined_target t \<or> t = ''/1.0/profiles/default''
     \<or> (\<exists>op_id. op_id \<noteq> [] \<and> CHR ''/'' \<notin> set op_id \<and> t = ''/1.0/operations/'' @ path_escape op_id @ ''/wait'')"

definition wire_allowed :: "string \<Rightarrow> string \<Rightarrow> bool" where
  "wire_allowed m t \<longleftrightarrow> (m = ''GET'' \<and> wire_read t) \<or> (m = ''POST'' \<and> t = ''/1.0/instances'')
     \<or> (\<exists>name. instance_name_re name \<and>
          (m = ''PUT'' \<and> t = ''/1.0/instances/'' @ name @ ''/state'' \<or> m = ''DELETE'' \<and> t = ''/1.0/instances/'' @ name))"

lemma name_detail: "instance_name_re name \<Longrightarrow> confined_target (''/1.0/instances/'' @ name)"
proof -
  assume r: "instance_name_re name"
  have all: "list_all name_rest name" and "name \<noteq> []"
    using r inst.match_all inst.match_length[of name] by (auto simp: instance_name_re_def)
  moreover have "\<not> name_rest CHR ''.''" "\<not> name_rest CHR ''/''"
    by (simp_all add: name_rest_def is_lower_def is_digit_def)
  ultimately have "CHR ''.'' \<notin> set name" "CHR ''/'' \<notin> set name" "name \<noteq> []" by (auto simp: list_all_iff)
  then have "CHR ''/'' \<notin> set name" "name \<notin> {[], ''.'', ''..''}" by auto
  then have "detail_path (''/1.0/'' @ ''instances'' @ ''/'' @ name)"
    unfolding detail_path_def using path_unescape_plain[OF name_chars(2)[OF r]]
    by (intro exI[of _ "''instances''"] exI[of _ name]) simp
  then show ?thesis unfolding confined_target_def by (intro exI[of _ "''/1.0/instances/'' @ name"] exI[of _ "[]"]) simp
qed

text \<open>A method and a request target, and nothing in the way of sending them.\<close>

definition goes_out :: "proxy_request \<Rightarrow> bool" where
  "goes_out q \<longleftrightarrow> valid_method (req_method q)
     \<and> (\<exists>t. request_target (req_path q) = Some t \<and> wire_allowed (req_method q) t)"

lemma methods_valid [simp]:
  "valid_method ''GET''" "valid_method ''POST''" "valid_method ''PUT''" "valid_method ''DELETE''"
  by code_simp+

lemma goes_out_fixed:
  "req_method q = ''GET'' \<Longrightarrow> wire_read (req_path q) \<Longrightarrow> request_target (req_path q) = Some (req_path q) \<Longrightarrow> goes_out q"
  by (simp add: goes_out_def wire_allowed_def)

lemma fixed_targets:
  "request_target ''/1.0'' = Some ''/1.0''"
  "request_target ''/1.0/instances'' = Some ''/1.0/instances''"
  "request_target ''/1.0/images'' = Some ''/1.0/images''"
  "request_target ''/1.0/operations'' = Some ''/1.0/operations''"
  "request_target ''/1.0/profiles/default'' = Some ''/1.0/profiles/default''"
  by code_simp+

lemma listing_read: "listing_path p \<Longrightarrow> wire_read p"
  unfolding wire_read_def confined_target_def by (metis append_Nil2)

lemma allowed_read_goes_out:
  assumes "allowed_read q"
  shows "goes_out q"
proof -
  have m: "req_method q = ''GET''" using assms by (simp add: allowed_read_def)
  from assms consider "req_path q = ''/1.0/profiles/default''"
    | name where "instance_name_re name" "req_path q = ''/1.0/instances/'' @ name"
    | op_id where "op_id \<noteq> []" "CHR ''/'' \<notin> set op_id" "req_path q = ''/1.0/operations/'' @ path_escape op_id @ ''/wait''"
    unfolding allowed_read_def by blast
  then show ?thesis
  proof cases
    case 1
    with m show ?thesis by (simp add: goes_out_def wire_allowed_def wire_read_def fixed_targets)
  next
    case 2
    then show ?thesis using name_target[of name "[]"] name_detail[of name]
      by (intro goes_out_fixed[OF m]) (simp_all add: wire_read_def)
  next
    case 3
    then show ?thesis unfolding goes_out_def m 3(3) wait_target wire_allowed_def wire_read_def
      using methods_valid(1) by blast
  qed
qed

lemma allowed_for_goes_out:
  assumes "allowed_for a q"
  shows "goes_out q"
proof -
  from assms consider "allowed_read q" | "allowed_create q" | "allowed_state a q" | "allowed_delete q"
    unfolding allowed_for_def by blast
  then show ?thesis
  proof cases
    case 1
    then show ?thesis by (rule allowed_read_goes_out)
  next
    case 2
    then show ?thesis by (simp add: allowed_create_def goes_out_def wire_allowed_def fixed_targets)
  next
    case 3
    then obtain name where n: "req_method q = ''PUT''" "instance_name_re name" "req_path q = ''/1.0/instances/'' @ name @ ''/state''"
      by (auto simp: allowed_state_def)
    have "list_all path_char ''/state''" by code_simp
    then have "request_target (req_path q) = Some (req_path q)" using name_target[OF n(2)] n(3) by simp
    with n methods_valid(3) show ?thesis unfolding goes_out_def wire_allowed_def by (metis (no_types))
  next
    case 4
    then obtain name where n: "req_method q = ''DELETE''" "instance_name_re name" "req_path q = ''/1.0/instances/'' @ name"
      by (auto simp: allowed_delete_def)
    then have "request_target (req_path q) = Some (req_path q)" using name_target[OF n(2), of "[]"] by simp
    with n methods_valid(4) show ?thesis unfolding goes_out_def wire_allowed_def by (metis (no_types))
  qed
qed

lemma fixed_reads:
  "wire_read ''/1.0''" "wire_read ''/1.0/instances''" "wire_read ''/1.0/images''" "wire_read ''/1.0/operations''"
  "wire_read ''/1.0/profiles/default''"
  using listing_read by (simp_all add: listing_path_def wire_read_def[of "''/1.0/profiles/default''"])

lemma report_goes_out: "report_request q \<Longrightarrow> goes_out q"
  unfolding report_request_def profile_request_def plain_request_def state_read_def insert_iff empty_iff
  by (elim disjE) (simp_all add: goes_out_def wire_allowed_def fixed_targets fixed_reads)

lemma permitted_goes_out:
  assumes "permitted q" and "CHR ''#'' \<notin> set (req_path q)"
  shows "goes_out q"
proof -
  from assms(1) consider "forwarded_read q" | a where "allowed_for a q" | "report_request q"
    unfolding permitted_def allowed_lifecycle_request_def by blast
  then show ?thesis
  proof cases
    case 1
    then have "req_method q = ''GET''" "is_allowed_incus_read_path (req_path q)" by (simp_all add: forwarded_read_def)
    with allowed_read_target[OF _ assms(2)] methods_valid(1) show ?thesis
      unfolding goes_out_def wire_allowed_def wire_read_def by metis
  qed (rule allowed_for_goes_out report_goes_out, assumption)+
qed

lemma goes_out_request:
  assumes "goes_out q"
  shows "\<exists>h. new_request bad buf (req_method q) (req_path q) (body_reader (req_body q)) = Inr h
    \<and> http_method h = req_method q \<and> wire_allowed (http_method h) (http_target h)
    \<and> http_body h = map_option (\<lambda>b. drain buf 0 \<lparr>lim_src = b, lim_left = length b\<rparr>) (req_body q)"
proof -
  obtain t where t: "valid_method (req_method q)" "request_target (req_path q) = Some t" "wire_allowed (req_method q) t"
    using assms by (auto simp: goes_out_def)
  have "req_method q \<noteq> []" using t(1) by (simp add: valid_method_def)
  with t show ?thesis by (simp add: new_request_def body_reader_def option.map_comp comp_def)
qed

text \<open>
  C18. What is on the socket. Every request in the log of the running program whose path holds no
  hash sign does become an HTTP request, and that request, method and target as they are sent after
  URL parsing, is a read of the allowlist, of the default profile or of an operation to wait for, or
  the write of a lifecycle action; when the body fits one buffer of the transport, it is sent as it is.
\<close>

theorem wire_confined:
  assumes "run_state (agent_main mc) w = (Inr (cfg, sv), w')" and "reachable tx sv a"
    and "(q, r) \<in> set (ag_log a)" and "CHR ''#'' \<notin> set (req_path q)"
  shows "\<exists>h. new_request bad buf (req_method q) (req_path q) (body_reader (req_body q)) = Inr h
    \<and> http_method h = req_method q \<and> wire_allowed (http_method h) (http_target h)
    \<and> (\<forall>b. req_body q = Some b \<longrightarrow> length b \<le> buf 0 \<longrightarrow> http_body h = Some b)"
proof -
  obtain identity started where "sv = wired_server mc cfg identity started" using agent_main_wires[OF assms(1)] by metis
  then have "\<forall>x \<in> set (ag_log a). permitted (fst x)" using wired.reachable_confined assms(2) by metis
  with assms(3) have "permitted q" by auto
  from goes_out_request[OF permitted_goes_out[OF this assms(4)], of bad buf] show ?thesis
    using drain_fits[of _ buf] by auto
qed

lemma wire_confined_witness:
  "\<exists>h. new_request (\<lambda>m p. []) (\<lambda>i. 4096) ''DELETE'' ''/1.0/instances/vm-1'' None = Inr h
    \<and> wire_allowed (http_method h) (http_target h)"
proof -
  obtain sv w' a where b: "sample_boot = (Inr (sample_config, sv), w')" "reachable sample_texts sv a"
    "map fst (ag_log a) = [sample_vm_delete]" by (rule sample_boots)
  then have "sample_vm_delete \<in> fst ` set (ag_log a)" by (metis list.set_intros(1) list.set_map)
  then obtain r where "(sample_vm_delete, r) \<in> set (ag_log a)" by auto
  from wire_confined[OF b(1)[unfolded sample_boot_def] b(2) this, of "\<lambda>m p. []" "\<lambda>i. 4096"] show ?thesis
    by (auto simp: sample_vm_delete_def plain_request_def body_reader_def)
qed

end
