(* ===== verification/Proxy_Events.thy ===== *)
theory Proxy_Events
  imports Proxy_Refinement
begin

text \<open>
  What the clients are told of the event stream: every event that is taken from the channel goes to
  every client that is connected, once, and nothing else does. In which order the frames of one
  client arrive is another matter.
\<close>

subsection \<open>The event frames of a client\<close>

text \<open>Written, lost in a failing write, or waiting in their writer.\<close>

definition notice_for :: "nat \<Rightarrow> nat \<times> frame \<Rightarrow> bytes option" where
  "notice_for c x = (case snd x of Reply b \<Rightarrow> None | Notice b \<Rightarrow> if fst x = c then Some b else None)"

definition notices :: "nat \<Rightarrow> agent \<Rightarrow> bytes multiset" where
  "notices c a = mset (List.map_filter (notice_for c) (ag_wire a)) + mset (List.map_filter (notice_for c) (ag_lost a))
     + mset (map snd (filter (\<lambda>x. fst x = c) (ag_writers a)))"

lemma map_filter_append: "List.map_filter f (xs @ ys) = List.map_filter f xs @ List.map_filter f ys"
  by (simp add: List.map_filter_def)

lemma notices_write_reply [simp]: "notices c (write_frame d (Reply b) ok a) = notices c a"
  by (simp add: notices_def write_frame_def map_filter_append List.map_filter_simps notice_for_def)

lemma notices_write [simp]:
  "notices c (write_frame d (Notice b) ok a) = (if d = c then add_mset b (notices c a) else notices c a)"
  by (simp add: notices_def write_frame_def map_filter_append List.map_filter_simps notice_for_def)

lemma notices_cong:
  "ag_wire b = ag_wire a \<Longrightarrow> ag_lost b = ag_lost a \<Longrightarrow> ag_writers b = ag_writers a \<Longrightarrow> notices c b = notices c a"
  by (simp add: notices_def)

lemma notices_writer:
  assumes "i < length (ag_writers a)"
  shows "notices c (run_writer i ok a) = notices c a"
proof -
  obtain d b where w: "ag_writers a ! i = (d, b)" by fastforce
  let ?P = "\<lambda>x :: nat \<times> bytes. fst x = c"
  have "mset (ag_writers a) = add_mset (d, b) (mset (drop_nth i (ag_writers a)))"
    using mset_drop_nth[OF assms] w by simp
  then have "image_mset snd (filter_mset ?P (mset (ag_writers a)))
      = (if d = c then add_mset b (image_mset snd (filter_mset ?P (mset (drop_nth i (ag_writers a)))))
         else image_mset snd (filter_mset ?P (mset (drop_nth i (ag_writers a)))))" by simp
  then show ?thesis by (simp add: run_writer_def Let_def w) (simp add: notices_def)
qed

lemma notices_broadcast:
  assumes "distinct (ag_clients a)"
  shows "notices c (broadcast_event ev a)
    = notices c a + (if c \<in> set (ag_clients a) then mset (List.map_filter enc_event [ev]) else {#})"
proof (cases "enc_event ev")
  case None
  then show ?thesis by (simp add: broadcast_event_def List.map_filter_simps)
next
  case (Some m)
  have "filter (\<lambda>x. fst x = c) (map (\<lambda>d. (d, m)) xs) = map (\<lambda>d. (d, m)) (filter (\<lambda>d. d = c) xs)" for xs
    by (induction xs) auto
  moreover have "filter (\<lambda>d. d = c) xs = (if c \<in> set xs then [c] else [])" if "distinct xs" for xs :: "nat list"
    using that by (induction xs) auto
  ultimately show ?thesis using assms by (simp add: broadcast_event_def Some notices_def List.map_filter_simps)
qed

subsection \<open>From one state to a later one\<close>

text \<open>The events forwarded in between, and what the client got of them.\<close>

definition told :: "nat \<Rightarrow> agent \<Rightarrow> agent \<Rightarrow> bool" where
  "told c a b \<longleftrightarrow> (\<exists>evs. ag_forwarded b = ag_forwarded a @ evs
     \<and> notices c b = notices c a + mset (List.map_filter enc_event evs))"

lemma told_same: "ag_forwarded b = ag_forwarded a \<Longrightarrow> notices c b = notices c a \<Longrightarrow> told c a b"
  unfolding told_def by (intro exI[of _ "[]"]) (simp add: List.map_filter_simps)

lemma told_trans: "told c a b \<Longrightarrow> told c b d \<Longrightarrow> told c a d"
  unfolding told_def by (metis (no_types, opaque_lifting) append_assoc map_filter_append mset_append union_assoc)

lemma told_forward:
  assumes "distinct (ag_clients a)" and "c \<in> set (ag_clients a)"
  shows "told c a (forward_event a)"
proof (cases "ag_channel a")
  case Nil
  then show ?thesis by (intro told_same) (simp_all add: forward_event_def)
next
  case (Cons ev evs)
  let ?b = "a\<lparr>ag_channel := evs, ag_forwarded := ag_forwarded a @ [ev]\<rparr>"
  have "notices c (broadcast_event ev ?b) = notices c ?b + mset (List.map_filter enc_event [ev])"
    using assms by (subst notices_broadcast) simp_all
  moreover have "notices c ?b = notices c a" by (rule notices_cong) simp_all
  moreover have "forward_event a = broadcast_event ev ?b" by (simp add: forward_event_def Cons)
  ultimately show ?thesis unfolding told_def by (intro exI[of _ "[ev]"]) simp
qed

lemma notices_start: "notices c (start_handler tx sv i s a) = notices c a"
  by (rule notices_cong) (simp_all add: start_handler_def Let_def case_prod_beta split: task.split)

lemma notices_sends: "notices c (handler_sends i a) = notices c a"
  by (rule notices_cong) (simp_all add: handler_sends_def case_prod_beta split: task.split list.split)

lemma notices_handler_writes: "notices c (handler_writes i ok a) = notices c a"
proof -
  have "notices c (a\<lparr>ag_handlers := hs, ag_done := ds\<rparr>) = notices c a" for hs ds by (rule notices_cong) simp_all
  then show ?thesis by (simp add: handler_writes_def case_prod_beta split: task.split list.split)
qed

lemma notices_receive: "notices c (receive_message tx d msg ok a) = notices c a"
proof -
  have "notices c (a\<lparr>ag_asked := qs\<rparr>) = notices c a" "notices c (a\<lparr>ag_asked := qs, ag_handlers := hs\<rparr>) = notices c a"
    for qs hs by (rule notices_cong; simp)+
  then show ?thesis by (simp add: receive_message_def Let_def split: round.split)
qed

lemma step_tells:
  assumes "server_step tx sv a b" and "distinct (ag_clients a)" and "c \<in> set (ag_clients a)"
  shows "told c a b"
  using assms(1) unfolding server_step_def
proof (elim disjE)
  assume "internal tx sv a b"
  then show ?thesis
  proof cases
    case (start i d req s)
    then show ?thesis by (intro told_same) (simp_all add: notices_start)
  next
    case (send i d req sent x rest f)
    then show ?thesis by (intro told_same) (simp_all add: notices_sends)
  next
    case (reply i d req sent f ok)
    then show ?thesis by (intro told_same) (simp_all add: notices_handler_writes)
  next
    case forward
    then show ?thesis using told_forward[OF assms(2,3)] by simp
  next
    case (notify i ok)
    then show ?thesis by (intro told_same) (simp_all add: notices_writer)
  qed
next
  assume "external tx sv a b"
  then show ?thesis
  proof cases
    case (connect elsewhere call)
    then show ?thesis by (intro told_same notices_cong) (simp_all add: serve_http_Inr)
  next
    case (disconnect d)
    then show ?thesis by (intro told_same notices_cong) (simp_all add: drop_client_def)
  next
    case (closing d)
    then show ?thesis by (intro told_same notices_cong) (simp_all add: close_connection_def)
  next
    case (message d msg ok)
    then show ?thesis by (intro told_same) (simp_all add: notices_receive)
  next
    case (event ev)
    then show ?thesis by (intro told_same notices_cong) (simp_all add: offer_event_def)
  qed
qed

text \<open>A connection that is gone does not come back.\<close>

lemma step_clients:
  assumes "server_step tx sv a b" and "c \<in> set (ag_clients b)" and "c < ag_next a"
  shows "c \<in> set (ag_clients a)" and "ag_next a \<le> ag_next b"
proof -
  have "(c \<in> set (ag_clients b) \<longrightarrow> c < ag_next a \<longrightarrow> c \<in> set (ag_clients a)) \<and> ag_next a \<le> ag_next b"
    using assms(1) unfolding server_step_def
    by (elim disjE internalE externalE)
       (auto simp: serve_http_Inr drop_client_def close_connection_def offer_event_def dest: set_remove1_subset[THEN subsetD])
  with assms(2,3) show "c \<in> set (ag_clients a)" "ag_next a \<le> ag_next b" by simp_all
qed

lemma step_next: "server_step tx sv a b \<Longrightarrow> ag_next a \<le> ag_next b"
  unfolding server_step_def
  by (elim disjE internalE externalE) (auto simp: serve_http_Inr drop_client_def close_connection_def offer_event_def)

lemma steps_tell:
  assumes "(server_step tx sv)\<^sup>*\<^sup>* a b" and "reachable tx sv a" and "c < ag_next a"
  shows "reachable tx sv b \<and> c < ag_next b \<and> (c \<in> set (ag_clients b) \<longrightarrow> c \<in> set (ag_clients a) \<and> told c a b)"
  using assms(1)
proof (induction rule: rtranclp_induct)
  case base
  show ?case using assms(2,3) by (simp add: told_same)
next
  case (step b d)
  have r: "reachable tx sv b" and n: "c < ag_next b" using step.IH by simp_all
  have n': "c < ag_next d" using step_next[OF step.hyps(2)] n by linarith
  have "c \<in> set (ag_clients a) \<and> told c a d" if "c \<in> set (ag_clients d)"
  proof -
    have b: "c \<in> set (ag_clients b)" using step_clients(1)[OF step.hyps(2) that n] .
    have "told c b d" by (rule step_tells[OF step.hyps(2) admission_distinct[OF reachable_admission[OF r]] b])
    with step.IH b show ?thesis by (auto intro: told_trans)
  qed
  with r step.hyps(2) n' show ?case by (auto intro: reachable.step)
qed

text \<open>
  C17. Every connected client is told of every event, once. Between two states of the server a client
  that is connected in both gets exactly one frame for each event that is forwarded meanwhile and
  can be written as JSON: written, lost in a failing write, or still waiting; and no frame for
  anything else, whoever else comes and goes and whatever the handlers do.
\<close>

theorem events_reach_clients:
  assumes "reachable tx sv a" and "(server_step tx sv)\<^sup>*\<^sup>* a b"
    and "c \<in> set (ag_clients a)" and "c \<in> set (ag_clients b)"
  shows "\<exists>evs. ag_forwarded b = ag_forwarded a @ evs
    \<and> notices c b = notices c a + mset (List.map_filter enc_event evs)"
proof -
  have "c < ag_next a" using reachable_admission[OF assms(1)] client_connection[OF assms(3)] by (auto simp: admission_ok_def)
  from steps_tell[OF assms(2,1) this] assms(4) show ?thesis by (simp add: told_def)
qed

text \<open>What such a frame says: the type and the data of the event.\<close>

lemma event_keys: "to_valid ''type'' = ''type''" "to_valid ''data'' = ''data''"
  by code_simp+

lemma event_says:
  assumes "enc_event ev = Some frame" and "shallow (event_data ev)"
  shows "map_option plain (read_document frame)
    = Some (jobj [(''type'', JStr (to_valid (event_type ev))), (''data'', body_value (event_data ev))])"
proof -
  obtain d where b: "enc_raw (event_data ev) = Some d"
    and f: "frame = enc_object [(''type'', enc_string (event_type ev)), (''data'', d)]"
    using assms(1) by (auto simp: enc_event_def)
  obtain h where h: "says d (body_value (event_data ev)) h" "Suc h \<le> max_depth"
    using enc_raw_says[OF b assms(2)] by blast
  have "says frame (jobj [(''type'', JStr (to_valid (event_type ev))), (''data'', body_value (event_data ev))]) (Suc h)"
    unfolding f by (rule says_object) (simp add: says_string h(1) event_keys)
  then show ?thesis using h(2) by (rule says_document)
qed

subsection \<open>Runs\<close>

definition sample_operation :: event where
  "sample_operation = \<lparr>event_type = ''operation'', event_data = Some ''{}''\<rparr>"

definition frame_of :: "event \<Rightarrow> bytes" where
  "frame_of ev = the (enc_event ev)"

lemma sample_frames: "enc_event sample_event = Some (frame_of sample_event)"
  "enc_event sample_operation = Some (frame_of sample_operation)" "frame_of sample_event \<noteq> frame_of sample_operation"
proof -
  have "enc_event sample_event = Some ''{\"type\":\"lifecycle\",\"data\":{}}''"
    "enc_event sample_operation = Some ''{\"type\":\"operation\",\"data\":{}}''" by code_simp+
  then show "enc_event sample_event = Some (frame_of sample_event)"
    "enc_event sample_operation = Some (frame_of sample_operation)" "frame_of sample_event \<noteq> frame_of sample_operation"
    by (simp_all add: frame_of_def)
qed

text \<open>Two events for one client are forwarded; the writer of the second is the faster one.\<close>

definition sample_offered :: agent where
  "sample_offered = offer_event sample_operation (offer_event sample_event sample_connected)"

definition sample_forwarded :: agent where
  "sample_forwarded = forward_event (forward_event sample_offered)"

definition sample_overtaken :: agent where
  "sample_overtaken = run_writer 0 True (run_writer 1 True sample_forwarded)"

lemma sample_forwarded_writers:
  "ag_writers sample_forwarded = [(0, frame_of sample_event), (0, frame_of sample_operation)]"
  "ag_forwarded sample_forwarded = [sample_event, sample_operation]" "ag_clients sample_forwarded = [0]"
  "ag_open sample_forwarded = [0]" "ag_wire sample_forwarded = []"
  by (simp_all add: sample_forwarded_def sample_offered_def forward_event_def broadcast_event_def offer_event_def
      sample_connected_def start_agent_def sample_frames)

lemma sample_overtaken_steps:
  "(server_step tx sv)\<^sup>*\<^sup>* sample_connected sample_overtaken"
proof -
  let ?a = "offer_event sample_event sample_connected"
  have "server_step tx sv sample_connected ?a" "server_step tx sv ?a sample_offered"
    unfolding server_step_def sample_offered_def
    by (intro disjI2 external.event; simp add: offer_event_def sample_connected_def start_agent_def event_capacity_def)+
  moreover have "server_step tx sv sample_offered (forward_event sample_offered)"
    "server_step tx sv (forward_event sample_offered) sample_forwarded"
    unfolding server_step_def sample_forwarded_def
    by (intro disjI1 internal.forward;
        simp add: forward_event_def sample_offered_def offer_event_def sample_connected_def start_agent_def)+
  moreover have "server_step tx sv sample_forwarded (run_writer 1 True sample_forwarded)"
    unfolding server_step_def by (intro disjI1 internal.notify) (simp add: sample_forwarded_writers)
  moreover have "server_step tx sv (run_writer 1 True sample_forwarded) sample_overtaken"
    unfolding server_step_def sample_overtaken_def
    by (intro disjI1 internal.notify) (simp add: run_writer_def sample_forwarded_writers drop_nth_def)
  ultimately show ?thesis by (meson converse_rtranclp_into_rtranclp rtranclp.rtrancl_refl)
qed

lemma events_reach_clients_witness:
  "notices 0 sample_overtaken = notices 0 sample_connected + {#frame_of sample_event, frame_of sample_operation#}"
proof -
  have c: "0 \<in> set (ag_clients sample_connected)" "0 \<in> set (ag_clients sample_overtaken)"
    by (simp_all add: sample_connected_def sample_overtaken_def run_writer_def case_prod_beta Let_def sample_forwarded_writers)
  have "ag_forwarded sample_connected = []" "ag_forwarded sample_overtaken = [sample_event, sample_operation]"
    by (simp_all add: sample_connected_def start_agent_def sample_overtaken_def run_writer_def case_prod_beta Let_def
        sample_forwarded_writers)
  with events_reach_clients[OF connected_reachable[OF sample_token] sample_overtaken_steps c] show ?thesis
    by (simp add: List.map_filter_simps sample_frames)
qed

text \<open>
  So the order of the stream is not kept: each frame has a goroutine of its own, and the client gets
  the later event first.
\<close>

lemma events_may_overtake:
  assumes "sv_auth_token sv = ''secret''"
  shows "reachable tx sv sample_overtaken \<and> ag_forwarded sample_overtaken = [sample_event, sample_operation]
    \<and> ag_wire sample_overtaken = [(0, Notice (frame_of sample_operation)), (0, Notice (frame_of sample_event))]"
proof -
  have "reachable tx sv sample_overtaken"
    using sample_overtaken_steps connected_reachable[OF assms]
    by (induction rule: rtranclp_induct) (auto intro: reachable.step)
  then show ?thesis
    by (simp add: sample_overtaken_def run_writer_def sample_forwarded_writers drop_nth_def write_frame_def)
qed

end
