(* ===== verification/Proxy_Stream.thy ===== *)
theory Proxy_Stream
  imports Proxy_Events
begin

text \<open>
  The goroutine that listens to Incus, next to the running server: \<^verbatim>\<open>listenEvents\<close> with the loop of
  \<^verbatim>\<open>ListenEvents\<close>, which reads a message, decodes it and waits for room in the event channel. In
  \<open>Proxy_System\<close> events come out of nowhere; here they come from the stream, one at a time, and a
  full channel holds the stream back.
\<close>

subsection \<open>The listener\<close>

text \<open>
  Dialling, in \<^verbatim>\<open>conn.Read\<close>, in the \<^verbatim>\<open>select\<close> with a decoded event, in the \<^verbatim>\<open>select\<close> of \<^verbatim>\<open>listenEvents\<close>
  after the stream has ended, or gone.
\<close>

datatype listener = Dialling | Reading | Offering event | Resting | Ended

text \<open>\<open>st_done\<close> is whether the context is done; \<open>st_heard\<close> is history, the events that were decoded.\<close>

record stream =
  st_agent :: agent
  st_listener :: listener
  st_done :: bool
  st_heard :: "event list"

definition start_stream :: stream where
  [svc_defs]: "start_stream = \<lparr>st_agent = start_agent, st_listener = Dialling, st_done = False, st_heard = []\<rparr>"

definition hear_message :: "bytes \<Rightarrow> stream \<Rightarrow> stream" where
  [svc_defs]: "hear_message msg s =
     (case unmarshal (dec_struct False event_fields) msg zero_event of
        (ev, Some e) \<Rightarrow> s\<lparr>st_listener := Resting\<rparr>
      | (ev, None) \<Rightarrow> s\<lparr>st_listener := Offering ev, st_heard := st_heard s @ [ev]\<rparr>)"

definition deliver_event :: "event \<Rightarrow> stream \<Rightarrow> stream" where
  [svc_defs]: "deliver_event ev s = s\<lparr>st_listener := Reading, st_agent := offer_event ev (st_agent s)\<rparr>"

text \<open>A step of the server is any of its own and any from the outside but the arrival of an event.\<close>

inductive stream_step :: "json_texts \<Rightarrow> 's server \<Rightarrow> stream \<Rightarrow> stream \<Rightarrow> bool"
  for tx :: json_texts and sv :: "'s server" where
  serve: "server_step tx sv (st_agent s) b \<Longrightarrow> ag_seen b = ag_seen (st_agent s)
    \<Longrightarrow> stream_step tx sv s (s\<lparr>st_agent := b\<rparr>)"
| dialled: "st_listener s = Dialling \<Longrightarrow> stream_step tx sv s (s\<lparr>st_listener := Reading\<rparr>)"
| dial_failed: "st_listener s = Dialling \<Longrightarrow> stream_step tx sv s (s\<lparr>st_listener := Resting\<rparr>)"
| hears: "st_listener s = Reading \<Longrightarrow> stream_step tx sv s (hear_message msg s)"
| read_failed: "st_listener s = Reading \<Longrightarrow> stream_step tx sv s (s\<lparr>st_listener := Resting\<rparr>)"
| delivers: "st_listener s = Offering ev \<Longrightarrow> length (ag_channel (st_agent s)) < event_capacity
    \<Longrightarrow> stream_step tx sv s (deliver_event ev s)"
| gives_up: "st_listener s = Offering ev \<Longrightarrow> st_done s \<Longrightarrow> stream_step tx sv s (s\<lparr>st_listener := Resting\<rparr>)"
| retries: "st_listener s = Resting \<Longrightarrow> stream_step tx sv s (s\<lparr>st_listener := Dialling\<rparr>)"
| ends: "st_listener s = Resting \<Longrightarrow> st_done s \<Longrightarrow> stream_step tx sv s (s\<lparr>st_listener := Ended\<rparr>)"
| context_done: "stream_step tx sv s (s\<lparr>st_done := True\<rparr>)"

definition stream_reachable :: "json_texts \<Rightarrow> 's server \<Rightarrow> stream \<Rightarrow> bool" where
  "stream_reachable tx sv s \<longleftrightarrow> (stream_step tx sv)\<^sup>*\<^sup>* start_stream s"

subsection \<open>Nothing that was heard is lost\<close>

fun pending :: "listener \<Rightarrow> event list" where
  "pending (Offering ev) = [ev]"
| "pending _ = []"

definition stream_ok :: "json_texts \<Rightarrow> 's server \<Rightarrow> stream \<Rightarrow> bool" where
  "stream_ok tx sv s \<longleftrightarrow> reachable tx sv (st_agent s)
     \<and> (\<not> st_done s \<longrightarrow> st_heard s = ag_seen (st_agent s) @ pending (st_listener s))"

lemma stream_step_ok: "stream_step tx sv s s' \<Longrightarrow> stream_ok tx sv s \<Longrightarrow> stream_ok tx sv s'"
proof (induction rule: stream_step.induct)
  case (serve s b)
  then show ?case by (auto simp: stream_ok_def intro: reachable.step)
next
  case (hears s msg)
  then show ?case by (auto simp: stream_ok_def hear_message_def split: prod.split option.split)
next
  case (delivers s ev)
  have "external tx sv (st_agent s) (offer_event ev (st_agent s))" using delivers(2) by (rule external.event)
  with delivers show ?case
    by (auto simp: stream_ok_def deliver_event_def offer_event_def intro: reachable_external)
qed (auto simp: stream_ok_def)

lemma stream_reachable_ok: "stream_reachable tx sv s \<Longrightarrow> stream_ok tx sv s"
  unfolding stream_reachable_def
proof (induction rule: rtranclp_induct)
  case base
  show ?case by (simp add: stream_ok_def start_stream_def reachable.initial) (simp add: start_agent_def)
qed (rule stream_step_ok)

text \<open>
  C12. No event is lost on the way from Incus to the broadcasts. As long as the context is not done,
  the events decoded from the stream are, in their order, those that were broadcast, those in the
  channel, at most 64, and the one the listener is waiting with; a full channel stops the reading
  and nothing is dropped. And the server next to the listener is in a state of \<open>Proxy_System\<close>.
\<close>

theorem stream_kept:
  assumes "stream_reachable tx sv s"
  shows "reachable tx sv (st_agent s) \<and> length (ag_channel (st_agent s)) \<le> 64
    \<and> (\<not> st_done s \<longrightarrow>
        st_heard s = ag_forwarded (st_agent s) @ ag_channel (st_agent s) @ pending (st_listener s))"
  using stream_reachable_ok[OF assms] channel_queue[of tx sv "st_agent s"] by (simp add: stream_ok_def)

text \<open>And it gets there: the server alone can always make room for the event the listener waits with.\<close>

lemma offered_delivered:
  assumes "st_listener s = Offering ev"
  shows "\<exists>s'. (stream_step tx sv)\<^sup>*\<^sup>* s s' \<and> st_listener s' = Reading
    \<and> ag_seen (st_agent s') = ag_seen (st_agent s) @ [ev]"
  using assms
proof (induction "length (ag_channel (st_agent s))" arbitrary: s rule: less_induct)
  case less
  show ?case
  proof (cases "length (ag_channel (st_agent s)) < event_capacity")
    case True
    then have "stream_step tx sv s (deliver_event ev s)" using less.prems by (intro stream_step.delivers)
    then show ?thesis by (intro exI[of _ "deliver_event ev s"]) (auto simp: deliver_event_def offer_event_def)
  next
    case False
    then obtain e es where c: "ag_channel (st_agent s) = e # es"
      by (cases "ag_channel (st_agent s)") (auto simp: event_capacity_def)
    let ?t = "s\<lparr>st_agent := forward_event (st_agent s)\<rparr>"
    have "stream_step tx sv s ?t"
      using c by (intro stream_step.serve) (simp_all add: server_step_def internal.forward)
    moreover have "length (ag_channel (st_agent ?t)) < length (ag_channel (st_agent s))" using c by (simp add: forward_event_def)
    ultimately show ?thesis using less.hyps[of ?t] less.prems by (auto intro: converse_rtranclp_into_rtranclp)
  qed
qed

definition sample_frame :: bytes where
  "sample_frame = ''{\"type\":\"lifecycle\",\"data\":{}}''"

definition sample_listening :: stream where
  "sample_listening = \<lparr>st_agent = start_agent, st_listener = Offering sample_event, st_done = False, st_heard = [sample_event]\<rparr>"

lemma sample_listens: "stream_reachable tx sv sample_listening"
proof -
  have u: "unmarshal (dec_struct False event_fields) sample_frame zero_event = (sample_event, None)" by code_simp
  have "stream_step tx sv start_stream (start_stream\<lparr>st_listener := Reading\<rparr>)"
    by (rule stream_step.dialled) (simp add: start_stream_def)
  moreover have "stream_step tx sv (start_stream\<lparr>st_listener := Reading\<rparr>) (hear_message sample_frame (start_stream\<lparr>st_listener := Reading\<rparr>))"
    by (rule stream_step.hears) simp
  moreover have "hear_message sample_frame (start_stream\<lparr>st_listener := Reading\<rparr>) = sample_listening"
    by (simp add: hear_message_def u start_stream_def sample_listening_def)
  ultimately show ?thesis unfolding stream_reachable_def by (metis converse_rtranclp_into_rtranclp rtranclp.rtrancl_refl)
qed

lemma stream_kept_witness:
  "[sample_event] = ag_forwarded start_agent @ ag_channel start_agent @ pending (Offering sample_event)"
  using stream_kept[OF sample_listens[of sample_texts sample_server]] by (simp add: sample_listening_def)

end
