(* ===== verification/Proxy_Locks.thy ===== *)
theory Proxy_Locks
  imports Proxy_System
begin

text \<open>
  The read-write lock around \<^verbatim>\<open>s.clients\<close>. \<open>Proxy_System\<close> registers and removes a client and looks up
  the clients of the moment in one step each; here are the goroutines that do so, with every point at
  which another may come in between: waiting for the lock, each iteration of a \<^verbatim>\<open>range\<close> over the map,
  the write to the connection that \<^verbatim>\<open>writeResponse\<close> does under the lock.

  \<^verbatim>\<open>sync.RWMutex\<close> is modelled as documented: a reader enters unless a writer holds the lock or has asked
  for it; a writer asks, unless another one has, and enters when the last reader has left.
\<close>

subsection \<open>The goroutines\<close>

text \<open>
  What takes the lock: \<^verbatim>\<open>handleWebSocket\<close> for registering a client and for removing it,
  \<^verbatim>\<open>writeResponse\<close>, and \<^verbatim>\<open>broadcastEvent\<close> for its copy of the clients.
\<close>

datatype job = Register nat | Unregister nat | Respond nat bytes | Broadcast event

primrec writes_map :: "job \<Rightarrow> bool" where
  "writes_map (Register c) = True"
| "writes_map (Unregister c) = True"
| "writes_map (Respond c f) = False"
| "writes_map (Broadcast ev) = False"

text \<open>How far one is. The list is what a broadcast has copied.\<close>

datatype stage = Waiting | Announced | Inside "nat list" | Leaving "nat list" | Finished "nat list"

primrec inside :: "stage \<Rightarrow> bool" where
  "inside Waiting = False"
| "inside Announced = False"
| "inside (Inside vis) = True"
| "inside (Leaving vis) = True"
| "inside (Finished vis) = False"

text \<open>The map, as the set of its keys, the lock, the goroutines, and the history of the map.\<close>

datatype entry = Added nat | Removed nat | Copied "nat list"

record room =
  rm_clients :: "nat set"
  rm_readers :: nat
  rm_writer :: "nat option"
  rm_threads :: "(job \<times> stage) list"
  rm_history :: "entry list"

definition start_room :: "job list \<Rightarrow> room" where
  "start_room jobs = \<lparr>rm_clients = {}, rm_readers = 0, rm_writer = None, rm_threads = map (\<lambda>j. (j, Waiting)) jobs,
     rm_history = []\<rparr>"

definition register_client :: "nat \<Rightarrow> room \<Rightarrow> room" where
  [svc_defs]: "register_client c r = r\<lparr>rm_clients := insert c (rm_clients r), rm_history := rm_history r @ [Added c]\<rparr>"

definition unregister_client :: "nat \<Rightarrow> room \<Rightarrow> room" where
  [svc_defs]: "unregister_client c r = r\<lparr>rm_clients := rm_clients r - {c}, rm_history := rm_history r @ [Removed c]\<rparr>"

definition move_on :: "nat \<Rightarrow> stage \<Rightarrow> room \<Rightarrow> room" where
  "move_on i st r = r\<lparr>rm_threads := (rm_threads r)[i := (fst (rm_threads r ! i), st)]\<rparr>"

definition at :: "room \<Rightarrow> nat \<Rightarrow> job \<Rightarrow> stage \<Rightarrow> bool" where
  "at r i j st \<longleftrightarrow> i < length (rm_threads r) \<and> rm_threads r ! i = (j, st)"

inductive lock_step :: "room \<Rightarrow> room \<Rightarrow> bool" where
  rlock: "at r i j Waiting \<Longrightarrow> \<not> writes_map j \<Longrightarrow> rm_writer r = None
    \<Longrightarrow> lock_step r (move_on i (Inside []) (r\<lparr>rm_readers := Suc (rm_readers r)\<rparr>))"
| announce: "at r i j Waiting \<Longrightarrow> writes_map j \<Longrightarrow> rm_writer r = None
    \<Longrightarrow> lock_step r (move_on i Announced (r\<lparr>rm_writer := Some i\<rparr>))"
| lock: "at r i j Announced \<Longrightarrow> rm_readers r = 0 \<Longrightarrow> lock_step r (move_on i (Inside []) r)"
| register: "at r i (Register c) (Inside vis) \<Longrightarrow> lock_step r (move_on i (Leaving []) (register_client c r))"
| unregister: "at r i (Unregister c) (Inside vis) \<Longrightarrow> lock_step r (move_on i (Leaving []) (unregister_client c r))"
| respond: "at r i (Respond c f) (Inside vis) \<Longrightarrow> lock_step r (move_on i (Leaving []) r)"
| visit: "at r i (Broadcast ev) (Inside vis) \<Longrightarrow> c \<in> rm_clients r \<Longrightarrow> c \<notin> set vis
    \<Longrightarrow> lock_step r (move_on i (Inside (vis @ [c])) r)"
| copied: "at r i (Broadcast ev) (Inside vis) \<Longrightarrow> rm_clients r \<subseteq> set vis
    \<Longrightarrow> lock_step r (move_on i (Leaving vis) (r\<lparr>rm_history := rm_history r @ [Copied vis]\<rparr>))"
| runlock: "at r i j (Leaving vis) \<Longrightarrow> \<not> writes_map j
    \<Longrightarrow> lock_step r (move_on i (Finished vis) (r\<lparr>rm_readers := rm_readers r - 1\<rparr>))"
| unlock: "at r i j (Leaving vis) \<Longrightarrow> writes_map j
    \<Longrightarrow> lock_step r (move_on i (Finished vis) (r\<lparr>rm_writer := None\<rparr>))"

subsection \<open>Mutual exclusion\<close>

definition reading :: "job \<times> stage \<Rightarrow> bool" where
  "reading t \<longleftrightarrow> \<not> writes_map (fst t) \<and> inside (snd t)"

definition writing :: "job \<times> stage \<Rightarrow> bool" where
  "writing t \<longleftrightarrow> writes_map (fst t) \<and> inside (snd t)"

definition claiming :: "job \<times> stage \<Rightarrow> bool" where
  "claiming t \<longleftrightarrow> writes_map (fst t) \<and> (snd t = Announced \<or> inside (snd t))"

text \<open>
  The counter counts the readers; the writer is the one goroutine that has announced itself; and when
  it is inside, no reader is.
\<close>

definition mutex_ok :: "room \<Rightarrow> bool" where
  "mutex_ok r \<longleftrightarrow>
     rm_readers r = size (filter_mset reading (mset (rm_threads r)))
     \<and> (\<forall>i. rm_writer r = Some i \<longleftrightarrow> i < length (rm_threads r) \<and> claiming (rm_threads r ! i))
     \<and> (\<forall>t \<in> set (rm_threads r). writing t \<longrightarrow> rm_readers r = 0)
     \<and> (\<forall>t \<in> set (rm_threads r). snd t = Announced \<longrightarrow> writes_map (fst t))"

lemma move_on_simps [simp]:
  "rm_clients (move_on i st r) = rm_clients r" "rm_readers (move_on i st r) = rm_readers r"
  "rm_writer (move_on i st r) = rm_writer r" "rm_history (move_on i st r) = rm_history r"
  "length (rm_threads (move_on i st r)) = length (rm_threads r)"
  "map fst (rm_threads (move_on i st r)) = map fst (rm_threads r)"
  by (simp_all add: move_on_def map_update list_update_same_conv)
     (metis length_map list_update_beyond list_update_id not_le_imp_less nth_map)

lemma client_simps [simp]:
  "rm_readers (register_client c r) = rm_readers r" "rm_writer (register_client c r) = rm_writer r"
  "rm_threads (register_client c r) = rm_threads r"
  "rm_readers (unregister_client c r) = rm_readers r" "rm_writer (unregister_client c r) = rm_writer r"
  "rm_threads (unregister_client c r) = rm_threads r"
  by (simp_all add: register_client_def unregister_client_def)

lemma move_on_threads: "at r i j st \<Longrightarrow> rm_threads (move_on i st' q) = (rm_threads r)[i := (j, st')]"
  if "rm_threads q = rm_threads r"
  using that by (simp add: move_on_def at_def)

lemma readers_move:
  assumes "i < length ts"
  shows "size (filter_mset P (mset (ts[i := t]))) + (if P (ts ! i) then 1 else 0)
    = size (filter_mset P (mset ts)) + (if P t then 1 else 0)"
  using assms by (simp add: mset_update_nth mset_drop_nth[OF assms])

lemma mutex_writer: "mutex_ok r \<Longrightarrow> at r i j st \<Longrightarrow> writes_map j \<Longrightarrow> st = Announced \<or> inside st \<Longrightarrow> rm_writer r = Some i"
  by (auto simp: mutex_ok_def at_def claiming_def)

lemma mutex_no_reader:
  assumes "mutex_ok r" and "rm_readers r = 0" and "t \<in> set (rm_threads r)"
  shows "\<not> reading t"
proof -
  have e: "filter_mset reading (mset (rm_threads r)) = {#}" using assms(1,2) by (simp add: mutex_ok_def)
  show ?thesis
  proof
    assume "reading t"
    then have "t \<in># filter_mset reading (mset (rm_threads r))" using assms(3) by simp
    then show False unfolding e by simp
  qed
qed

text \<open>A goroutine moves: what has to be seen to, for the counter, the writer and the exclusion.\<close>

lemma mutex_move:
  assumes "mutex_ok r" and "at r i j st" and "rm_threads q = (rm_threads r)[i := (j, st')]"
    and "rm_readers q + (if reading (j, st) then 1 else 0) = rm_readers r + (if reading (j, st') then 1 else 0)"
    and "rm_writer q = (if claiming (j, st') then Some i else if claiming (j, st) then None else rm_writer r)"
    and "claiming (j, st') \<Longrightarrow> claiming (j, st) \<or> rm_writer r = None"
    and "writing (j, st') \<Longrightarrow> rm_readers r = 0"
    and "reading (j, st') \<Longrightarrow> reading (j, st) \<or> rm_writer r = None"
    and "st' = Announced \<Longrightarrow> writes_map j"
  shows "mutex_ok q"
proof -
  have i: "i < length (rm_threads r)" "rm_threads r ! i = (j, st)" using assms(2) by (simp_all add: at_def)
  note ok = assms(1)[unfolded mutex_ok_def]
  have w: "rm_writer r = Some k \<longleftrightarrow> k < length (rm_threads r) \<and> claiming (rm_threads r ! k)" for k using ok by blast
  have "rm_readers q = size (filter_mset reading (mset (rm_threads q)))"
    using ok readers_move[OF i(1), of reading "(j, st')"] i(2) assms(4) unfolding assms(3) by (simp split: if_splits)
  moreover have "rm_writer q = Some k \<longleftrightarrow> k < length (rm_threads q) \<and> claiming (rm_threads q ! k)" for k
  proof (cases "k = i")
    case True
    then show ?thesis using i assms(3,5) w[of i] by (auto simp: nth_list_update split: if_splits)
  next
    case False
    have "rm_writer r = Some i" if "claiming (j, st)" using w[of i] i that by simp
    then show ?thesis using False assms(3,5,6) w[of k] by (auto split: if_splits)
  qed
  moreover have "rm_readers q = 0" if t: "t \<in> set (rm_threads q)" "writing t" for t
  proof -
    obtain k where k: "k < length (rm_threads q)" "rm_threads q ! k = t" using t(1) by (auto simp: in_set_conv_nth)
    show ?thesis
    proof (cases "k = i")
      case True
      with k i assms(3) have "t = (j, st')" by simp
      with t(2) assms(4,7) show ?thesis by (auto simp: reading_def writing_def split: if_splits)
    next
      case False
      with k assms(3) have r: "t \<in> set (rm_threads r)" "k < length (rm_threads r)" "rm_threads r ! k = t" by (auto simp: in_set_conv_nth)
      then have z: "rm_readers r = 0" using ok t(2) by blast
      have "rm_writer r = Some k" using w[of k] r t(2) by (auto simp: claiming_def writing_def)
      moreover have "\<not> reading (j, st)" using mutex_no_reader[OF assms(1) z] i by (metis nth_mem)
      ultimately show ?thesis using z assms(4,8) by (auto split: if_splits)
    qed
  qed
  moreover have "writes_map (fst t)" if "t \<in> set (rm_threads q)" "snd t = Announced" for t
    using that ok assms(3,9) set_update_subset_insert[of "rm_threads r" i "(j, st')"] by auto
  ultimately show ?thesis by (simp add: mutex_ok_def)
qed

lemmas stage_simps = reading_def writing_def claiming_def

lemma mutex_step: "lock_step r q \<Longrightarrow> mutex_ok r \<Longrightarrow> mutex_ok q"
proof (induction rule: lock_step.induct)
  case (rlock r i j)
  then show ?case by (intro mutex_move[OF rlock(4,1)]) (auto simp: move_on_threads stage_simps)
next
  case (announce r i j)
  then show ?case by (intro mutex_move[OF announce(4,1)]) (auto simp: move_on_threads stage_simps)
next
  case (lock r i j)
  then have "writes_map j" unfolding mutex_ok_def at_def by (metis fst_conv nth_mem snd_conv)
  with lock show ?case using mutex_writer[OF lock(3,1)]
    by (intro mutex_move[OF lock(3,1)]) (auto simp: move_on_threads stage_simps)
next
  case (register r i c vis)
  have "rm_readers r = 0" using register unfolding mutex_ok_def at_def by (metis fst_conv inside.simps(3) nth_mem snd_conv writes_map.simps(1) writing_def)
  with register mutex_writer[OF register(2,1)] show ?case
    by (intro mutex_move[OF register(2,1)]) (auto simp: move_on_threads stage_simps)
next
  case (unregister r i c vis)
  have "rm_readers r = 0" using unregister unfolding mutex_ok_def at_def by (metis fst_conv inside.simps(3) nth_mem snd_conv writes_map.simps(2) writing_def)
  with unregister mutex_writer[OF unregister(2,1)] show ?case
    by (intro mutex_move[OF unregister(2,1)]) (auto simp: move_on_threads stage_simps)
next
  case (respond r i c f vis)
  then show ?case by (intro mutex_move[OF respond(2,1)]) (auto simp: move_on_threads stage_simps)
next
  case (visit r i ev vis c)
  then show ?case by (intro mutex_move[OF visit(4,1)]) (auto simp: move_on_threads stage_simps)
next
  case (copied r i ev vis)
  then show ?case by (intro mutex_move[OF copied(3,1)]) (auto simp: move_on_threads stage_simps)
next
  case (runlock r i j vis)
  have "reading (j, Leaving vis)" using runlock(2) by (simp add: reading_def)
  then have "rm_readers r \<noteq> 0" using mutex_no_reader[OF runlock(3)] runlock(1) unfolding at_def by (metis nth_mem)
  with runlock show ?case by (intro mutex_move[OF runlock(3,1)]) (auto simp: move_on_threads stage_simps)
next
  case (unlock r i j vis)
  then show ?case by (intro mutex_move[OF unlock(3,1)]) (auto simp: move_on_threads stage_simps)
qed

definition room_reachable :: "job list \<Rightarrow> room \<Rightarrow> bool" where
  "room_reachable jobs r \<longleftrightarrow> lock_step\<^sup>*\<^sup>* (start_room jobs) r"

lemma mutex_start: "mutex_ok (start_room jobs)"
proof -
  have "filter_mset reading (mset (map (\<lambda>j. (j, Waiting)) jobs)) = {#}" by (induction jobs) (auto simp: reading_def)
  then show ?thesis by (auto simp: mutex_ok_def start_room_def stage_simps)
qed

lemma reachable_mutex: "room_reachable jobs r \<Longrightarrow> mutex_ok r"
  unfolding room_reachable_def
  by (induction rule: rtranclp_induct) (auto intro: mutex_start mutex_step)

subsection \<open>The map is an atomic set\<close>

text \<open>
  The abstract specification: a set that is changed and read in one step each. \<open>atomic\<close> says that a
  history is one of it: every copy is the set of its moment, each element once.
\<close>

primrec happened :: "nat set \<Rightarrow> entry \<Rightarrow> nat set" where
  "happened cs (Added c) = insert c cs"
| "happened cs (Removed c) = cs - {c}"
| "happened cs (Copied vis) = cs"

fun atomic :: "nat set \<Rightarrow> entry list \<Rightarrow> bool" where
  "atomic cs [] = True"
| "atomic cs (Copied vis # h) = (distinct vis \<and> set vis = cs \<and> atomic cs h)"
| "atomic cs (e # h) = atomic (happened cs e) h"

lemma atomic_snoc:
  "atomic cs (h @ [e]) \<longleftrightarrow> atomic cs h \<and> atomic (foldl happened cs h) [e]"
proof (induction h arbitrary: cs)
  case (Cons x h)
  then show ?case by (cases x) auto
qed simp

primrec copying :: "nat set \<Rightarrow> entry set \<Rightarrow> stage \<Rightarrow> bool" where
  "copying cs h Waiting = True"
| "copying cs h Announced = True"
| "copying cs h (Inside vis) = (distinct vis \<and> set vis \<subseteq> cs)"
| "copying cs h (Leaving vis) = (Copied vis \<in> h)"
| "copying cs h (Finished vis) = (Copied vis \<in> h)"

definition history_ok :: "room \<Rightarrow> bool" where
  "history_ok r \<longleftrightarrow> atomic {} (rm_history r) \<and> rm_clients r = foldl happened {} (rm_history r)
     \<and> (\<forall>ev st. (Broadcast ev, st) \<in> set (rm_threads r) \<longrightarrow> copying (rm_clients r) (set (rm_history r)) st)"

lemma copying_mono:
  "copying cs h st \<Longrightarrow> h \<subseteq> h' \<Longrightarrow> cs = cs' \<or> \<not> inside st \<Longrightarrow> copying cs' h' st"
  by (cases st) auto

text \<open>A step adds one entry at most, and does not change the map under a reader.\<close>

lemma history_move:
  assumes "history_ok r" and "at r i j st" and "rm_threads q = (rm_threads r)[i := (j, st')]"
    and "rm_history q = rm_history r @ es" and "rm_clients q = foldl happened (rm_clients r) es"
    and "atomic {} (rm_history q)"
    and "rm_clients q = rm_clients r \<or> (\<forall>t \<in> set (rm_threads r). \<not> reading t)"
    and "\<And>ev. j = Broadcast ev \<Longrightarrow> copying (rm_clients q) (set (rm_history q)) st'"
  shows "history_ok q"
proof -
  have "copying (rm_clients q) (set (rm_history q)) u" if "(Broadcast ev, u) \<in> set (rm_threads q)" for ev u
  proof (cases "(Broadcast ev, u) \<in> set (rm_threads r)")
    case True
    then have "copying (rm_clients r) (set (rm_history r)) u" using assms(1) unfolding history_ok_def by blast
    moreover have "rm_clients r = rm_clients q \<or> \<not> inside u" using assms(7) True by (auto simp: reading_def)
    ultimately show ?thesis using assms(4) by (auto intro: copying_mono)
  next
    case False
    then have "(Broadcast ev, u) = (j, st')"
      using that set_update_subset_insert[of "rm_threads r" i "(j, st')"] unfolding assms(3) by blast
    then show ?thesis using assms(8)[of ev] by (metis prod.inject)
  qed
  with assms(1,4,5,6) show ?thesis unfolding history_ok_def by simp
qed

lemma history_atomic: "history_ok r \<Longrightarrow> atomic {} (rm_history r)"
  unfolding history_ok_def by blast

lemma history_clients: "history_ok r \<Longrightarrow> foldl happened {} (rm_history r) = rm_clients r"
  unfolding history_ok_def by simp

lemma at_mem: "at r i j st \<Longrightarrow> (j, st) \<in> set (rm_threads r)"
  unfolding at_def by (metis nth_mem)

lemma writer_alone:
  assumes "mutex_ok r" and "at r i j st" and "writing (j, st)"
  shows "\<forall>t \<in> set (rm_threads r). \<not> reading t"
proof -
  have "rm_readers r = 0" using assms at_mem[OF assms(2)] by (auto simp: mutex_ok_def)
  with mutex_no_reader[OF assms(1)] show ?thesis by blast
qed

lemma copying_of: "history_ok r \<Longrightarrow> at r i (Broadcast ev) st \<Longrightarrow> copying (rm_clients r) (set (rm_history r)) st"
  unfolding history_ok_def using at_mem by blast

lemma history_step:
  assumes "lock_step r q" and "mutex_ok r" and "history_ok r"
  shows "history_ok q"
  using assms
proof (induction rule: lock_step.induct)
  case (rlock r i j)
  then show ?case by (intro history_move[OF rlock(5,1), where es = "[]"]) (auto simp: move_on_threads dest: history_atomic)
next
  case (announce r i j)
  then show ?case by (intro history_move[OF announce(5,1), where es = "[]"]) (auto simp: move_on_threads dest: history_atomic)
next
  case (lock r i j)
  then show ?case by (intro history_move[OF lock(4,1), where es = "[]"]) (auto simp: move_on_threads dest: history_atomic)
next
  case (register r i c vis)
  have "\<forall>t \<in> set (rm_threads r). \<not> reading t" using writer_alone[OF register(2,1)] by (simp add: writing_def)
  with register show ?case
    by (intro history_move[OF register(3,1), where es = "[Added c]"])
       (auto simp: move_on_threads register_client_def atomic_snoc dest: history_atomic)
next
  case (unregister r i c vis)
  have "\<forall>t \<in> set (rm_threads r). \<not> reading t" using writer_alone[OF unregister(2,1)] by (simp add: writing_def)
  with unregister show ?case
    by (intro history_move[OF unregister(3,1), where es = "[Removed c]"])
       (auto simp: move_on_threads unregister_client_def atomic_snoc dest: history_atomic)
next
  case (respond r i c f vis)
  then show ?case by (intro history_move[OF respond(3,1), where es = "[]"]) (auto simp: move_on_threads dest: history_atomic)
next
  case (visit r i ev vis c)
  have "distinct vis \<and> set vis \<subseteq> rm_clients r" using copying_of[OF visit(5,1)] by simp
  with visit show ?case
    by (intro history_move[OF visit(5,1), where es = "[]"]) (auto simp: move_on_threads dest: history_atomic)
next
  case (copied r i ev vis)
  have "distinct vis \<and> set vis = rm_clients r" using copying_of[OF copied(4,1)] copied(2) by auto
  with copied show ?case
    by (intro history_move[OF copied(4,1), where es = "[Copied vis]"])
       (auto simp: move_on_threads atomic_snoc history_clients dest: history_atomic)
next
  case (runlock r i j vis)
  have "copying (rm_clients r) (set (rm_history r)) (Leaving vis)" if "j = Broadcast ev" for ev
    using copying_of[OF runlock(4)] runlock(1) that by blast
  then show ?case using runlock
    by (intro history_move[OF runlock(4,1), where es = "[]"]) (auto simp: move_on_threads dest: history_atomic)
next
  case (unlock r i j vis)
  have "copying (rm_clients r) (set (rm_history r)) (Leaving vis)" if "j = Broadcast ev" for ev
    using copying_of[OF unlock(4)] unlock(1) that by blast
  then show ?case using unlock
    by (intro history_move[OF unlock(4,1), where es = "[]"]) (auto simp: move_on_threads dest: history_atomic)
qed

lemma reachable_history: "room_reachable jobs r \<Longrightarrow> history_ok r"
  unfolding room_reachable_def
proof (induction rule: rtranclp_induct)
  case base
  show ?case by (auto simp: history_ok_def start_room_def)
next
  case (step r q)
  then show ?case using history_step reachable_mutex unfolding room_reachable_def by blast
qed

text \<open>
  C13. The clients map behaves as an atomic set, which is how the running server uses it. However the
  goroutines interleave, the map is what the registrations and removals made of it one after the
  other; the copy every finished broadcast works on is exactly the set of the clients of one moment,
  each client once; and no goroutine is inside while another one changes the map.
\<close>

theorem clients_linearize:
  assumes "room_reachable jobs r"
  shows "atomic {} (rm_history r) \<and> rm_clients r = foldl happened {} (rm_history r)
    \<and> (\<forall>ev vis. (Broadcast ev, Finished vis) \<in> set (rm_threads r) \<longrightarrow> Copied vis \<in> set (rm_history r))
    \<and> (\<forall>i k j st l u. at r i j st \<longrightarrow> at r k l u \<longrightarrow> writes_map j \<longrightarrow> inside st \<longrightarrow> inside u \<longrightarrow> k = i)"
proof (intro conjI allI impI)
  note h = reachable_history[OF assms, unfolded history_ok_def] and m = reachable_mutex[OF assms]
  show "atomic {} (rm_history r)" "rm_clients r = foldl happened {} (rm_history r)" using h by blast+
  show "Copied vis \<in> set (rm_history r)" if "(Broadcast ev, Finished vis) \<in> set (rm_threads r)" for ev vis
    using h that by fastforce
  show "k = i" if "at r i j st" "at r k l u" "writes_map j" "inside st" "inside u" for i k j st l u
  proof -
    have "\<not> reading (l, u)" using writer_alone[OF m that(1)] at_mem[OF that(2)] that(3,4) by (simp add: writing_def)
    then have "writes_map l" using that(5) by (simp add: reading_def)
    then show ?thesis using mutex_writer[OF m that(1,3)] mutex_writer[OF m that(2)] that(4,5) by simp
  qed
qed

subsection \<open>Nobody waits forever\<close>

primrec stage_work :: "nat \<Rightarrow> stage \<Rightarrow> nat" where
  "stage_work n Waiting = n + 4"
| "stage_work n Announced = n + 3"
| "stage_work n (Inside vis) = n + 2 - length vis"
| "stage_work n (Leaving vis) = 1"
| "stage_work n (Finished vis) = 0"

definition room_work :: "job list \<Rightarrow> room \<Rightarrow> nat" where
  "room_work jobs r = (\<Sum>t \<in># mset (rm_threads r). stage_work (length jobs) (snd t))"

definition jobs_ok :: "job list \<Rightarrow> room \<Rightarrow> bool" where
  "jobs_ok jobs r \<longleftrightarrow> map fst (rm_threads r) = jobs \<and> rm_clients r \<subseteq> {c. Register c \<in> set jobs}
     \<and> (\<forall>j vis. (j, Inside vis) \<in> set (rm_threads r) \<longrightarrow> length vis \<le> length jobs)"

lemma registered_bound:
  assumes "distinct vis" and "set vis \<subseteq> {c. Register c \<in> set jobs}"
  shows "length vis \<le> length jobs"
proof -
  have "Register ` set vis \<subseteq> set jobs" using assms(2) by auto
  then have "card (Register ` set vis) \<le> card (set jobs)" by (intro card_mono) auto
  moreover have "card (Register ` set vis) = length vis"
    using assms(1) by (simp add: card_image inj_on_def distinct_card)
  ultimately show ?thesis using card_length[of jobs] by linarith
qed

lemma jobs_move:
  assumes "jobs_ok jobs r" and "at r i j st" and "rm_threads q = (rm_threads r)[i := (j, st')]"
    and "rm_clients q \<subseteq> {c. Register c \<in> set jobs}" and "\<And>vis. st' = Inside vis \<Longrightarrow> length vis \<le> length jobs"
  shows "jobs_ok jobs q"
proof -
  have "map fst (rm_threads q) = map fst (rm_threads r)"
    using assms(2,3) by (simp add: at_def map_update list_update_same_conv)
  with assms(1,4,5) show ?thesis
    using set_update_subset_insert[of "rm_threads r" i "(j, st')"] unfolding jobs_ok_def assms(3) by fastforce
qed

lemma jobs_step:
  assumes "lock_step r q" and "history_ok r" and "jobs_ok jobs r"
  shows "jobs_ok jobs q"
  using assms
proof (induction rule: lock_step.induct)
  case (register r i c vis)
  have "Register c \<in> set (map fst (rm_threads r))" using at_mem[OF register(1)] by force
  then have "Register c \<in> set jobs" using register(3) unfolding jobs_ok_def by metis
  have t: "rm_threads (move_on i (Leaving []) (register_client c r)) = (rm_threads r)[i := (Register c, Leaving [])]"
    using register(1) by (simp add: move_on_threads)
  show ?case using register(3) \<open>Register c \<in> set jobs\<close>
    by (intro jobs_move[OF register(3,1) t]) (auto simp: jobs_ok_def register_client_def)
next
  case (unregister r i c vis)
  have t: "rm_threads (move_on i (Leaving []) (unregister_client c r)) = (rm_threads r)[i := (Unregister c, Leaving [])]"
    using unregister(1) by (simp add: move_on_threads)
  show ?case using unregister(3)
    by (intro jobs_move[OF unregister(3,1) t]) (auto simp: jobs_ok_def unregister_client_def)
next
  case (visit r i ev vis c)
  have "distinct (vis @ [c]) \<and> set (vis @ [c]) \<subseteq> rm_clients r" using copying_of[OF visit(4,1)] visit(2,3) by auto
  then have "length (vis @ [c]) \<le> length jobs"
    using visit(5) by (intro registered_bound) (auto simp: jobs_ok_def)
  with visit show ?case by (intro jobs_move[OF visit(5,1)]) (auto simp: move_on_threads jobs_ok_def)
next
  case (rlock r i j)
  then show ?case by (intro jobs_move[OF rlock(5,1)]) (auto simp: move_on_threads jobs_ok_def)
next
  case (announce r i j)
  then show ?case by (intro jobs_move[OF announce(5,1)]) (auto simp: move_on_threads jobs_ok_def)
next
  case (lock r i j)
  then show ?case by (intro jobs_move[OF lock(4,1)]) (auto simp: move_on_threads jobs_ok_def)
next
  case (respond r i c f vis)
  then show ?case by (intro jobs_move[OF respond(3,1)]) (auto simp: move_on_threads jobs_ok_def)
next
  case (copied r i ev vis)
  then show ?case by (intro jobs_move[OF copied(4,1)]) (auto simp: move_on_threads jobs_ok_def)
next
  case (runlock r i j vis)
  then show ?case by (intro jobs_move[OF runlock(4,1)]) (auto simp: move_on_threads jobs_ok_def)
next
  case (unlock r i j vis)
  then show ?case by (intro jobs_move[OF unlock(4,1)]) (auto simp: move_on_threads jobs_ok_def)
qed

lemma reachable_jobs: "room_reachable jobs r \<Longrightarrow> jobs_ok jobs r"
  unfolding room_reachable_def
proof (induction rule: rtranclp_induct)
  case base
  show ?case by (auto simp: jobs_ok_def start_room_def comp_def)
next
  case (step r q)
  then show ?case using jobs_step reachable_history unfolding room_reachable_def by blast
qed

text \<open>Every step is work done.\<close>

lemma work_move:
  assumes "at r i j st" and "rm_threads q = (rm_threads r)[i := (j, st')]" and "stage_work (length jobs) st' < stage_work (length jobs) st"
  shows "room_work jobs q < room_work jobs r"
  using assms by (simp add: at_def room_work_def mset_update_nth mset_drop_nth[of i "rm_threads r"])

lemma step_works:
  assumes "lock_step r q" and "jobs_ok jobs r"
  shows "room_work jobs q < room_work jobs r"
  using assms
proof (induction rule: lock_step.induct)
  case (register r i c vis)
  then have "length vis \<le> length jobs" using at_mem[OF register(1)] by (auto simp: jobs_ok_def)
  with register show ?case by (intro work_move[OF register(1)]) (auto simp: move_on_threads)
next
  case (unregister r i c vis)
  then have "length vis \<le> length jobs" using at_mem[OF unregister(1)] by (auto simp: jobs_ok_def)
  with unregister show ?case by (intro work_move[OF unregister(1)]) (auto simp: move_on_threads)
next
  case (respond r i c f vis)
  then have "length vis \<le> length jobs" using at_mem[OF respond(1)] by (auto simp: jobs_ok_def)
  with respond show ?case by (intro work_move[OF respond(1)]) (auto simp: move_on_threads)
next
  case (visit r i ev vis c)
  then have "length vis \<le> length jobs" using at_mem[OF visit(1)] by (auto simp: jobs_ok_def)
  with visit show ?case by (intro work_move[OF visit(1)]) (auto simp: move_on_threads)
next
  case (copied r i ev vis)
  then have "length vis \<le> length jobs" using at_mem[OF copied(1)] by (auto simp: jobs_ok_def)
  with copied show ?case by (intro work_move[OF copied(1)]) (auto simp: move_on_threads)
next
  case (rlock r i j)
  then show ?case by (intro work_move[OF rlock(1)]) (auto simp: move_on_threads)
next
  case (announce r i j)
  then show ?case by (intro work_move[OF announce(1)]) (auto simp: move_on_threads)
next
  case (lock r i j)
  then show ?case by (intro work_move[OF lock(1)]) (auto simp: move_on_threads)
next
  case (runlock r i j vis)
  then show ?case by (intro work_move[OF runlock(1)]) (auto simp: move_on_threads)
next
  case (unlock r i j vis)
  then show ?case by (intro work_move[OF unlock(1)]) (auto simp: move_on_threads)
qed

lemma run_works: "(lock_step ^^ n) (start_room jobs) r \<Longrightarrow> n + room_work jobs r \<le> room_work jobs (start_room jobs)"
proof (induction n arbitrary: r)
  case (Suc n)
  then obtain q where q: "(lock_step ^^ n) (start_room jobs) q" "lock_step q r" by auto
  then have "room_reachable jobs q" unfolding room_reachable_def by (simp add: relpowp_imp_rtranclp)
  then have "room_work jobs r < room_work jobs q" using step_works[OF q(2)] reachable_jobs by blast
  with Suc.IH[OF q(1)] show ?case by linarith
qed simp

text \<open>And as long as a goroutine is not finished, some goroutine can go on.\<close>

lemma inside_goes_on:
  assumes "at r i j (Inside vis)"
  shows "\<exists>q. lock_step r q"
proof (cases j)
  case (Register c)
  show ?thesis using lock_step.register assms[unfolded Register] by blast
next
  case (Unregister c)
  show ?thesis using lock_step.unregister assms[unfolded Unregister] by blast
next
  case (Respond c f)
  show ?thesis using lock_step.respond assms[unfolded Respond] by blast
next
  case (Broadcast ev)
  show ?thesis
  proof (cases "rm_clients r \<subseteq> set vis")
    case True
    then show ?thesis using lock_step.copied assms[unfolded Broadcast] by blast
  next
    case False
    then obtain c where "c \<in> rm_clients r" "c \<notin> set vis" by blast
    then show ?thesis using lock_step.visit assms[unfolded Broadcast] by blast
  qed
qed

lemma leaving_goes_on: "at r i j (Leaving vis) \<Longrightarrow> \<exists>q. lock_step r q"
  using lock_step.unlock lock_step.runlock by blast

lemma goes_on:
  assumes "mutex_ok r" and "at r i j st" and "\<And>vis. st \<noteq> Finished vis"
  shows "\<exists>q. lock_step r q"
proof (cases "\<exists>k l u. at r k l u \<and> inside u")
  case True
  then obtain k l u where "at r k l u" "inside u" by blast
  then show ?thesis using inside_goes_on leaving_goes_on by (cases u) auto
next
  case False
  then have "filter reading (rm_threads r) = []"
    unfolding filter_empty_conv reading_def by (metis at_def in_set_conv_nth prod.collapse)
  then have "filter_mset reading (mset (rm_threads r)) = {#}" by (metis mset.simps(1) mset_filter)
  then have z: "rm_readers r = 0" using assms(1) by (simp add: mutex_ok_def)
  show ?thesis
  proof (cases "rm_writer r")
    case None
    have "st \<noteq> Announced" using mutex_writer[OF assms(1,2)] at_mem[OF assms(2)] None assms(1) by (auto simp: mutex_ok_def)
    moreover have "\<not> inside st" using assms(2) False by blast
    ultimately have "st = Waiting" using assms(3) by (cases st) auto
    then show ?thesis using assms(2) None lock_step.rlock lock_step.announce by blast
  next
    case (Some k)
    then have "k < length (rm_threads r)" "claiming (rm_threads r ! k)" using assms(1) by (auto simp: mutex_ok_def)
    then obtain l u where k: "at r k l u" "u = Announced \<or> inside u" by (cases "rm_threads r ! k") (auto simp: at_def claiming_def)
    then have "u = Announced" using False by blast
    then show ?thesis using k z lock_step.lock by blast
  qed
qed

lemma step_unfinished: "lock_step r q \<Longrightarrow> \<exists>i j st. at r i j st \<and> (\<forall>vis. st \<noteq> Finished vis)"
  by (induction rule: lock_step.induct) (meson stage.distinct)+

text \<open>
  C14. No deadlock. A set of goroutines that compete for the clients map is done after a bounded
  number of steps, whatever the order, and a run that cannot go on is one in which all of them are
  finished.
\<close>

theorem locks_settle:
  assumes "(lock_step ^^ n) (start_room jobs) r"
  shows "n \<le> length jobs * (length jobs + 4)
    \<and> ((\<nexists>q. lock_step r q) \<longleftrightarrow> (\<forall>t \<in> set (rm_threads r). \<exists>vis. snd t = Finished vis))"
proof
  note run = assms
  have "room_work jobs (start_room jobs) = length jobs * (length jobs + 4)"
    by (simp add: room_work_def start_room_def image_mset.compositionality comp_def)
  with run_works[OF run] show "n \<le> length jobs * (length jobs + 4)" by linarith
  have "room_reachable jobs r" unfolding room_reachable_def by (rule relpowp_imp_rtranclp[OF run])
  then have m: "mutex_ok r" by (rule reachable_mutex)
  show "(\<nexists>q. lock_step r q) \<longleftrightarrow> (\<forall>t \<in> set (rm_threads r). \<exists>vis. snd t = Finished vis)"
  proof
    assume stuck: "\<nexists>q. lock_step r q"
    show "\<forall>t \<in> set (rm_threads r). \<exists>vis. snd t = Finished vis"
    proof
      fix t assume "t \<in> set (rm_threads r)"
      then obtain i where "at r i (fst t) (snd t)" by (auto simp: in_set_conv_nth at_def)
      then show "\<exists>vis. snd t = Finished vis" using goes_on[OF m] stuck by blast
    qed
  next
    assume f: "\<forall>t \<in> set (rm_threads r). \<exists>vis. snd t = Finished vis"
    show "\<nexists>q. lock_step r q"
    proof
      assume "\<exists>q. lock_step r q"
      then obtain i j st where "at r i j st" "\<And>vis. st \<noteq> Finished vis" using step_unfinished by blast
      then show False using f at_mem by fastforce
    qed
  qed
qed

text \<open>A run: a client comes in while an event is broadcast.\<close>

definition sample_jobs :: "job list" where
  "sample_jobs = [Register 7]"

definition sample_entered :: room where
  "sample_entered = \<lparr>rm_clients = {7}, rm_readers = 0, rm_writer = None, rm_threads = [(Register 7, Finished [])],
     rm_history = [Added 7]\<rparr>"

lemma sample_enters: "(lock_step ^^ 4) (start_room sample_jobs) sample_entered"
proof -
  let ?a = "start_room sample_jobs"
  let ?b = "move_on 0 Announced (?a\<lparr>rm_writer := Some 0\<rparr>)"
  let ?c = "move_on 0 (Inside []) ?b"
  let ?d = "move_on 0 (Leaving []) (register_client 7 ?c)"
  let ?e = "move_on 0 (Finished []) (?d\<lparr>rm_writer := None\<rparr>)"
  have "lock_step ?a ?b" by (rule lock_step.announce[where j = "Register 7"]) (simp_all add: at_def start_room_def sample_jobs_def)
  moreover have "lock_step ?b ?c"
    by (rule lock_step.lock[where j = "Register 7"]) (simp_all add: at_def start_room_def sample_jobs_def move_on_def)
  moreover have "lock_step ?c ?d"
    by (rule lock_step.register[where vis = "[]"]) (simp add: at_def start_room_def sample_jobs_def move_on_def)
  moreover have "lock_step ?d ?e"
    by (rule lock_step.unlock[where j = "Register 7"])
       (simp_all add: at_def start_room_def sample_jobs_def move_on_def register_client_def)
  moreover have "?e = sample_entered"
    by (simp add: sample_entered_def start_room_def sample_jobs_def move_on_def register_client_def)
  ultimately show ?thesis by (auto simp: numeral_eq_Suc intro!: relcomppI)
qed

lemma clients_linearize_witness: "atomic {} (rm_history sample_entered) \<and> rm_clients sample_entered = {7}"
proof -
  have "room_reachable sample_jobs sample_entered"
    unfolding room_reachable_def by (rule relpowp_imp_rtranclp[OF sample_enters])
  from clients_linearize[OF this] show ?thesis by (simp add: sample_entered_def)
qed

lemma locks_settle_witness: "(4 :: nat) \<le> 5 \<and> (\<nexists>q. lock_step sample_entered q)"
  using locks_settle[OF sample_enters] by (simp add: sample_jobs_def sample_entered_def)

text \<open>
  Waiting can be long, though: \<^verbatim>\<open>writeResponse\<close> holds the lock while it writes to its connection. When
  one client is slow to read, and another one has gone and waits to be removed, no response is
  written to anyone: every step is one of the goroutine that writes to the slow client.
\<close>

lemma slow_client_stalls:
  "\<exists>r. room_reachable [Respond 0 slow, Unregister 1, Respond 2 fast] r \<and> at r 2 (Respond 2 fast) Waiting
    \<and> (\<forall>q. lock_step r q \<longrightarrow> q = move_on 0 (Leaving []) r)"
proof -
  let ?jobs = "[Respond 0 slow, Unregister 1, Respond 2 fast]"
  let ?a = "start_room ?jobs"
  let ?b = "move_on 0 (Inside []) (?a\<lparr>rm_readers := Suc (rm_readers ?a)\<rparr>)"
  let ?c = "move_on 1 Announced (?b\<lparr>rm_writer := Some 1\<rparr>)"
  have "lock_step ?a ?b" by (rule lock_step.rlock[where j = "Respond 0 slow"]) (simp_all add: at_def start_room_def)
  moreover have "lock_step ?b ?c"
    by (rule lock_step.announce[where j = "Unregister 1"]) (simp_all add: at_def start_room_def move_on_def)
  ultimately have reach: "room_reachable ?jobs ?c" unfolding room_reachable_def by (meson converse_rtranclp_into_rtranclp rtranclp.rtrancl_refl)
  define r where "r = ?c"
  have c: "r = \<lparr>rm_clients = {}, rm_readers = 1, rm_writer = Some 1,
      rm_threads = [(Respond 0 slow, Inside []), (Unregister 1, Announced), (Respond 2 fast, Waiting)], rm_history = []\<rparr>"
    by (simp add: r_def start_room_def move_on_def)
  have pts: "i = 0 \<and> j = Respond 0 slow \<and> st = Inside [] \<or> i = 1 \<and> j = Unregister 1 \<and> st = Announced
      \<or> i = 2 \<and> j = Respond 2 fast \<and> st = Waiting" if "at r i j st" for i j st
    using that unfolding c at_def by (auto simp: less_Suc_eq numeral_eq_Suc nth_Cons')
  have lk: "rm_writer r = Some 1" "rm_readers r = 1" by (simp_all add: c)
  have "q = move_on 0 (Leaving []) r" if "lock_step r q" for q
    using that by cases (auto simp: lk dest!: pts)
  moreover have "at r 2 (Respond 2 fast) Waiting" by (simp add: c at_def)
  ultimately show ?thesis using reach unfolding r_def[symmetric] by blast
qed

end
