(* ===== verification/Proxy_Network.thy ===== *)
theory Proxy_Network
  imports Proxy_Confined
begin

text \<open>
  The network messages of the running program, from the client's message to the frame that answers
  it: an apply is answered by its validation alone, a state request by what the detector found, and
  neither sends anything to Incus.
\<close>

subsection \<open>What the frames say\<close>

definition json_plan :: "apply_response \<Rightarrow> json" where
  "json_plan r = jobj
     [(''mode'', JStr (to_valid (ar_mode r))), (''status'', JStr (to_valid (ar_status r))),
      (''interface'', jobj
         [(''name'', JStr (to_valid (as_name (ar_interface r)))),
          (''listenPort'', JNum (itoa (as_listen_port (ar_interface r)))),
          (''addresses'', jarr (map (\<lambda>x. JStr (to_valid x)) (as_addresses (ar_interface r))))]),
      (''peerCount'', JNum (itoa (int (ar_peer_count r)))),
      (''routing'', jobj [(''ipv4Forwarding'', JBool (rt_ipv4 (ar_routing r))),
         (''ipv6Forwarding'', JBool (rt_ipv6 (ar_routing r)))]),
      (''summary'', JStr (to_valid (ar_summary r)))]"

lemma plan_keys:
  "to_valid ''mode'' = ''mode''" "to_valid ''status'' = ''status''" "to_valid ''interface'' = ''interface''"
  "to_valid ''name'' = ''name''" "to_valid ''listenPort'' = ''listenPort''" "to_valid ''addresses'' = ''addresses''"
  "to_valid ''peerCount'' = ''peerCount''" "to_valid ''routing'' = ''routing''" "to_valid ''summary'' = ''summary''"
  "to_valid ''ipv4Forwarding'' = ''ipv4Forwarding''" "to_valid ''ipv6Forwarding'' = ''ipv6Forwarding''"
  by code_simp+

lemma says_plan: "says (enc_apply_response r) (json_plan r) (Suc (Suc (Suc 0)))"
proof -
  have "says (enc_object [(''name'', enc_string (as_name (ar_interface r))),
        (''listenPort'', itoa (as_listen_port (ar_interface r))),
        (''addresses'', enc_array (map enc_string (as_addresses (ar_interface r))))])
      (jobj [(''name'', JStr (to_valid (as_name (ar_interface r)))),
        (''listenPort'', JNum (itoa (as_listen_port (ar_interface r)))),
        (''addresses'', jarr (map (\<lambda>x. JStr (to_valid x)) (as_addresses (ar_interface r))))]) (Suc (Suc 0))"
    by (rule says_object) (simp add: plan_keys says_string says_int says_addresses)
  moreover have "says (enc_routing (ar_routing r)) (jobj [(''ipv4Forwarding'', JBool (rt_ipv4 (ar_routing r))),
      (''ipv6Forwarding'', JBool (rt_ipv6 (ar_routing r)))]) (Suc (Suc 0))"
    unfolding enc_routing_def by (rule says_object) (simp add: plan_keys says_bool)
  ultimately show ?thesis
    unfolding enc_apply_response_def json_plan_def
    by (intro says_object) (simp add: plan_keys says_string says_int)
qed

text \<open>A frame is written for a failure or a success.\<close>

lemma failure_value:
  "map_option plain (read_document (write_response tx i (Some (failure i status message)))) = Some (json_answer i status JNull message)"
  using write_response_value[of "Some (failure i status message)" tx i]
  by (simp add: answer_value_def failure_def readable_def shallow_def body_value_def)

lemma network_path: "is_agent_request (''/agent/v1/network/'' @ p)"
  by (simp add: is_agent_request_iff agent_path_def has_prefix_def)

subsection \<open>Apply\<close>

definition apply_value :: "string \<Rightarrow> apply_error + apply_request \<Rightarrow> json" where
  "apply_value i v = (case v of
     Inl e \<Rightarrow> json_answer i (ae_code e) JNull (ae_message e)
   | Inr q \<Rightarrow> json_answer i 200 (json_plan (plan_of q)) [])"

lemma validate_apply_acceptable: "validate_apply pre raw = Inr q \<Longrightarrow> acceptable pre q"
proof -
  assume v: "validate_apply pre raw = Inr q"
  then have "validate_request pre q = None"
    by (auto simp: validate_apply_def Let_def split: if_splits option.splits prod.splits json_error.splits)
  then show ?thesis by (simp add: validate_request_None)
qed

text \<open>What \<^verbatim>\<open>ctx.Err()\<close> says decides between a refusal and the outcome of the validation.\<close>

definition apply_answer :: "string \<Rightarrow> string option \<Rightarrow> apply_error + apply_request \<Rightarrow> json" where
  "apply_answer i err v = (case err of Some e \<Rightarrow> json_answer i 503 JNull ''request cancelled'' | None \<Rightarrow> apply_value i v)"

lemma apply_handled:
  assumes "sv_network_applier sv = Some (network_applier mc pre)" and "handled tx sv req tr f"
    and "req_path req = ''/agent/v1/network/apply''" and "req_method req = ''POST''"
  shows "tr = [] \<and> (\<exists>s err s'. run_state (mc_ctx_err mc) s = (err, s')
    \<and> map_option plain (read_document f)
        = Some (apply_answer (req_id req) err (validate_apply (applier_prefix pre) (req_body req))))"
proof -
  obtain s s' where run: "run_state (handle_request tx sv req) \<lparr>exchanges = [], outside = s\<rparr> = (f, \<lparr>exchanges = tr, outside = s'\<rparr>)"
    using assms(2) by (auto simp: handled_def)
  obtain err s1 where e: "run_state (mc_ctx_err mc) s = (err, s1)" by fastforce
  have "is_agent_request (req_path req)" using network_path[of "''apply''"] assms(3) by simp
  then have h: "run_state (handle_network_apply tx sv req) \<lparr>exchanges = [], outside = s\<rparr> = (f, \<lparr>exchanges = tr, outside = s'\<rparr>)"
    using run assms(3) by (simp add: handle_request_def handle_agent_request_def has_prefix_def)
  have on: "run_state (on_host (mc_ctx_err mc)) \<lparr>exchanges = [], outside = s\<rparr> = (err, \<lparr>exchanges = [], outside = s1\<rparr>)"
    by (simp add: on_host_def e)
  have "tr = [] \<and> map_option plain (read_document f)
      = Some (apply_answer (req_id req) err (validate_apply (applier_prefix pre) (req_body req)))"
  proof (cases "apply_network (applier_prefix pre) (err \<noteq> None) (req_body req)")
    case (Inl x)
    with h on assms(1,4) have f: "f = write_response tx (req_id req) (Some (failure (req_id req) (ae_code x) (ae_message x)))" "tr = []"
      by (simp_all add: handle_network_apply_def network_applier_def run_state_bind respond_def apply_error_response_def)
    from Inl have "err \<noteq> None \<and> x = new_apply_error 503 ''request cancelled''
        \<or> err = None \<and> validate_apply (applier_prefix pre) (req_body req) = Inl x"
      by (auto simp: apply_network_def split: if_splits sum.splits)
    with f failure_value show ?thesis by (auto simp: apply_answer_def apply_value_def new_apply_error_def)
  next
    case (Inr r)
    with h on assms(1,4) have f: "f = write_response tx (req_id req) (Some (success (req_id req) (enc_apply_response r)))" "tr = []"
      by (simp_all add: handle_network_apply_def network_applier_def run_state_bind respond_def)
    from Inr obtain q where "err = None" "validate_apply (applier_prefix pre) (req_body req) = Inr q" "r = plan_of q"
      by (auto simp: apply_network_def split: if_splits sum.splits)
    with f success_value[OF says_plan] show ?thesis by (simp add: apply_answer_def apply_value_def max_depth_def)
  qed
  with e show ?thesis by blast
qed

text \<open>
  C15. An apply is answered by its validation. When the running program has answered an apply message,
  it has sent nothing to Incus for it, and it has asked the context once. When that was done, the
  frame says that the request is cancelled. When it was not, the frame says the plan of the request
  the body decodes to, and this is acceptable for the managed prefix of the configuration; or the
  status and the message of the first thing that is wrong with it.
\<close>

theorem apply_answered:
  assumes "run_state (agent_main mc) w = (Inr (cfg, sv), w')" and "reachable tx sv a"
    and "(c, req, tr, f) \<in> set (ag_done a)"
    and "req_path req = ''/agent/v1/network/apply''" and "req_method req = ''POST''"
  shows "tr = [] \<and> (\<exists>s err s'. run_state (mc_ctx_err mc) s = (err, s')
      \<and> map_option plain (read_document f)
        = Some (apply_answer (req_id req) err (validate_apply (applier_prefix (cfg_managed_prefix cfg)) (req_body req))))
    \<and> (\<forall>q. validate_apply (applier_prefix (cfg_managed_prefix cfg)) (req_body req) = Inr q
        \<longrightarrow> acceptable (applier_prefix (cfg_managed_prefix cfg)) q)"
proof -
  obtain identity started where "sv = wired_server mc cfg identity started" using agent_main_wires[OF assms(1)] by metis
  then have "sv_network_applier sv = Some (network_applier mc (cfg_managed_prefix cfg))" by (simp add: wired_server_def)
  from apply_handled[OF this done_handled(1)[OF assms(2,3)] assms(4,5)] validate_apply_acceptable show ?thesis by blast
qed

definition sample_apply_message :: bytes where
  "sample_apply_message = ''{\"id\":\"5\",\"method\":\"POST\",\"path\":\"/agent/v1/network/apply\",\"body\":'' @ sample_apply @ ''}''"

definition sample_apply_request :: proxy_request where
  "sample_apply_request = \<lparr>req_id = ''5'', req_method = ''POST'', req_path = ''/agent/v1/network/apply'', req_body = Some sample_apply\<rparr>"

lemma sample_apply_dispatch: "read_message tx sample_apply_message = Dispatch sample_apply_request"
proof -
  have "unmarshal (dec_struct False request_fields) sample_apply_message zero_request = (sample_apply_request, None)
      \<and> validate_proxy_request sample_apply_request = None" by code_simp
  then show ?thesis by (simp add: read_message_def)
qed

text \<open>A run of the sample machine's server that answers one message.\<close>

lemma booted_answers:
  assumes "read_message tx msg = Dispatch req"
  obtains sv w' a tr f where "run_state (agent_main sample_machine) \<lparr>exchanges = [], outside = []\<rparr> = (Inr (sample_config, sv), w')"
    "reachable tx sv a" "(0, req, tr, f) \<in> set (ag_done a)"
proof -
  obtain sv w' where m: "run_state (agent_main sample_machine) \<lparr>exchanges = [], outside = []\<rparr> = (Inr (sample_config, sv), w')"
    by (rule sample_main)
  obtain identity started where "sv = wired_server sample_machine sample_config identity started"
    using agent_main_wires[OF m] by metis
  then have t: "sv_auth_token sv = ''secret''" by (simp add: wired_server_def sample_config_def)
  obtain f v where run: "run_state (handle_request tx sv req) \<lparr>exchanges = [], outside = []\<rparr> = (f, v)" by fastforce
  obtain a where "reachable tx sv a" "ag_done a = [(0, req, exchanges v, f)]"
    using message_served[OF t assms run] by metis
  with m that show thesis by simp
qed

lemma sample_apply_valid:
  obtains q where "validate_apply (applier_prefix ''anvilwg'') (Some sample_apply) = Inr q" "plan_of q = sample_plan"
proof -
  have "apply_network (applier_prefix ''anvilwg'') False (Some sample_apply) = Inr sample_plan" by code_simp
  with that show thesis by (auto simp: apply_network_def split: sum.splits)
qed

text \<open>The context of the sample machine is never done, so the client is told the plan.\<close>

lemma apply_answered_witness:
  "\<exists>sv. \<exists>a :: agent. \<exists>f. reachable sample_texts (sv :: bytes go_map server) a \<and> (0, sample_apply_request, [], f) \<in> set (ag_done a)
    \<and> map_option plain (read_document f) = Some (json_answer ''5'' 200 (json_plan sample_plan) [])"
proof -
  obtain sv w' a tr f where m: "run_state (agent_main sample_machine) \<lparr>exchanges = [], outside = []\<rparr> = (Inr (sample_config, sv), w')"
    "reachable sample_texts sv a" "(0, sample_apply_request, tr, f) \<in> set (ag_done a)"
    by (rule booted_answers[OF sample_apply_dispatch])
  have p: "cfg_managed_prefix sample_config = ''anvilwg''"
    by (simp add: sample_config_def default_config_def default_managed_interface_prefix_def)
  have q: "req_path sample_apply_request = ''/agent/v1/network/apply''" "req_method sample_apply_request = ''POST''"
    "req_id sample_apply_request = ''5''" "req_body sample_apply_request = Some sample_apply"
    by (simp_all add: sample_apply_request_def)
  have c: "run_state (mc_ctx_err sample_machine) s = (None, s)" for s by (simp add: sample_machine_def)
  obtain v where v: "validate_apply (applier_prefix ''anvilwg'') (Some sample_apply) = Inr v" "plan_of v = sample_plan"
    by (rule sample_apply_valid)
  from apply_answered[OF m q(1,2)] have "tr = []"
    "map_option plain (read_document f) = Some (json_answer ''5'' 200 (json_plan sample_plan) [])"
    by (auto simp: c p q v apply_answer_def apply_value_def)
  with m(2,3) show ?thesis by blast
qed

subsection \<open>The network state\<close>

lemma network_state_handled:
  assumes "sv_network_state sv = Some (on_host ns)" and "handled tx sv req tr f"
    and "req_path req = ''/agent/v1/network/state''" and "req_method req = ''GET''"
  shows "tr = [] \<and> (\<exists>s r s'. run_state ns s = (r, s') \<and> map_option plain (read_document f) = Some (case r of
      Inl e \<Rightarrow> json_answer (req_id req) 500 JNull (''build network state report: '' @ e)
    | Inr rep \<Rightarrow> if enc_network_state rep = None
        then json_answer (req_id req) 500 JNull (''marshal network state report: '' @ jt_time tx)
        else json_answer (req_id req) 200 (json_network_state rep) []))"
proof -
  obtain s s' where run: "run_state (handle_request tx sv req) \<lparr>exchanges = [], outside = s\<rparr> = (f, \<lparr>exchanges = tr, outside = s'\<rparr>)"
    using assms(2) by (auto simp: handled_def)
  obtain r s1 where e: "run_state ns s = (r, s1)" by fastforce
  have "is_agent_request (req_path req)" using network_path[of "''state''"] assms(3) by simp
  then have h: "run_state (handle_network_state tx sv req) \<lparr>exchanges = [], outside = s\<rparr> = (f, \<lparr>exchanges = tr, outside = s'\<rparr>)"
    using run assms(3) by (simp add: handle_request_def handle_agent_request_def has_prefix_def)
  have on: "run_state (on_host ns) \<lparr>exchanges = [], outside = s\<rparr> = (r, \<lparr>exchanges = [], outside = s1\<rparr>)"
    by (simp add: on_host_def e)
  show ?thesis
  proof (cases r)
    case (Inl x)
    with h on assms(1,4) have "f = write_response tx (req_id req) (Some (failure (req_id req) 500 (''build network state report: '' @ x)))" "tr = []"
      by (simp_all add: handle_network_state_def run_state_bind respond_def)
    with failure_value Inl e show ?thesis by (intro conjI exI[of _ s] exI[of _ r] exI[of _ s1]) simp_all
  next
    case (Inr rep)
    show ?thesis
    proof (cases "enc_network_state rep")
      case None
      with Inr h on assms(1,4) have "f = write_response tx (req_id req) (Some (failure (req_id req) 500 (''marshal network state report: '' @ jt_time tx)))" "tr = []"
        by (simp_all add: handle_network_state_def run_state_bind respond_def)
      with failure_value Inr None e show ?thesis by (intro conjI exI[of _ s] exI[of _ r] exI[of _ s1]) simp_all
    next
      case (Some data)
      with Inr h on assms(1,4) have "f = write_response tx (req_id req) (Some (success (req_id req) data))" "tr = []"
        by (simp_all add: handle_network_state_def run_state_bind respond_def)
      with success_value[OF says_network_state[OF Some]] Inr Some e show ?thesis
        by (intro conjI exI[of _ s] exI[of _ r] exI[of _ s1]) (simp_all add: max_depth_def)
    qed
  qed
qed

text \<open>
  C16. A network state request is answered with what the detector found. The frame says exactly the
  fields of a report that a run of the detector on the host gave, for the managed prefix of the
  configuration and the identity the program loaded; or that the report could not be built, or has a
  time that cannot be written. Nothing is sent to Incus.
\<close>

theorem network_state_answered:
  assumes "run_state (agent_main mc) w = (Inr (cfg, sv), w')" and "reachable tx sv a"
    and "(c, req, tr, f) \<in> set (ag_done a)"
    and "req_path req = ''/agent/v1/network/state''" and "req_method req = ''GET''"
  shows "tr = [] \<and> (\<exists>identity s0 s1 s r s'.
    run_state (load_identity (mc_lenient_time mc) (mc_identity_host mc) (cfg_state_dir cfg)) s0 = (Inr identity, s1)
    \<and> run_state (detector_network_state (mc_upper mc) (mc_ctx_err mc) (new_detector (mc_probe mc) (cfg_managed_prefix cfg) None)
        \<lparr>na_id = id_id identity, na_schema_version = id_schema_version identity\<rparr>) s = (r, s')
    \<and> map_option plain (read_document f) = Some (case r of
        Inl e \<Rightarrow> json_answer (req_id req) 500 JNull (''build network state report: '' @ e)
      | Inr rep \<Rightarrow> if enc_network_state rep = None
          then json_answer (req_id req) 500 JNull (''marshal network state report: '' @ jt_time tx)
          else json_answer (req_id req) 200 (json_network_state rep) []))"
proof -
  obtain identity started s1 where sv: "sv = wired_server mc cfg identity started"
    and i: "run_state (load_identity (mc_lenient_time mc) (mc_identity_host mc) (cfg_state_dir cfg)) (outside w) = (Inr identity, s1)"
    using agent_main_wires[OF assms(1)] by metis
  let ?ns = "detector_network_state (mc_upper mc) (mc_ctx_err mc) (new_detector (mc_probe mc) (cfg_managed_prefix cfg) None)
        \<lparr>na_id = id_id identity, na_schema_version = id_schema_version identity\<rparr>"
  have "sv_network_state sv = Some (on_host ?ns)" by (simp add: sv wired_server_def)
  from network_state_handled[OF this done_handled(1)[OF assms(2,3)] assms(4,5)] i show ?thesis by blast
qed

definition sample_network_message :: bytes where
  "sample_network_message = ''{\"id\":\"6\",\"method\":\"GET\",\"path\":\"/agent/v1/network/state\"}''"

definition sample_network_request :: proxy_request where
  "sample_network_request = \<lparr>req_id = ''6'', req_method = ''GET'', req_path = ''/agent/v1/network/state'', req_body = None\<rparr>"

lemma sample_network_dispatch: "read_message tx sample_network_message = Dispatch sample_network_request"
proof -
  have "unmarshal (dec_struct False request_fields) sample_network_message zero_request = (sample_network_request, None)
      \<and> validate_proxy_request sample_network_request = None" by code_simp
  then show ?thesis by (simp add: read_message_def)
qed

lemma network_state_answered_witness:
  "\<exists>sv. \<exists>a :: agent. \<exists>tr f. reachable sample_texts (sv :: bytes go_map server) a \<and> (0, sample_network_request, tr, f) \<in> set (ag_done a)
    \<and> tr = [] \<and> read_document f \<noteq> None"
proof -
  obtain sv w' a tr f where m: "run_state (agent_main sample_machine) \<lparr>exchanges = [], outside = []\<rparr> = (Inr (sample_config, sv), w')"
    "reachable sample_texts sv a" "(0, sample_network_request, tr, f) \<in> set (ag_done a)"
    by (rule booted_answers[OF sample_network_dispatch])
  have "req_path sample_network_request = ''/agent/v1/network/state''" "req_method sample_network_request = ''GET''"
    by (simp_all add: sample_network_request_def)
  from network_state_answered[OF m this] have "tr = [] \<and> read_document f \<noteq> None" by auto
  with m(2,3) show ?thesis by blast
qed

end
