(* ===== verification/Main_Process.thy ===== *)
theory Main_Process
  imports Proxy_Confined
begin

text \<open>
  The process: \<^verbatim>\<open>main\<close> from its start to its exit, around the running server. \<^verbatim>\<open>Server.Start\<close> returns
  what \<^verbatim>\<open>ListenAndServe\<close> returns, which is never \<^verbatim>\<open>nil\<close>: an error of the listener, or
  \<^verbatim>\<open>http.ErrServerClosed\<close> once the interrupt has made \<^verbatim>\<open>Start\<close> call \<^verbatim>\<open>Shutdown\<close>. The step of
  the interrupt is that call. \<^verbatim>\<open>Shutdown\<close> does not close the WebSocket connections, so the server is
  left to go on, as before, until the process is gone.
\<close>

subsection \<open>States and steps\<close>

text \<open>
  Why it ends: by \<^verbatim>\<open>log.Fatalf\<close>, whose exit status is 1, or by a panic, whose exit status is 2. The
  one panic of the program is that of \<^verbatim>\<open>newUUID\<close>, when the random source fails.
\<close>

datatype fatal = Start_Failed main_error | Server_Failed string | Panicked

datatype 's process =
    Booting
  | Serving config "'s server" agent
  | Stopping config "'s server" agent
  | Exited nat "fatal option"

text \<open>The end of \<^verbatim>\<open>main\<close>: what it does with the outcome of \<^verbatim>\<open>server.Start\<close>.\<close>

definition main_ends :: "string option \<Rightarrow> 's process" where
  [svc_defs]: "main_ends err = (case err of Some e \<Rightarrow> Exited 1 (Some (Server_Failed e)) | None \<Rightarrow> Exited 0 None)"

text \<open>A start that fails: \<^verbatim>\<open>main\<close> reports the error, unless it is the panic, which ends the process at once.\<close>

definition start_fails :: "main_error \<Rightarrow> 's process" where
  [svc_defs]: "start_fails e =
     (if e = Identity_Failed Random_Panic then Exited 2 (Some Panicked) else Exited 1 (Some (Start_Failed e)))"

definition server_closed :: string where
  [svc_defs]: "server_closed = ''http: Server closed''"

inductive process_step :: "json_texts \<Rightarrow> 's machine \<Rightarrow> 's process \<Rightarrow> 's process \<Rightarrow> bool"
  for tx :: json_texts and mc :: "'s machine" where
  boot: "run_state (agent_main mc) w = (Inr (cfg, sv), w') \<Longrightarrow> process_step tx mc Booting (Serving cfg sv start_agent)"
| boot_failed: "run_state (agent_main mc) w = (Inl e, w') \<Longrightarrow> process_step tx mc Booting (start_fails e)"
| serve: "server_step tx sv a b \<Longrightarrow> process_step tx mc (Serving cfg sv a) (Serving cfg sv b)"
| listener_failed: "process_step tx mc (Serving cfg sv a) (main_ends (Some e))"
| interrupt: "process_step tx mc (Serving cfg sv a) (Stopping cfg sv a)"
| linger: "server_step tx sv a b \<Longrightarrow> process_step tx mc (Stopping cfg sv a) (Stopping cfg sv b)"
| closed: "process_step tx mc (Stopping cfg sv a) (main_ends (Some server_closed))"

inductive_cases process_stepE: "process_step tx mc p q"
inductive_simps exited_stuck: "process_step tx mc (Exited n f) q"

definition process_reachable :: "json_texts \<Rightarrow> 's machine \<Rightarrow> 's process \<Rightarrow> bool" where
  "process_reachable tx mc p \<longleftrightarrow> (process_step tx mc)\<^sup>*\<^sup>* Booting p"

subsection \<open>What every state of the process is\<close>

text \<open>The server of a process that runs is one that \<^verbatim>\<open>main\<close> built, in a reachable state.\<close>

definition exit_ok :: "'s machine \<Rightarrow> nat \<Rightarrow> fatal option \<Rightarrow> bool" where
  "exit_ok mc status reason \<longleftrightarrow>
       status = 2 \<and> reason = Some Panicked \<and> (\<exists>w w'. run_state (agent_main mc) w = (Inl (Identity_Failed Random_Panic), w'))
     \<or> status = 1 \<and> (\<exists>e w w'. reason = Some (Start_Failed e) \<and> e \<noteq> Identity_Failed Random_Panic
          \<and> run_state (agent_main mc) w = (Inl e, w'))
     \<or> status = 1 \<and> (\<exists>e. reason = Some (Server_Failed e))"

lemma exit_ok_server [simp]: "exit_ok mc (Suc 0) (Some (Server_Failed e))"
  by (simp add: exit_ok_def)

primrec process_ok :: "json_texts \<Rightarrow> 's machine \<Rightarrow> 's process \<Rightarrow> bool" where
  "process_ok tx mc Booting = True"
| "process_ok tx mc (Serving cfg sv a) =
     (reachable tx sv a \<and> (\<exists>w w'. run_state (agent_main mc) w = (Inr (cfg, sv), w')))"
| "process_ok tx mc (Stopping cfg sv a) =
     (reachable tx sv a \<and> (\<exists>w w'. run_state (agent_main mc) w = (Inr (cfg, sv), w')))"
| "process_ok tx mc (Exited status reason) = exit_ok mc status reason"

lemma start_fails_ok: "run_state (agent_main mc) w = (Inl e, w') \<Longrightarrow> process_ok tx mc (start_fails e)"
  by (auto simp: start_fails_def exit_ok_def)

lemma process_step_ok: "process_step tx mc p q \<Longrightarrow> process_ok tx mc p \<Longrightarrow> process_ok tx mc q"
  by (induction rule: process_step.induct)
     (auto simp: main_ends_def start_fails_ok intro: reachable.intros)

lemma process_reachable_ok: "process_reachable tx mc p \<Longrightarrow> process_ok tx mc p"
  unfolding process_reachable_def
  by (induction rule: rtranclp_induct) (auto intro: process_step_ok)

text \<open>From a process that is stopping there is one way out.\<close>

definition stopped :: "'s process \<Rightarrow> bool" where
  "stopped p \<longleftrightarrow> (\<exists>cfg sv a. p = Stopping cfg sv a) \<or> p = Exited 1 (Some (Server_Failed server_closed))"

lemma stopped_step: "process_step tx mc p q \<Longrightarrow> stopped p \<Longrightarrow> stopped q"
  by (induction rule: process_step.induct) (auto simp: stopped_def main_ends_def start_fails_def)

lemma stopped_steps: "(process_step tx mc)\<^sup>*\<^sup>* p q \<Longrightarrow> stopped p \<Longrightarrow> stopped q"
  by (induction rule: rtranclp_induct) (auto intro: stopped_step)

text \<open>
  C40. No clean exit. A process never ends with status 0: it ends with status 2 by the panic of the random
  source, with status 1 by the error its start failed with, or with status 1 by the error of the server; the
  first two only when a run of \<^verbatim>\<open>main\<close> fails so. In particular an interrupt of a server
  that works can always end the process, and can end it in one way only: by the fatal error that the
  server was closed, with status 1.
\<close>

theorem no_clean_exit:
  assumes "process_reachable tx mc p"
  shows "(\<forall>status reason. p = Exited status reason \<longrightarrow>
         status = 2 \<and> reason = Some Panicked \<and> (\<exists>w w'. run_state (agent_main mc) w = (Inl (Identity_Failed Random_Panic), w'))
       \<or> status = 1 \<and> (\<exists>e w w'. reason = Some (Start_Failed e) \<and> e \<noteq> Identity_Failed Random_Panic
            \<and> run_state (agent_main mc) w = (Inl e, w'))
       \<or> status = 1 \<and> (\<exists>e. reason = Some (Server_Failed e)))
    \<and> (\<forall>cfg sv a. p = Serving cfg sv a \<longrightarrow>
         process_step tx mc p (Stopping cfg sv a)
         \<and> (process_step tx mc)\<^sup>*\<^sup>* (Stopping cfg sv a) (Exited 1 (Some (Server_Failed server_closed)))
         \<and> (\<forall>status reason. (process_step tx mc)\<^sup>*\<^sup>* (Stopping cfg sv a) (Exited status reason)
              \<longrightarrow> status = 1 \<and> reason = Some (Server_Failed server_closed)))"
proof (intro conjI allI impI)
  fix status reason
  assume "p = Exited status reason"
  with process_reachable_ok[OF assms]
  show "status = 2 \<and> reason = Some Panicked \<and> (\<exists>w w'. run_state (agent_main mc) w = (Inl (Identity_Failed Random_Panic), w'))
       \<or> status = 1 \<and> (\<exists>e w w'. reason = Some (Start_Failed e) \<and> e \<noteq> Identity_Failed Random_Panic
            \<and> run_state (agent_main mc) w = (Inl e, w'))
       \<or> status = 1 \<and> (\<exists>e. reason = Some (Server_Failed e))"
    by (simp add: exit_ok_def)
next
  fix cfg sv a
  assume p: "p = Serving cfg sv a"
  show "process_step tx mc p (Stopping cfg sv a)" unfolding p by (rule process_step.interrupt)
  have "process_step tx mc (Stopping cfg sv a) (main_ends (Some server_closed))" by (rule process_step.closed)
  then show "(process_step tx mc)\<^sup>*\<^sup>* (Stopping cfg sv a) (Exited 1 (Some (Server_Failed server_closed)))"
    by (simp add: main_ends_def)
next
  fix cfg sv a status reason
  assume "(process_step tx mc)\<^sup>*\<^sup>* (Stopping cfg sv a) (Exited status reason)"
  then have "stopped (Exited status reason :: 'a process)" by (rule stopped_steps) (simp add: stopped_def)
  then show "status = 1" "reason = Some (Server_Failed server_closed)" by (simp_all add: stopped_def)
qed

lemma no_clean_exit_witness:
  "\<exists>sv. process_reachable sample_texts sample_machine (Serving sample_config sv start_agent)
    \<and> (process_step sample_texts sample_machine)\<^sup>*\<^sup>* (Stopping sample_config sv start_agent)
        (Exited 1 (Some (Server_Failed server_closed)))"
proof -
  obtain sv w' where "run_state (agent_main sample_machine) \<lparr>exchanges = [], outside = []\<rparr> = (Inr (sample_config, sv), w')"
    by (rule sample_main)
  then have "process_step sample_texts sample_machine Booting (Serving sample_config sv start_agent)"
    by (rule process_step.boot)
  then have r: "process_reachable sample_texts sample_machine (Serving sample_config sv start_agent)"
    by (simp add: process_reachable_def)
  have "(process_step sample_texts sample_machine)\<^sup>*\<^sup>* (Stopping sample_config sv start_agent)
      (Exited 1 (Some (Server_Failed server_closed)))"
    using no_clean_exit[OF r, THEN conjunct2] by simp
  with r show ?thesis by blast
qed

text \<open>The panic is possible where the random source can fail.\<close>

lemma panic_exits:
  assumes "run_state (agent_main mc) w = (Inl (Identity_Failed Random_Panic), w')"
  shows "process_reachable tx mc (Exited 2 (Some Panicked))"
  unfolding process_reachable_def
  using process_step.boot_failed[OF assms, of tx] by (intro r_into_rtranclp) (simp add: start_fails_def)

subsection \<open>The keys of the host\<close>

text \<open>
  The parts of the program that ask the host ask it through the probe, and none of them tells hosts
  apart that differ in private and preshared keys only.
\<close>

lemma agent_main_secrets:
  assumes "same_but_secrets (mc_probe mc) (host_probe_of q)"
  shows "agent_main (mc\<lparr>mc_os := q\<rparr>) = agent_main mc"
proof -
  let ?mc = "mc\<lparr>mc_os := q\<rparr>"
  have d: "detector_network_state upper ctx (new_detector (host_probe_of q) prefix None) ag
      = detector_network_state upper ctx (new_detector (mc_probe mc) prefix None) ag" for upper ctx prefix ag
    using network_state_hides_secrets[OF assms] by (simp add: new_detector_def)
  have "binary_available (new_detector (host_probe_of q) prefix None) = binary_available (new_detector (mc_probe mc) prefix None)" for prefix
    using assms by (simp add: fun_eq_iff binary_available_def new_detector_def same_but_secrets_def)
  then have w: "wire_guard_detector ?mc (new_detector (host_probe_of q) prefix None)
      = wire_guard_detector mc (new_detector (mc_probe mc) prefix None)" for prefix
    by (simp add: wire_guard_detector_def wire_guard_available_def cong: option.case_cong)
  have parts: "new_unix_client ?mc = new_unix_client mc" "network_applier ?mc = network_applier mc" "vm_detector ?mc = vm_detector mc"
    by (simp_all add: fun_eq_iff new_unix_client_def network_applier_def vm_detector_def)
  have n: "reporter_network_state upper ctx (new_state_reporter (new_detector (host_probe_of q) prefix None) ag)
      = reporter_network_state upper ctx (new_state_reporter (new_detector (mc_probe mc) prefix None) ag)" for upper ctx prefix ag
    by (simp add: reporter_network_state_def new_state_reporter_def d)
  have fields: "mc_getenv ?mc = mc_getenv mc" "mc_identity_host ?mc = mc_identity_host mc" "mc_lenient_time ?mc = mc_lenient_time mc"
    "mc_os ?mc = q" "mc_hostname ?mc = mc_hostname mc" "mc_now ?mc = mc_now mc" "mc_upper ?mc = mc_upper mc"
    "mc_ctx_err ?mc = mc_ctx_err mc" "mc_stat ?mc = mc_stat mc" "mc_goos ?mc = mc_goos mc" "mc_goarch ?mc = mc_goarch mc" by simp_all
  show ?thesis unfolding agent_main_def Let_def parts fields w n ..
qed

lemma process_step_same: "agent_main mc = agent_main mc' \<Longrightarrow> process_step tx mc p q \<longleftrightarrow> process_step tx mc' p q"
  by (simp add: process_step.simps)

text \<open>
  On machines that differ in private and preshared keys only, in the format the code documents, the
  program has exactly the same runs. That format is not the one of the \<^verbatim>\<open>wg\<close> tool.
\<close>

lemma program_hides_secrets:
  assumes "same_but_secrets (mc_probe mc) (host_probe_of q)"
  shows "run_state (agent_main (mc\<lparr>mc_os := q\<rparr>)) = run_state (agent_main mc)
    \<and> process_reachable tx (mc\<lparr>mc_os := q\<rparr>) = process_reachable tx mc"
proof -
  have m: "agent_main (mc\<lparr>mc_os := q\<rparr>) = agent_main mc" using assms by (rule agent_main_secrets)
  have "process_step tx (mc\<lparr>mc_os := q\<rparr>) = process_step tx mc"
    using process_step_same[OF m] by (intro ext)
  then have "process_reachable tx (mc\<lparr>mc_os := q\<rparr>) = process_reachable tx mc"
    by (intro ext) (simp only: process_reachable_def)
  with m show ?thesis by simp
qed

text \<open>
  C10. The private keys of the host stay there. On machines whose \<^verbatim>\<open>wg\<close> prints dumps as wg(8) documents
  them, dumps that differ in private keys only, the program starts the same servers and has exactly
  the same runs: whatever clients do, no frame it writes, no request it sends to Incus and no way it
  ends tells a private key. Preshared keys are not covered, because they do not stay: see
  \<open>Network_Parsers.wg_preshared_key_reported\<close>.
\<close>

theorem program_hides_private_keys:
  assumes "same_but_private_keys (mc_probe mc) (host_probe_of q)"
  shows "run_state (agent_main (mc\<lparr>mc_os := q\<rparr>)) = run_state (agent_main mc)
    \<and> process_reachable tx (mc\<lparr>mc_os := q\<rparr>) = process_reachable tx mc"
  using private_keys_secret[OF assms] by (rule program_hides_secrets)

definition sample_wg :: "string \<Rightarrow> wg_interface" where
  "sample_wg private = \<lparr>wi_name = ''anvilwg0'', wi_private = private, wi_public = ''pub'', wi_port = ''51820'', wi_mark = ''off'',
     wi_peers = [\<lparr>wp_public = ''peerpub'', wp_preshared = ''(none)'', wp_endpoint = ''1.2.3.4:5'', wp_allowed_ips = ''10.0.0.2/32'',
       wp_handshake = ''1700000000'', wp_rx = ''10'', wp_tx = ''20'', wp_keepalive = ''off''\<rparr>]\<rparr>"

lemma sample_wg_rekeyed: "rekeyed_dumps (wg_dump [sample_wg ''k1'']) (wg_dump [sample_wg ''k2''])"
proof -
  have "wg_ok (sample_wg ''k1'')" "wg_ok (sample_wg ''k2'')" by code_simp+
  then have "list_all2 rekeyed [sample_wg ''k1''] [sample_wg ''k2'']" by (simp add: rekeyed_def sample_wg_def)
  then show ?thesis unfolding rekeyed_dumps_def by blast
qed

definition keyed_machine :: "string \<Rightarrow> bytes go_map machine" where
  "keyed_machine private = sample_machine\<lparr>mc_os := sample_os (wg_dump [sample_wg private])\<rparr>"

lemma program_hides_private_keys_witness:
  "process_reachable sample_texts (keyed_machine ''k2'') = process_reachable sample_texts (keyed_machine ''k1'')"
proof -
  have "same_but_private_keys (mc_probe (keyed_machine ''k1'')) (host_probe_of (sample_os (wg_dump [sample_wg ''k2''])))"
    using sample_wg_rekeyed
    by (simp add: keyed_machine_def sample_os_probe) (simp add: same_but_private_keys_def sample_host_def)
  from program_hides_private_keys[OF this, of sample_texts] show ?thesis by (simp add: keyed_machine_def)
qed

end
