(* ===== verification/Spec2Isabelle.thy ===== *)
theory Spec2Isabelle
  imports Proxy_Liveness Proxy_Wire Proxy_Stream Proxy_Locks Proxy_Network Main_Process Lifecycle_Correct Lifecycle_Readiness Proxy_Validation Network_Apply
    Network_Detector State_Report State_Identity Config Go_Cidr
begin

text \<open>
  Verification of \<^verbatim>\<open>anvil-agent\<close>, the agent that runs beside an Incus daemon and serves one
  WebSocket endpoint: it proxies allowlisted reads to the daemon, runs allowlisted instance
  operations, reports the state of the host and its WireGuard interfaces, checks declarative network
  requests, and broadcasts Incus events.

  \<^bold>\<open>How the parts hang together.\<close> \<^verbatim>\<open>main\<close> reads the configuration and the identity and wires
  the services into a server. A message of a client is decoded and checked by the gate; a message
  for \<^verbatim>\<open>/agent/v1/\<close> goes to a service, any other to the Incus client. The services reach Incus
  through the same client. Every action is a state transformer on a \<open>world\<close>, the state of the outside
  together with the record of all exchanges with Incus, which is what the safety properties speak
  of.

  \<^bold>\<open>Theories and code.\<close>

  \<^item> \<open>Prelude\<close>: shared collections of facts (\<open>go_defs\<close> for the library parts, \<open>svc_defs\<close> for the
    program's definitions) and lemmas on lists, options and maps.
  \<^item> \<open>Go_Strings\<close>, \<open>Go_Url\<close>, \<open>Go_Cidr\<close>, \<open>Go_Time\<close>, \<open>Go_Json\<close>, \<open>Go_Json_Decode\<close>,
    \<open>Go_Json_Encode\<close>, \<open>Go_Json_Compact\<close>: what the code uses of the Go standard library: \<^verbatim>\<open>strings\<close>,
    \<^verbatim>\<open>strconv\<close>, \<^verbatim>\<open>net/url\<close>, \<^verbatim>\<open>net\<close> (CIDR), \<^verbatim>\<open>time\<close> (RFC 3339) and \<^verbatim>\<open>encoding/json\<close>. Strings are byte
    strings. Decoding into a struct is a table of fields, each with a decoder that updates the
    record, so that repeated keys, case folding and partial decoding behave as in Go. \<open>says t v h\<close>
    means that the text \<open>t\<close> reads as the value \<open>v\<close> of depth at most \<open>h\<close>.
  \<^item> \<open>Config\<close>: \<^verbatim>\<open>internal/config/config.go\<close>.
  \<^item> \<open>Incus\<close>: \<^verbatim>\<open>internal/incus\<close>: requests, responses, the body reader, \<^verbatim>\<open>Client.Do\<close>,
    \<^verbatim>\<open>Client.Execute\<close>, the event stream, and the backend interface of the services with the
    \<open>sends\<close> and \<open>gives\<close> rules. Locale \<open>incus_backend\<close> is the contract of a backend, interpreted on
    the client.
  \<^item> \<open>Lifecycle_Validation\<close>, \<open>Lifecycle_Request\<close>, \<open>Lifecycle_Service\<close>: \<^verbatim>\<open>lifecycle.go\<close> and
    \<^verbatim>\<open>incus_request.go\<close>: decoding and validation, the requests that are built, the service.
    \<open>Lifecycle_Outcomes\<close>, \<open>Lifecycle_Correct\<close>: how its runs can end, and its properties.
    \<open>Lifecycle_Writes\<close>: that a request makes it write at most once, and only what was asked for.
    \<open>Lifecycle_Readiness\<close>: \<^verbatim>\<open>readiness.go\<close>.
  \<^item> \<open>Network_Parsers\<close>, \<open>Network_Detector\<close>, \<open>Network_Apply\<close>: \<^verbatim>\<open>internal/network\<close>.
  \<^item> \<open>State_Identity\<close>, \<open>State_Report\<close>: \<^verbatim>\<open>internal/state\<close>.
  \<^item> \<open>Proxy_Validation\<close>: \<^verbatim>\<open>validation.go\<close>, the gate. \<open>Proxy_Server\<close>: the handlers of
    \<^verbatim>\<open>server.go\<close>, from a message to the frame that answers it; locale \<open>confined_services\<close> is what
    the services owe the server, \<open>accountable_services\<close> adds what a lifecycle service owes.
  \<^item> \<open>Proxy_System\<close>: the running server of \<^verbatim>\<open>server.go\<close>, a step relation over connections, handler
    goroutines, the event channel and the writers. A handler is a task that starts, makes its
    exchanges with Incus one by one and writes its frame; the steps of all tasks interleave freely.
    \<open>Proxy_Handlers\<close>: the invariant of the tasks. \<open>Proxy_Refinement\<close>: the abstract service of
    messages and answers that the server implements. \<open>Proxy_Confined\<close>: what of the program main
    starts reaches Incus, and that it comes to rest. \<open>Proxy_Truthful\<close>: what an answer is worth.
    \<open>Proxy_Liveness\<close>: that every dispatched request is answered, and a create that should succeed
    with a success. \<open>Proxy_Wire\<close>: from the log of requests to HTTP requests. \<open>Proxy_Events\<close>: the event frames.
    \<open>Proxy_Network\<close>: how network messages are answered.
  \<^item> \<open>Proxy_Stream\<close>: the goroutine of \<^verbatim>\<open>listenEvents\<close> and \<^verbatim>\<open>ListenEvents\<close> beside that server.
    \<open>Proxy_Locks\<close>: the goroutines that take the lock around \<^verbatim>\<open>s.clients\<close>, at the grain of single map
    accesses; it justifies that \<open>Proxy_System\<close> changes and reads the clients in one step each.
  \<^item> \<open>Main_Wiring\<close>: \<^verbatim>\<open>cmd/anvil-agent/main.go\<close>, and the interpretations of \<open>confined_services\<close>
    and \<open>accountable_services\<close> on the server it builds. \<open>Main_Process\<close>: the process, from the start
    of \<^verbatim>\<open>main\<close> over \<^verbatim>\<open>Server.Start\<close> to its exit.

  Structs are records, enumerations datatypes with the constants of the code, nil pointers and nil
  raw messages \<open>None\<close>, nil slices distinct from empty ones where JSON tells them apart. An error
  is a value: \<open>Inl\<close>, or an option beside the result where the code returns both. Names follow the
  code in lower case.

  \<^bold>\<open>What is shown.\<close>

  \<^item> Confinement: every request the running program sends to Incus is on the abstract list of
    permitted requests, at most five per message, for every backend, machine, client behaviour and
    interleaving, which rests on the same statement for the lifecycle service, the reporters and the
    gate; every write is the one a client with the token asked for; without a hash sign in its path,
    a request becomes an HTTP request whose target, after Go's own URL parsing, is one of the
    allowed targets.
  \<^item> Truthfulness of results: a frame that tells a client of a success of a create, a start, a
    stop, a restart or a delete means that the exchanges behind it are in the log of the server, in
    their order, with exactly the body the request asked for; with a cooperating Incus, a
    client that sends a valid create is sent its success; every other result is one of a fixed list
    of errors.
  \<^item> Secrets: on machines whose \<^verbatim>\<open>wg\<close> dumps, in the format of wg(8), differ in private keys only, the
    program has exactly the same runs. The same holds for preshared keys in the format the code documents
    only. In the format of wg(8) it is false: the preshared key of the last peer is reported
    (\<open>Network_Parsers.wg_preshared_key_reported\<close>).
  \<^item> Texts: reports, bodies and frames read back as exactly the fields they were built from;
    parsing undoes printing for the WireGuard dump; the identity file keeps the identity.
  \<^item> Validation: the gate, the paths of the lifecycle service, the network requests and the
    environment accept exactly what their specifications say.
  \<^item> The running server: nobody is served without the token; it refines an abstract service in
    which messages are asked and answered in any order; replies and messages match one to one;
    left alone it comes to rest in a bounded number of steps (seven per handler that has not
    started) with every message answered; the event channel is a queue of at most 64; every client
    that stays connected is told of every event once, though not in their order. While the context
    lasts, no event the listener decoded is lost; a full channel stops the reading. Under the lock
    the clients are an atomic set, and the goroutines at the lock always come to an end (though one
    slow client can hold up all: \<open>Proxy_Locks.slow_client_stalls\<close>).
  \<^item> Network messages: a network state message is answered with exactly a report of the detector, an
    apply with the plan of the validated request or the first error, unless the context is done, and
    neither reaches Incus.
  \<^item> The process: it ends by a fatal error or, where the random source fails, by a panic; an interrupt
    ends it by a fatal error.

  \<^bold>\<open>Bounds.\<close> No definition needs fuel except the JSON reader, whose recursion is bounded by the
  length of its text, with the nesting limit of 10000 of \<^verbatim>\<open>encoding/json\<close> written out. Go's
  \<^verbatim>\<open>int\<close> and \<^verbatim>\<open>int64\<close> are integers with the range checks of \<^verbatim>\<open>strconv\<close>; the bytes of an identifier
  are 8-bit words. The drain of a request body, which reads until the reader is empty, and the
  running server have termination proofs.

  \<^bold>\<open>Parameters.\<close> The HTTP transport behind the Unix socket, the WebSocket library, the file
  system, clock, random source, host name, the commands and files a detector probes, the context's
  error, error texts of \<^verbatim>\<open>encoding/json\<close> and \<^verbatim>\<open>net/url\<close>, upper-casing of text that is not ASCII, and
  time texts outside strict RFC 3339. Each is an argument, mostly a function on the state of the
  outside, which may answer differently every time.

  \<^bold>\<open>Not modelled.\<close> What \<^verbatim>\<open>http.ServeMux\<close> answers on paths without a handler (a parameter), logging, the
  dial of the event stream (it succeeds or fails), and timeouts: a write may fail and a context be
  done at any time. In \<open>Proxy_System\<close> a handler meets
  the outside in a state of its own, chosen freely when it starts: what the other handlers and the
  rest of the world do to Incus meanwhile is part of that choice, so the model has every run of the
  code and more.
\<close>

end
